(* ===== verification/Prelude.thy ===== *)
theory Prelude
  imports Main "HOL-Library.Multiset"
begin

text \<open>
  The shared vocabulary of the development.  A C++ function that can abort (a failed \<^verbatim>\<open>CHECK\<close> or
  \<^verbatim>\<open>DCHECK\<close>, a \<^verbatim>\<open>LOG(FATAL)\<close>), that can index a vector out of range, or whose behaviour the
  language leaves undefined, returns a value of \<open>'a result\<close>: \<open>Inl\<close> carries the reason, \<open>Inr\<close>
  the value.  The debug build is modelled, in which \<^verbatim>\<open>DCHECK\<close> and \<^verbatim>\<open>DEBUG_ASSERT\<close> are active.
  \<open>std::vector\<close>, \<open>std::list\<close>, \<open>std::queue\<close> and \<open>std::stack\<close> are lists; an unordered map that
  the code iterates over is an association list in iteration order, an unordered map that it only
  looks up is a HOL map; an unordered set that the code iterates over is a list without
  duplicates.  Sizes, indices and ids are natural numbers unless wrap-around matters.
\<close>

section \<open>Results\<close>

datatype cpp_error =
    CheckFailed         \<comment> \<open>\<^verbatim>\<open>CHECK\<close>, \<^verbatim>\<open>DCHECK\<close> or \<^verbatim>\<open>DEBUG_ASSERT\<close>\<close>
  | FatalLog            \<comment> \<open>\<^verbatim>\<open>LOG(FATAL)\<close>\<close>
  | OutOfRange          \<comment> \<open>unchecked vector access out of range\<close>
  | UndefinedBehaviour  \<comment> \<open>other undefined behaviour, e.g. an iterator past the end\<close>
  | NullPointer         \<comment> \<open>a null pointer dereferenced\<close>
  | OutOfFuel           \<comment> \<open>the recursion bound of a model, shown not to be reached\<close>

type_synonym 'a result = "cpp_error + 'a"

named_theorems res_simps \<open>unfolding the result plumbing\<close>

fun and_then :: "'a result \<Rightarrow> ('a \<Rightarrow> 'b result) \<Rightarrow> 'b result" where
  "and_then (Inl e) f = Inl e"
| "and_then (Inr x) f = f x"

definition check :: "cpp_error \<Rightarrow> bool \<Rightarrow> unit result" where
  "check e b = (if b then Inr () else Inl e)"

text \<open>A loop over a list whose body may fail: it stops at the first failure.\<close>

fun fold_res :: "('s \<Rightarrow> 'x \<Rightarrow> 's result) \<Rightarrow> 's \<Rightarrow> 'x list \<Rightarrow> 's result" where
  "fold_res f s [] = Inr s"
| "fold_res f s (x # xs) = and_then (f s x) (\<lambda>s'. fold_res f s' xs)"

text \<open>Vector access, with the out-of-range case written out.\<close>

definition vec_at :: "'a list \<Rightarrow> nat \<Rightarrow> 'a result" where
  "vec_at xs i = (if i < length xs then Inr (xs ! i) else Inl OutOfRange)"

definition vec_set :: "'a list \<Rightarrow> nat \<Rightarrow> 'a \<Rightarrow> 'a list result" where
  "vec_set xs i v = (if i < length xs then Inr (xs[i := v]) else Inl OutOfRange)"

lemma and_then_cong [fundef_cong]:
  assumes "m = m'" and "\<And>x. m' = Inr x \<Longrightarrow> f x = g x"
  shows "and_then m f = and_then m' g"
  using assms by (cases m') auto

lemma and_then_eq_Inr [res_simps]:
  "(and_then m f = Inr y) \<longleftrightarrow> (\<exists>x. m = Inr x \<and> f x = Inr y)"
  by (cases m) auto

lemma and_then_assoc: "and_then (and_then m f) g = and_then m (\<lambda>x. and_then (f x) g)"
  by (cases m) simp_all

lemma and_then_eq_Inl [res_simps]:
  "(and_then m f = Inl e) \<longleftrightarrow> m = Inl e \<or> (\<exists>x. m = Inr x \<and> f x = Inl e)"
  by (cases m) auto

lemma check_eq_Inr [res_simps]: "(check e b = Inr u) \<longleftrightarrow> b"
  by (auto simp: check_def)

lemma check_eq_Inl [res_simps]: "(check e b = Inl e') \<longleftrightarrow> \<not> b \<and> e' = e"
  by (auto simp: check_def)

lemma check_True [simp]: "check e True = Inr ()"
  by (simp add: check_def)

lemma check_False [simp]: "check e False = Inl e"
  by (simp add: check_def)

lemma vec_at_eq_Inr [res_simps]: "(vec_at xs i = Inr v) \<longleftrightarrow> i < length xs \<and> v = xs ! i"
  by (auto simp: vec_at_def)

lemma vec_set_eq_Inr [res_simps]: "(vec_set xs i v = Inr ys) \<longleftrightarrow> i < length xs \<and> ys = xs[i := v]"
  by (auto simp: vec_set_def)

lemma vec_at_in_range [simp]: "i < length xs \<Longrightarrow> vec_at xs i = Inr (xs ! i)"
  by (simp add: vec_at_def)

lemma vec_set_in_range [simp]: "i < length xs \<Longrightarrow> vec_set xs i v = Inr (xs[i := v])"
  by (simp add: vec_set_def)

text \<open>An invariant kept by every successful body is kept by the loop; a body that always succeeds
  under the invariant makes the loop succeed.\<close>

lemma fold_res_invariant:
  assumes "\<And>s x s'. \<lbrakk>x \<in> set xs; P s; f s x = Inr s'\<rbrakk> \<Longrightarrow> P s'"
    and "P s" and "fold_res f s xs = Inr s'"
  shows "P s'"
  using assms
proof (induction xs arbitrary: s)
  case Nil
  then show ?case by simp
next
  case (Cons x xs)
  from Cons.prems(3) obtain t where t: "f s x = Inr t" "fold_res f t xs = Inr s'"
    by (auto simp: res_simps)
  have "P t" using Cons.prems(1) [of x s t] Cons.prems(2) t(1) by simp
  then show ?case using Cons.IH [of t] Cons.prems(1) t(2) by (metis list.set_intros(2))
qed

lemma fold_res_total:
  assumes "\<And>s x. \<lbrakk>x \<in> set xs; P s\<rbrakk> \<Longrightarrow> \<exists>s'. f s x = Inr s' \<and> P s'"
    and "P s"
  shows "\<exists>s'. fold_res f s xs = Inr s' \<and> P s'"
  using assms
proof (induction xs arbitrary: s)
  case Nil
  then show ?case by simp
next
  case (Cons x xs)
  obtain t where "f s x = Inr t" "P t" using Cons.prems by (metis list.set_intros(1))
  then show ?case using Cons.IH [of t] Cons.prems(1) by simp
qed

lemma fold_res_append:
  "fold_res f s (xs @ ys) = and_then (fold_res f s xs) (\<lambda>s'. fold_res f s' ys)"
proof (induction xs arbitrary: s)
  case (Cons x xs)
  then show ?case by (cases "f s x") simp_all
qed simp

section \<open>Association lists in iteration order\<close>

text \<open>\<^verbatim>\<open>unordered_map::operator[]\<close> on a map that is later iterated over: a missing key is inserted
  with the default value.\<close>

fun al_get :: "'v \<Rightarrow> ('k \<times> 'v) list \<Rightarrow> 'k \<Rightarrow> 'v" where
  "al_get d [] k = d"
| "al_get d ((k', v) # m) k = (if k = k' then v else al_get d m k)"

fun al_put :: "('k \<times> 'v) list \<Rightarrow> 'k \<Rightarrow> 'v \<Rightarrow> ('k \<times> 'v) list" where
  "al_put [] k v = [(k, v)]"
| "al_put ((k', v') # m) k v = (if k = k' then (k, v) # m else (k', v') # al_put m k v)"

lemma al_get_al_put [simp]: "al_get d (al_put m k v) k' = (if k' = k then v else al_get d m k')"
  by (induction m) auto

lemma al_put_keys [simp]: "fst ` set (al_put m k v) = insert k (fst ` set m)"
  by (induction m k v rule: al_put.induct) auto

lemma al_put_distinct [simp]: "distinct (map fst (al_put m k v)) = distinct (map fst m)"
proof (induction m)
  case (Cons a m)
  obtain k' v' where [simp]: "a = (k', v')" by (cases a)
  have "fst ` set (al_put m k v) = insert k (fst ` set m)" by simp
  then show ?case using Cons by (auto simp: image_iff)
qed simp

lemma al_get_in: "distinct (map fst m) \<Longrightarrow> (k, v) \<in> set m \<Longrightarrow> al_get d m k = v"
  by (induction m) (auto simp: rev_image_eqI)

lemma al_get_cases: "al_get d m k = d \<or> (k, al_get d m k) \<in> set m"
  by (induction d m k rule: al_get.induct) auto

section \<open>Lists\<close>

text \<open>\<open>remove_first P xs\<close> is \<^verbatim>\<open>list::erase\<close> at the first element that satisfies \<open>P\<close>.\<close>

fun remove_first :: "('a \<Rightarrow> bool) \<Rightarrow> 'a list \<Rightarrow> 'a list" where
  "remove_first P [] = []"
| "remove_first P (x # xs) = (if P x then xs else x # remove_first P xs)"

lemma set_remove_first: "set (remove_first P xs) \<subseteq> set xs"
  by (induction xs) auto

lemma remove_first_id: "\<not> list_ex P xs \<Longrightarrow> remove_first P xs = xs"
  by (induction xs) auto

lemma length_remove_first:
  "length (remove_first P xs) = (if list_ex P xs then length xs - 1 else length xs)"
  by (induction xs) (auto simp: list_ex_iff dest: length_pos_if_in_set)

lemma sorted_wrt_remove_first: "sorted_wrt R xs \<Longrightarrow> sorted_wrt R (remove_first P xs)"
proof (induction xs)
  case (Cons x xs)
  then show ?case using set_remove_first [of P xs] by auto
qed simp

lemma length_filter_remove_first:
  "list_ex P xs \<Longrightarrow> length (filter Q (remove_first (\<lambda>x. P x) xs)) \<le> length (filter Q xs)"
  by (induction xs) auto

lemma filter_remove_first_same:
  "length (filter P (remove_first P xs)) = length (filter P xs) - 1"
  by (induction xs) auto

lemma filter_remove_first_other:
  assumes "\<And>x. P x \<Longrightarrow> \<not> Q x"
  shows "filter Q (remove_first P xs) = filter Q xs"
  using assms by (induction xs) auto

lemma length_filter_eq_iff: "length (filter P xs) = length xs \<longleftrightarrow> (\<forall>x \<in> set xs. P x)"
  by (metis filter_True length_filter_less less_irrefl)

end
