(* ===== verification/AccessModes.thy ===== *)
theory AccessModes
  imports Prelude
begin

text \<open>
  The value types of the transaction subsystem: access modes and their compatibility matrix
  (\<^verbatim>\<open>AccessMode\<close>), resource ids in the four-level granularity hierarchy (\<^verbatim>\<open>ResourceId\<close>), locks
  (\<^verbatim>\<open>Lock\<close>), lock requests (\<^verbatim>\<open>LockRequest\<close>) and transactions (\<^verbatim>\<open>Transaction\<close>).
\<close>

section \<open>Access modes\<close>

datatype AccessMode = kNoLockMode | kIsLockMode | kIxLockMode | kSLockMode | kSixLockMode | kXLockMode

fun access_mode_underlying :: "AccessMode \<Rightarrow> nat" where
  "access_mode_underlying kNoLockMode = 0"
| "access_mode_underlying kIsLockMode = 1"
| "access_mode_underlying kIxLockMode = 2"
| "access_mode_underlying kSLockMode = 3"
| "access_mode_underlying kSixLockMode = 4"
| "access_mode_underlying kXLockMode = 5"

definition kLockCompatibilityMatrix :: "bool list list" where
  "kLockCompatibilityMatrix =
    [[True, True,  True,  True,  True,  True ],
     [True, True,  True,  True,  True,  False],
     [True, True,  True,  False, False, False],
     [True, True,  False, True,  False, False],
     [True, True,  False, False, False, False],
     [True, False, False, False, False, False]]"

definition isCompatible :: "AccessMode \<Rightarrow> AccessMode \<Rightarrow> bool" where
  "isCompatible this_mode other_mode =
     kLockCompatibilityMatrix ! access_mode_underlying this_mode ! access_mode_underlying other_mode"

definition isIntentionShareLock :: "AccessMode \<Rightarrow> bool" where
  "isIntentionShareLock m \<longleftrightarrow> m = kIsLockMode"

definition isIntentionExclusiveLock :: "AccessMode \<Rightarrow> bool" where
  "isIntentionExclusiveLock m \<longleftrightarrow> m = kIxLockMode"

definition isShareAndIntentionExclusiveLock :: "AccessMode \<Rightarrow> bool" where
  "isShareAndIntentionExclusiveLock m \<longleftrightarrow> m = kSixLockMode"

definition isShareLock :: "AccessMode \<Rightarrow> bool" where
  "isShareLock m \<longleftrightarrow> m = kSLockMode"

definition isExclusiveLock :: "AccessMode \<Rightarrow> bool" where
  "isExclusiveLock m \<longleftrightarrow> m = kXLockMode"

section \<open>Resource ids\<close>

definition kInvalidCatalogId :: int where
  "kInvalidCatalogId = -1"

definition kInvalidBlockId :: nat where
  "kInvalidBlockId = 0"

record ResourceId =
  db_id :: int
  rel_id :: int
  block_id :: nat
  tuple_id :: int

text \<open>The constructor's default arguments: a database, relation, block or tuple level id.\<close>

definition resource_id :: "int \<Rightarrow> int \<Rightarrow> nat \<Rightarrow> int \<Rightarrow> ResourceId" where
  "resource_id d r b t = \<lparr>db_id = d, rel_id = r, block_id = b, tuple_id = t\<rparr>"

definition isDatabaseIdPlaceholder :: "ResourceId \<Rightarrow> bool" where
  "isDatabaseIdPlaceholder r \<longleftrightarrow> db_id r = kInvalidCatalogId"

definition isRelationIdPlaceholder :: "ResourceId \<Rightarrow> bool" where
  "isRelationIdPlaceholder r \<longleftrightarrow> rel_id r = kInvalidCatalogId"

definition isBlockIdPlaceholder :: "ResourceId \<Rightarrow> bool" where
  "isBlockIdPlaceholder r \<longleftrightarrow> block_id r = kInvalidBlockId"

definition isTupleIdPlaceholder :: "ResourceId \<Rightarrow> bool" where
  "isTupleIdPlaceholder r \<longleftrightarrow> tuple_id r = kInvalidCatalogId"

definition isDatabaseAccess :: "ResourceId \<Rightarrow> bool" where
  "isDatabaseAccess r \<longleftrightarrow> \<not> isDatabaseIdPlaceholder r \<and> isRelationIdPlaceholder r
     \<and> isBlockIdPlaceholder r \<and> isTupleIdPlaceholder r"

definition isRelationAccess :: "ResourceId \<Rightarrow> bool" where
  "isRelationAccess r \<longleftrightarrow> \<not> isDatabaseIdPlaceholder r \<and> \<not> isRelationIdPlaceholder r
     \<and> isBlockIdPlaceholder r \<and> isTupleIdPlaceholder r"

definition isBlockAccess :: "ResourceId \<Rightarrow> bool" where
  "isBlockAccess r \<longleftrightarrow> \<not> isDatabaseIdPlaceholder r \<and> \<not> isRelationIdPlaceholder r
     \<and> \<not> isBlockIdPlaceholder r \<and> isTupleIdPlaceholder r"

definition isTupleAccess :: "ResourceId \<Rightarrow> bool" where
  "isTupleAccess r \<longleftrightarrow> \<not> isDatabaseIdPlaceholder r \<and> \<not> isRelationIdPlaceholder r
     \<and> \<not> isBlockIdPlaceholder r \<and> \<not> isTupleIdPlaceholder r"

definition hasParent :: "ResourceId \<Rightarrow> bool" where
  "hasParent r \<longleftrightarrow> \<not> isDatabaseAccess r"

text \<open>The last branch is the \<^verbatim>\<open>LOG(FATAL)\<close>; it is taken by database ids, and also by ids that are on
  no level (for example a block id without a relation id), for which \<open>hasParent\<close> is true.\<close>

definition getParentResourceId :: "ResourceId \<Rightarrow> ResourceId result" where
  "getParentResourceId r =
     (if isRelationAccess r then
        Inr (resource_id (db_id r) kInvalidCatalogId kInvalidBlockId kInvalidCatalogId)
      else if isBlockAccess r then
        Inr (resource_id (db_id r) (rel_id r) kInvalidBlockId kInvalidCatalogId)
      else if isTupleAccess r then
        Inr (resource_id (db_id r) (rel_id r) (block_id r) kInvalidCatalogId)
      else Inl FatalLog)"

section \<open>Locks, requests, transactions\<close>

type_synonym transaction_id = nat

record Lock =
  lock_rid :: ResourceId
  lock_mode :: AccessMode

datatype RequestType = kAcquireLock | kReleaseLocks

record LockRequest =
  req_tid :: transaction_id
  req_rid :: ResourceId
  req_mode :: AccessMode
  req_type :: RequestType

datatype TransactionStatus = kRunning | kAborted | kCommitted

record Transaction =
  txn_tid :: transaction_id
  txn_status :: TransactionStatus

text \<open>The setter assigns the field to itself and ignores its argument.\<close>

definition setStatus :: "Transaction \<Rightarrow> TransactionStatus \<Rightarrow> Transaction" where
  "setStatus t status = t\<lparr>txn_status := txn_status t\<rparr>"

definition getStatus :: "Transaction \<Rightarrow> TransactionStatus" where
  "getStatus t = txn_status t"

section \<open>Lemmas\<close>

lemmas access_mode_defs = isIntentionShareLock_def isIntentionExclusiveLock_def
  isShareAndIntentionExclusiveLock_def isShareLock_def isExclusiveLock_def

lemmas placeholder_defs = isDatabaseIdPlaceholder_def isRelationIdPlaceholder_def
  isBlockIdPlaceholder_def isTupleIdPlaceholder_def kInvalidCatalogId_def kInvalidBlockId_def

lemmas level_defs = isDatabaseAccess_def isRelationAccess_def isBlockAccess_def isTupleAccess_def

lemma isCompatible_sym: "isCompatible a b = isCompatible b a"
  by (cases a; cases b) (simp_all add: isCompatible_def kLockCompatibilityMatrix_def)

lemma isCompatible_simps [simp]:
  "isCompatible kNoLockMode m" "isCompatible m kNoLockMode"
  "isCompatible kXLockMode m \<longleftrightarrow> m = kNoLockMode"
  "isCompatible m kXLockMode \<longleftrightarrow> m = kNoLockMode"
  "isCompatible kIsLockMode m \<longleftrightarrow> m \<noteq> kXLockMode"
  "isCompatible m kIsLockMode \<longleftrightarrow> m \<noteq> kXLockMode"
  "isCompatible kSLockMode m \<longleftrightarrow> m \<in> {kNoLockMode, kIsLockMode, kSLockMode}"
  "isCompatible m kSLockMode \<longleftrightarrow> m \<in> {kNoLockMode, kIsLockMode, kSLockMode}"
  "isCompatible kIxLockMode m \<longleftrightarrow> m \<in> {kNoLockMode, kIsLockMode, kIxLockMode}"
  "isCompatible m kIxLockMode \<longleftrightarrow> m \<in> {kNoLockMode, kIsLockMode, kIxLockMode}"
  "isCompatible kSixLockMode m \<longleftrightarrow> m \<in> {kNoLockMode, kIsLockMode}"
  "isCompatible m kSixLockMode \<longleftrightarrow> m \<in> {kNoLockMode, kIsLockMode}"
  by (cases m; simp add: isCompatible_def kLockCompatibilityMatrix_def)+

text \<open>The reference semantics of the modes.  A mode gives its holder a privilege on every object
  below the resource (\<open>on_all\<close>) and a privilege on objects that it locks separately further down
  (\<open>on_some\<close>).\<close>

datatype privilege = Nothing | Read | Write

fun on_all :: "AccessMode \<Rightarrow> privilege" where
  "on_all kSLockMode = Read"
| "on_all kSixLockMode = Read"
| "on_all kXLockMode = Write"
| "on_all _ = Nothing"

fun on_some :: "AccessMode \<Rightarrow> privilege" where
  "on_some kNoLockMode = Nothing"
| "on_some kIsLockMode = Read"
| "on_some kIxLockMode = Write"
| "on_some kSLockMode = Read"
| "on_some kSixLockMode = Write"
| "on_some kXLockMode = Write"

fun conflicting :: "privilege \<Rightarrow> privilege \<Rightarrow> bool" where
  "conflicting Write Write = True"
| "conflicting Write Read = True"
| "conflicting Read Write = True"
| "conflicting _ _ = False"

lemma isCompatible_iff:
  "isCompatible m m' \<longleftrightarrow>
     \<not> conflicting (on_all m) (on_some m') \<and> \<not> conflicting (on_some m) (on_all m')"
  by (cases m; cases m') simp_all

text \<open>C26. The compatibility matrix is exactly the multi-granularity rule: two modes are compatible
  unless one of them has a privilege on every object below the resource that conflicts with a
  privilege the other one has, or may take, on some of them.  In particular it is symmetric and
  two intention modes never conflict.\<close>

theorem compatibility_matrix_correct:
  "isCompatible m m' \<longleftrightarrow>
     \<not> conflicting (on_all m) (on_some m') \<and> \<not> conflicting (on_some m) (on_all m')"
  by (rule isCompatible_iff)

section \<open>The granularity hierarchy\<close>

definition well_formed_rid :: "ResourceId \<Rightarrow> bool" where
  "well_formed_rid r \<longleftrightarrow>
     isDatabaseAccess r \<or> isRelationAccess r \<or> isBlockAccess r \<or> isTupleAccess r"

definition rid_level :: "ResourceId \<Rightarrow> nat" where
  "rid_level r = (if isTupleAccess r then 3 else if isBlockAccess r then 2
     else if isRelationAccess r then 1 else 0)"

lemma getParentResourceId_total:
  "well_formed_rid r \<Longrightarrow> hasParent r \<Longrightarrow> \<exists>p. getParentResourceId r = Inr p"
  by (auto simp: well_formed_rid_def hasParent_def getParentResourceId_def)

lemma getParentResourceId_level:
  assumes "getParentResourceId r = Inr p"
  shows "well_formed_rid p \<and> Suc (rid_level p) = rid_level r \<and> hasParent r"
  using assms
  by (auto simp: well_formed_rid_def hasParent_def getParentResourceId_def rid_level_def level_defs
      placeholder_defs resource_id_def split: if_splits)

lemma getParentResourceId_well_formed: "getParentResourceId r = Inr p \<Longrightarrow> well_formed_rid r"
  by (auto simp: well_formed_rid_def getParentResourceId_def split: if_splits)

lemma getParentResourceId_error: "getParentResourceId r = Inl e \<Longrightarrow> e = FatalLog"
  by (auto simp: getParentResourceId_def split: if_splits)

text \<open>\<open>getParentResourceId\<close> succeeds exactly on the well-formed resource ids below the database
  level; the parent is well-formed, belongs to the same database and lies exactly one level up, so
  that following parents reaches the database level.  Every other id ends in the \<^verbatim>\<open>LOG(FATAL)\<close>.\<close>

theorem getParentResourceId_correct:
  "case getParentResourceId r of
     Inr p \<Rightarrow> well_formed_rid r \<and> hasParent r \<and> well_formed_rid p \<and> db_id p = db_id r
              \<and> rid_level r = rid_level p + 1
   | Inl e \<Rightarrow> e = FatalLog \<and> \<not> (well_formed_rid r \<and> hasParent r)"
proof (cases "getParentResourceId r")
  case (Inl e)
  then show ?thesis using getParentResourceId_error getParentResourceId_total by fastforce
next
  case (Inr p)
  then have "db_id p = db_id r"
    by (auto simp: getParentResourceId_def resource_id_def split: if_splits)
  with Inr show ?thesis
    using getParentResourceId_level getParentResourceId_well_formed by fastforce
qed

section \<open>Pairwise compatible lists\<close>

text \<open>What the lock table needs of a compatibility relation: it is symmetric, so that a list built
  by testing every newcomer against the present elements is pairwise compatible in any order.\<close>

locale compatibility =
  fixes compatible :: "'m \<Rightarrow> 'm \<Rightarrow> bool"
  assumes compatible_sym: "compatible a b \<Longrightarrow> compatible b a"
begin

lemma pairwise_append:
  assumes "sorted_wrt (\<lambda>x y. compatible (f x) (f y)) xs"
    and "\<And>x. x \<in> set xs \<Longrightarrow> compatible (f y) (f x)"
  shows "sorted_wrt (\<lambda>x y. compatible (f x) (f y)) (xs @ [y])"
  using assms by (auto simp: sorted_wrt_append intro: compatible_sym)

lemma pairwise_members:
  assumes "sorted_wrt (\<lambda>x y. compatible (f x) (f y)) xs"
    and "x \<in> set xs" and "y \<in> set xs" and "x \<noteq> y"
  shows "compatible (f x) (f y)"
  using assms by (induction xs) (auto intro: compatible_sym)

end

interpretation modes: compatibility isCompatible
  by unfold_locales (simp add: isCompatible_sym)

end
