(* ===== verification/LockTables.thy ===== *)
theory LockTables
  imports AccessModes
begin

text \<open>
  The lock table (\<^verbatim>\<open>LockTable\<close>): for every resource the list of granted locks and the queue of
  pending ones.  The lemmas show that granted locks are pairwise compatible, that a new request
  never overtakes a pending one, and what a deletion does to the other entries.
\<close>

section \<open>State and operations\<close>

datatype LockTableResult =
    kPlacedInOwned | kPlacedInPending | kAlreadyInOwned | kAlreadyInPending
  | kDeleteFromOwned | kDeleteFromPending | kDeleteError | kPutError

type_synonym lock_entry = "transaction_id \<times> Lock"
type_synonym lock_list_pair = "lock_entry list \<times> lock_entry list"

record LockTable =
  lock_map :: "(ResourceId \<times> lock_list_pair) list"

definition empty_lock_table :: LockTable where
  "empty_lock_table = \<lparr>lock_map = []\<rparr>"

abbreviation entry_mode :: "lock_entry \<Rightarrow> AccessMode" where
  "entry_mode e \<equiv> lock_mode (snd e)"

abbreviation lock_of :: "ResourceId \<Rightarrow> AccessMode \<Rightarrow> Lock" where
  "lock_of rid m \<equiv> \<lparr>lock_rid = rid, lock_mode = m\<rparr>"

definition lists_of :: "LockTable \<Rightarrow> ResourceId \<Rightarrow> lock_list_pair" where
  "lists_of t rid = al_get ([], []) (lock_map t) rid"

definition set_lists :: "LockTable \<Rightarrow> ResourceId \<Rightarrow> lock_list_pair \<Rightarrow> LockTable" where
  "set_lists t rid p = t\<lparr>lock_map := al_put (lock_map t) rid p\<rparr>"

definition putLock ::
    "LockTable \<Rightarrow> transaction_id \<Rightarrow> ResourceId \<Rightarrow> AccessMode \<Rightarrow> LockTableResult \<times> LockTable" where
  "putLock t tid rid access_mode =
     (let (own, pending) = lists_of t rid in
      if list_ex (\<lambda>e. fst e = tid \<and> entry_mode e = access_mode) own then
        (kAlreadyInOwned, set_lists t rid (own, pending))
      else if list_ex (\<lambda>e. fst e = tid \<and> entry_mode e = access_mode) pending then
        (kAlreadyInPending, set_lists t rid (own, pending))
      else if pending = [] then
        if list_ex (\<lambda>e. \<not> isCompatible access_mode (entry_mode e)) own then
          (kPlacedInPending, set_lists t rid (own, pending @ [(tid, lock_of rid access_mode)]))
        else
          (kPlacedInOwned, set_lists t rid (own @ [(tid, lock_of rid access_mode)], pending))
      else
        (kPlacedInPending, set_lists t rid (own, pending @ [(tid, lock_of rid access_mode)])))"

text \<open>The inner loop of \<open>movePendingToOwned\<close>: it walks the owned list but compares its iterator with
  the end of the \<^emph>\<open>pending\<close> list, so that reaching the end of the owned list is not noticed: the
  iterator is dereferenced past the end.  Only an incompatible entry ends the loop.\<close>

fun scan_owned :: "AccessMode \<Rightarrow> lock_entry list \<Rightarrow> bool result" where
  "scan_owned pending_mode [] = Inl UndefinedBehaviour"
| "scan_owned pending_mode (owned # owned_rest) =
     (if \<not> isCompatible pending_mode (entry_mode owned) then Inr False
      else scan_owned pending_mode owned_rest)"

fun move_pending_loop ::
    "ResourceId \<Rightarrow> lock_entry list \<Rightarrow> lock_entry list \<Rightarrow> lock_list_pair result" where
  "move_pending_loop rid own [] = Inr (own, [])"
| "move_pending_loop rid own (p # pending) =
     and_then (scan_owned (entry_mode p) own) (\<lambda>is_compatible_with_own_list.
       if is_compatible_with_own_list
       then move_pending_loop rid (own @ [(fst p, lock_of rid (entry_mode p))]) pending
       else Inr (own, p # pending))"

definition movePendingToOwned :: "LockTable \<Rightarrow> ResourceId \<Rightarrow> LockTable result" where
  "movePendingToOwned t rid =
     (let (own, pending) = lists_of t rid in
      and_then (move_pending_loop rid own pending) (\<lambda>p. Inr (set_lists t rid p)))"

definition deleteLock ::
    "LockTable \<Rightarrow> transaction_id \<Rightarrow> ResourceId \<Rightarrow> (LockTableResult \<times> LockTable) result" where
  "deleteLock t tid rid =
     (let (own, pending) = lists_of t rid in
      if list_ex (\<lambda>e. fst e = tid) own then
        and_then (movePendingToOwned
                    (set_lists t rid (remove_first (\<lambda>e. fst e = tid) own, pending)) rid)
          (\<lambda>t'. Inr (kDeleteFromOwned, t'))
      else if list_ex (\<lambda>e. fst e = tid) pending then
        Inr (kDeleteFromPending, set_lists t rid (own, remove_first (\<lambda>e. fst e = tid) pending))
      else Inr (kDeleteError, set_lists t rid (own, pending)))"

section \<open>Views and the invariant\<close>

definition owned :: "LockTable \<Rightarrow> ResourceId \<Rightarrow> lock_entry list" where
  "owned t rid = fst (lists_of t rid)"

definition pending :: "LockTable \<Rightarrow> ResourceId \<Rightarrow> lock_entry list" where
  "pending t rid = snd (lists_of t rid)"

definition owns :: "LockTable \<Rightarrow> transaction_id \<Rightarrow> ResourceId \<Rightarrow> AccessMode \<Rightarrow> bool" where
  "owns t tid rid m \<longleftrightarrow> list_ex (\<lambda>e. fst e = tid \<and> entry_mode e = m) (owned t rid)"

definition waits :: "LockTable \<Rightarrow> transaction_id \<Rightarrow> ResourceId \<Rightarrow> AccessMode \<Rightarrow> bool" where
  "waits t tid rid m \<longleftrightarrow> list_ex (\<lambda>e. fst e = tid \<and> entry_mode e = m) (pending t rid)"

definition entries_compatible :: "lock_entry list \<Rightarrow> bool" where
  "entries_compatible es \<longleftrightarrow> sorted_wrt (\<lambda>e e'. isCompatible (entry_mode e) (entry_mode e')) es"

definition lock_table_inv :: "LockTable \<Rightarrow> bool" where
  "lock_table_inv t \<longleftrightarrow> (\<forall>rid. entries_compatible (owned t rid)
      \<and> (\<forall>e \<in> set (owned t rid) \<union> set (pending t rid). lock_rid (snd e) = rid)
      \<and> distinct (map (\<lambda>e. (fst e, entry_mode e)) (owned t rid @ pending t rid)))"

section \<open>Lemmas\<close>

lemma lists_of_set_lists [simp]:
  "lists_of (set_lists t rid p) r = (if r = rid then p else lists_of t r)"
  by (simp add: lists_of_def set_lists_def)

lemma owned_set_lists [simp]:
  "owned (set_lists t rid p) r = (if r = rid then fst p else owned t r)"
  by (simp add: owned_def)

lemma pending_set_lists [simp]:
  "pending (set_lists t rid p) r = (if r = rid then snd p else pending t r)"
  by (simp add: pending_def)

lemma lists_of_eq: "lists_of t rid = (owned t rid, pending t rid)"
  by (simp add: owned_def pending_def)

lemma owned_empty [simp]: "owned empty_lock_table rid = []"
  by (simp add: owned_def lists_of_def empty_lock_table_def)

lemma pending_empty [simp]: "pending empty_lock_table rid = []"
  by (simp add: pending_def lists_of_def empty_lock_table_def)

lemma lock_table_inv_empty: "lock_table_inv empty_lock_table"
  by (simp add: lock_table_inv_def entries_compatible_def)

subsection \<open>putLock\<close>

lemma putLock_result:
  "fst (putLock t tid rid m) =
     (if owns t tid rid m then kAlreadyInOwned
      else if waits t tid rid m then kAlreadyInPending
      else if pending t rid = [] \<and> (\<forall>e \<in> set (owned t rid). isCompatible m (entry_mode e))
      then kPlacedInOwned else kPlacedInPending)"
  by (auto simp: putLock_def lists_of_eq owns_def waits_def list_ex_iff)

lemma putLock_owned:
  "owned (snd (putLock t tid rid m)) r =
     owned t r @ (if r = rid \<and> fst (putLock t tid rid m) = kPlacedInOwned
                  then [(tid, lock_of rid m)] else [])"
  by (auto simp: putLock_def lists_of_eq Let_def)

lemma putLock_pending:
  "pending (snd (putLock t tid rid m)) r =
     pending t r @ (if r = rid \<and> fst (putLock t tid rid m) = kPlacedInPending
                    then [(tid, lock_of rid m)] else [])"
  by (auto simp: putLock_def lists_of_eq Let_def)

lemma putLock_inv:
  assumes inv: "lock_table_inv t"
  shows "lock_table_inv (snd (putLock t tid rid m))"
proof -
  let ?res = "fst (putLock t tid rid m)"
  have fresh: "(tid, m) \<notin> (\<lambda>e. (fst e, entry_mode e)) ` (set (owned t rid) \<union> set (pending t rid))"
    if "?res = kPlacedInOwned \<or> ?res = kPlacedInPending"
    using that by (auto simp: putLock_result owns_def waits_def list_ex_iff split: if_splits)
  have compat: "\<forall>e \<in> set (owned t rid). isCompatible m (entry_mode e)" if "?res = kPlacedInOwned"
    using that by (auto simp: putLock_result split: if_splits)
  show ?thesis
    unfolding lock_table_inv_def
  proof (intro allI conjI)
    fix r
    have i: "entries_compatible (owned t r)"
      "\<forall>e \<in> set (owned t r) \<union> set (pending t r). lock_rid (snd e) = r"
      "distinct (map (\<lambda>e. (fst e, entry_mode e)) (owned t r @ pending t r))"
      using inv by (auto simp: lock_table_inv_def)
    show "entries_compatible (owned (snd (putLock t tid rid m)) r)"
      using i(1) compat
      by (fastforce simp: putLock_owned entries_compatible_def intro!: modes.pairwise_append)
    show "\<forall>e \<in> set (owned (snd (putLock t tid rid m)) r) \<union> set (pending (snd (putLock t tid rid m)) r).
        lock_rid (snd e) = r"
      using i(2) by (auto simp: putLock_owned putLock_pending)
    show "distinct (map (\<lambda>e. (fst e, entry_mode e))
        (owned (snd (putLock t tid rid m)) r @ pending (snd (putLock t tid rid m)) r))"
      using i(3) fresh by (auto simp: putLock_owned putLock_pending)
  qed
qed

subsection \<open>deleteLock\<close>

lemma scan_owned_eq:
  "scan_owned m es = (if \<exists>e \<in> set es. \<not> isCompatible m (entry_mode e) then Inr False
                      else Inl UndefinedBehaviour)"
  by (induction es) auto

lemma move_pending_loop_Inr: "move_pending_loop rid own pend = Inr p \<Longrightarrow> p = (own, pend)"
  by (cases pend) (auto simp: scan_owned_eq split: if_splits)

lemma movePendingToOwned_Inr:
  "movePendingToOwned t rid = Inr t' \<Longrightarrow> owned t' r = owned t r \<and> pending t' r = pending t r"
  by (auto simp: movePendingToOwned_def lists_of_eq res_simps dest: move_pending_loop_Inr)

text \<open>The head of the queue can be granted: it is compatible with every owner.\<close>

definition promotable :: "LockTable \<Rightarrow> ResourceId \<Rightarrow> bool" where
  "promotable t rid \<longleftrightarrow> (\<exists>p ps. pending t rid = p # ps
      \<and> (\<forall>e \<in> set (owned t rid). isCompatible (entry_mode p) (entry_mode e)))"

lemma movePendingToOwned_defined:
  "(\<exists>t'. movePendingToOwned t rid = Inr t') \<longleftrightarrow> \<not> promotable t rid"
  by (cases "pending t rid")
    (auto simp: movePendingToOwned_def lists_of_eq promotable_def scan_owned_eq)

lemma movePendingToOwned_Inl: "movePendingToOwned t rid = Inl e \<Longrightarrow> e = UndefinedBehaviour"
  by (cases "pending t rid")
    (auto simp: movePendingToOwned_def lists_of_eq scan_owned_eq split: if_splits)

abbreviation of_tid :: "transaction_id \<Rightarrow> lock_entry \<Rightarrow> bool" where
  "of_tid tid e \<equiv> fst e = tid"

lemma deleteLock_Inr:
  assumes "deleteLock t tid rid = Inr (res, t')"
  shows "res = (if list_ex (of_tid tid) (owned t rid) then kDeleteFromOwned
                else if list_ex (of_tid tid) (pending t rid) then kDeleteFromPending
                else kDeleteError)"
    and "owned t' r = (if r = rid then remove_first (of_tid tid) (owned t r) else owned t r)"
    and "pending t' r =
          (if r = rid \<and> res = kDeleteFromPending then remove_first (of_tid tid) (pending t r)
           else pending t r)"
  using assms
  by (auto simp: deleteLock_def lists_of_eq res_simps remove_first_id
      dest!: movePendingToOwned_Inr [of _ _ _ r] split: if_splits)

lemma deleteLock_Inl:
  "deleteLock t tid rid = Inl e \<longleftrightarrow> e = UndefinedBehaviour \<and> list_ex (of_tid tid) (owned t rid)
     \<and> promotable (set_lists t rid (remove_first (of_tid tid) (owned t rid), pending t rid)) rid"
  (is "_ \<longleftrightarrow> ?R")
proof -
  let ?t = "set_lists t rid (remove_first (of_tid tid) (owned t rid), pending t rid)"
  have *: "deleteLock t tid rid = Inl e
      \<longleftrightarrow> list_ex (of_tid tid) (owned t rid) \<and> movePendingToOwned ?t rid = Inl e"
    by (auto simp: deleteLock_def lists_of_eq res_simps)
  have "movePendingToOwned ?t rid = Inl e \<longleftrightarrow> e = UndefinedBehaviour \<and> promotable ?t rid"
    using movePendingToOwned_defined [of ?t rid] movePendingToOwned_Inl [of ?t rid e]
    by (cases "movePendingToOwned ?t rid") (auto dest: movePendingToOwned_Inl)
  with * show ?thesis by blast
qed

lemma sublist_keys_distinct:
  "distinct (map f (xs @ ys)) \<Longrightarrow>
     distinct (map f (remove_first P xs @ ys)) \<and> distinct (map f (xs @ remove_first P ys))"
proof (induction xs)
  case Nil
  then show ?case
    using set_remove_first [of P ys] by (induction ys) (auto simp: image_iff dest!: subsetD [OF set_remove_first])
next
  case (Cons x xs)
  then show ?case by (auto simp: image_iff dest!: subsetD [OF set_remove_first])
qed

lemma deleteLock_inv:
  assumes inv: "lock_table_inv t" and del: "deleteLock t tid rid = Inr (res, t')"
  shows "lock_table_inv t'"
  unfolding lock_table_inv_def
proof (intro allI conjI)
  fix r
  note upd = deleteLock_Inr(2,3) [OF del, of r]
  have i: "entries_compatible (owned t r)"
    "\<forall>e \<in> set (owned t r) \<union> set (pending t r). lock_rid (snd e) = r"
    "distinct (map (\<lambda>e. (fst e, entry_mode e)) (owned t r @ pending t r))"
    using inv by (auto simp: lock_table_inv_def)
  show "entries_compatible (owned t' r)"
    using i(1) by (auto simp: upd entries_compatible_def sorted_wrt_remove_first)
  show "\<forall>e \<in> set (owned t' r) \<union> set (pending t' r). lock_rid (snd e) = r"
    using i(2) by (auto simp: upd dest!: subsetD [OF set_remove_first])
  have "remove_first (of_tid tid) (owned t rid) = owned t rid" if "res = kDeleteFromPending"
    using that deleteLock_Inr(1) [OF del] by (auto intro: remove_first_id split: if_splits)
  then show "distinct (map (\<lambda>e. (fst e, entry_mode e)) (owned t' r @ pending t' r))"
    using i(3) sublist_keys_distinct [OF i(3), of "of_tid tid"] by (auto simp: upd)
qed

lemma owners_compatible:
  assumes "lock_table_inv t" and "owns t t1 rid m1" and "owns t t2 rid m2" and "(t1, m1) \<noteq> (t2, m2)"
  shows "isCompatible m1 m2"
proof -
  obtain l1 where l1: "(t1, l1) \<in> set (owned t rid)" "lock_mode l1 = m1"
    using assms(2) by (auto simp: owns_def list_ex_iff)
  obtain l2 where l2: "(t2, l2) \<in> set (owned t rid)" "lock_mode l2 = m2"
    using assms(3) by (auto simp: owns_def list_ex_iff)
  have "(t1, l1) \<noteq> (t2, l2)" using assms(4) l1 l2 by auto
  then show ?thesis
    using assms(1) l1 l2 modes.pairwise_members [of entry_mode "owned t rid" "(t1, l1)" "(t2, l2)"]
    by (auto simp: lock_table_inv_def entries_compatible_def)
qed

section \<open>The contract that the lock manager relies on\<close>

text \<open>A lock store knows, for every transaction and resource, the granted and the queued entries.
  Putting an entry adds it to exactly one of the two lists or finds it there; deleting takes one
  entry of the transaction away from the resource and touches nothing else.\<close>

locale lock_store =
  fixes put :: "'t \<Rightarrow> transaction_id \<Rightarrow> ResourceId \<Rightarrow> AccessMode \<Rightarrow> LockTableResult \<times> 't"
    and del :: "'t \<Rightarrow> transaction_id \<Rightarrow> ResourceId \<Rightarrow> (LockTableResult \<times> 't) result"
    and granted :: "'t \<Rightarrow> transaction_id \<Rightarrow> ResourceId \<Rightarrow> lock_entry list"
    and queued :: "'t \<Rightarrow> transaction_id \<Rightarrow> ResourceId \<Rightarrow> lock_entry list"
  assumes put_granted: "granted (snd (put t tid rid m)) u r = granted t u r @
      (if u = tid \<and> r = rid \<and> fst (put t tid rid m) = kPlacedInOwned
       then [(tid, lock_of rid m)] else [])"
    and put_queued: "queued (snd (put t tid rid m)) u r = queued t u r @
      (if u = tid \<and> r = rid \<and> fst (put t tid rid m) = kPlacedInPending
       then [(tid, lock_of rid m)] else [])"
    and put_owned_result: "fst (put t tid rid m) = kAlreadyInOwned \<Longrightarrow>
      \<exists>e \<in> set (granted t tid rid). entry_mode e = m"
    and put_result: "fst (put t tid rid m) \<in>
      {kAlreadyInOwned, kAlreadyInPending, kPlacedInOwned, kPlacedInPending}"
    and del_result: "del t tid rid = Inr (res, t') \<Longrightarrow>
      (res = kDeleteError \<longleftrightarrow> granted t tid rid @ queued t tid rid = [])"
    and del_one: "del t tid rid = Inr (res, t') \<Longrightarrow>
      length (granted t' tid rid @ queued t' tid rid)
        = length (granted t tid rid @ queued t tid rid) - 1"
    and del_frame: "del t tid rid = Inr (res, t') \<Longrightarrow> (u, r) \<noteq> (tid, rid) \<Longrightarrow>
      granted t' u r = granted t u r \<and> queued t' u r = queued t u r"
    and del_error: "del t tid rid = Inl e \<Longrightarrow> e \<noteq> CheckFailed"
begin

definition entry_count :: "'t \<Rightarrow> transaction_id \<Rightarrow> ResourceId \<Rightarrow> nat" where
  "entry_count t tid rid = length (granted t tid rid @ queued t tid rid)"

definition holds :: "'t \<Rightarrow> transaction_id \<Rightarrow> ResourceId \<Rightarrow> AccessMode \<Rightarrow> bool" where
  "holds t tid rid m \<longleftrightarrow> (\<exists>e \<in> set (granted t tid rid). entry_mode e = m)"

definition release :: "transaction_id \<Rightarrow> 't \<Rightarrow> ResourceId \<Rightarrow> 't result" where
  "release tid t rid = and_then (del t tid rid) (\<lambda>(res, t').
     and_then (check CheckFailed (res \<noteq> kDeleteError)) (\<lambda>_. Inr t'))"

lemma put_entry_count:
  "entry_count (snd (put t tid rid m)) u r = entry_count t u r +
     (if u = tid \<and> r = rid \<and> fst (put t tid rid m) \<in> {kPlacedInOwned, kPlacedInPending} then 1 else 0)"
  by (auto simp: entry_count_def put_granted put_queued)

lemma put_holds_iff:
  "holds (snd (put t tid rid m)) u r m' \<longleftrightarrow> holds t u r m' \<or>
     (u = tid \<and> r = rid \<and> m' = m \<and> fst (put t tid rid m) = kPlacedInOwned)"
  by (auto simp: holds_def put_granted)

lemma put_success_holds:
  "fst (put t tid rid m) \<in> {kAlreadyInOwned, kPlacedInOwned} \<Longrightarrow> holds (snd (put t tid rid m)) tid rid m"
  using put_owned_result [of t tid rid m] by (auto simp: holds_def put_granted)

lemma release_Inr:
  assumes "release tid t rid = Inr t'"
  shows "entry_count t' tid r = entry_count t tid r - (if r = rid then 1 else 0)"
    and "entry_count t tid rid > 0"
    and "u \<noteq> tid \<Longrightarrow> granted t' u r = granted t u r \<and> queued t' u r = queued t u r"
proof -
  obtain res where d: "del t tid rid = Inr (res, t')" "res \<noteq> kDeleteError"
    using assms by (auto simp: release_def res_simps)
  show "entry_count t tid rid > 0"
    using del_result [OF d(1)] d(2) by (auto simp: entry_count_def)
  show "entry_count t' tid r = entry_count t tid r - (if r = rid then 1 else 0)"
    using del_one [OF d(1)] del_frame [OF d(1), of tid r] by (auto simp: entry_count_def)
  show "u \<noteq> tid \<Longrightarrow> granted t' u r = granted t u r \<and> queued t' u r = queued t u r"
    using del_frame [OF d(1), of u r] by auto
qed

lemma release_all_counts:
  "fold_res (release tid) t rids = Inr t' \<Longrightarrow>
     entry_count t' tid r = entry_count t tid r - count (mset rids) r"
proof (induction rids arbitrary: t)
  case (Cons rid rids)
  then obtain t1 where "release tid t rid = Inr t1" "fold_res (release tid) t1 rids = Inr t'"
    by (auto simp: res_simps)
  with Cons.IH release_Inr(1) [of tid t rid t1 r] show ?case by auto
qed simp

lemma release_all_frame:
  assumes "u \<noteq> tid" and "fold_res (release tid) t rids = Inr t'"
  shows "granted t' u r = granted t u r \<and> queued t' u r = queued t u r"
  using assms(2)
proof (induction rids arbitrary: t)
  case (Cons rid rids)
  then obtain t1 where "release tid t rid = Inr t1" "fold_res (release tid) t1 rids = Inr t'"
    by (auto simp: res_simps)
  with Cons.IH release_Inr(3) [of tid t rid t1 u r] assms(1) show ?case by auto
qed simp

text \<open>As long as the resources to release are really held or waited for, no check fails.\<close>

lemma release_all_checks:
  "(\<And>r. count (mset rids) r \<le> entry_count t tid r) \<Longrightarrow>
     fold_res (release tid) t rids \<noteq> Inl CheckFailed"
proof (induction rids arbitrary: t)
  case (Cons rid rids)
  have pos: "entry_count t tid rid > 0" using Cons.prems [of rid] by simp
  show ?case
  proof (cases "release tid t rid")
    case (Inl e)
    then have "e \<noteq> CheckFailed"
      using del_error del_result pos by (fastforce simp: release_def res_simps entry_count_def)
    with Inl show ?thesis by simp
  next
    case (Inr t1)
    have "count (mset rids) r \<le> entry_count t1 tid r" for r
      using release_Inr(1) [OF Inr, of r] Cons.prems [of r] by auto
    with Cons.IH Inr show ?thesis by simp
  qed
qed simp

end

abbreviation granted_entries :: "LockTable \<Rightarrow> transaction_id \<Rightarrow> ResourceId \<Rightarrow> lock_entry list" where
  "granted_entries t tid rid \<equiv> filter (of_tid tid) (owned t rid)"

abbreviation queued_entries :: "LockTable \<Rightarrow> transaction_id \<Rightarrow> ResourceId \<Rightarrow> lock_entry list" where
  "queued_entries t tid rid \<equiv> filter (of_tid tid) (pending t rid)"

lemma remove_first_other_tid:
  "u \<noteq> tid \<Longrightarrow> filter (of_tid u) (remove_first (of_tid tid) es) = filter (of_tid u) es"
  by (rule filter_remove_first_other) auto

interpretation lts: lock_store putLock deleteLock granted_entries queued_entries
proof (unfold_locales, goal_cases)
  case (5 t tid rid res t')
  then show ?case using deleteLock_Inr(1) [OF 5]
    by (auto simp: list_ex_iff filter_empty_conv)
next
  case (6 t tid rid res t')
  have "filter (of_tid tid) (owned t rid) = []" if "\<not> list_ex (of_tid tid) (owned t rid)"
    using that by (auto simp: list_ex_iff filter_empty_conv)
  moreover have "filter (of_tid tid) (owned t rid) \<noteq> []" if "list_ex (of_tid tid) (owned t rid)"
    using that by (auto simp: list_ex_iff filter_empty_conv)
  moreover have "filter (of_tid tid) (pending t rid) = []" if "\<not> list_ex (of_tid tid) (pending t rid)"
    using that by (auto simp: list_ex_iff filter_empty_conv)
  ultimately show ?case using deleteLock_Inr [OF 6]
    by (cases "filter (of_tid tid) (owned t rid)")
      (auto simp: filter_remove_first_same remove_first_id split: if_splits)
next
  case (7 t tid rid res t' u r)
  then show ?case
    using deleteLock_Inr(2,3) [OF 7(1), of r]
    by (cases "u = tid") (auto simp: remove_first_other_tid)
next
  case (8 t tid rid e)
  then show ?case by (auto simp: deleteLock_Inl)
qed (auto simp: putLock_owned putLock_pending putLock_result owns_def list_ex_iff split: if_splits)

section \<open>Sequences of operations\<close>

datatype lock_table_op = Put transaction_id ResourceId AccessMode | Delete transaction_id ResourceId

fun lock_table_step :: "LockTable \<Rightarrow> lock_table_op \<Rightarrow> LockTable result" where
  "lock_table_step t (Put tid rid m) = Inr (snd (putLock t tid rid m))"
| "lock_table_step t (Delete tid rid) = and_then (deleteLock t tid rid) (\<lambda>(res, t'). Inr t')"

lemma lock_table_step_inv: "lock_table_inv t \<Longrightarrow> lock_table_step t x = Inr t' \<Longrightarrow> lock_table_inv t'"
  by (cases x) (auto simp: res_simps intro: putLock_inv deleteLock_inv)

lemma lock_table_run_inv:
  "lock_table_inv t \<Longrightarrow> fold_res lock_table_step t ops = Inr t' \<Longrightarrow> lock_table_inv t'"
  by (rule fold_res_invariant [where P = lock_table_inv]) (auto intro: lock_table_step_inv)

text \<open>C14. Isolation: whatever sequence of \<open>putLock\<close> and \<open>deleteLock\<close> calls a lock table has seen, two
  different grants on the same resource (of two transactions, or of one transaction in two modes)
  are compatible.\<close>

theorem granted_locks_compatible:
  assumes "fold_res lock_table_step empty_lock_table ops = Inr t"
    and "owns t t1 rid m1" and "owns t t2 rid m2" and "(t1, m1) \<noteq> (t2, m2)"
  shows "isCompatible m1 m2"
  using owners_compatible [OF lock_table_run_inv [OF lock_table_inv_empty assms(1)] assms(2-4)] .

definition example_rid :: ResourceId where
  "example_rid = resource_id 2 kInvalidCatalogId kInvalidBlockId kInvalidCatalogId"

definition example_ops :: "lock_table_op list" where
  "example_ops = [Put 1 example_rid kIsLockMode, Put 2 example_rid kIxLockMode,
     Put 3 example_rid kXLockMode, Delete 3 example_rid]"

theorem granted_locks_compatible_witness:
  "\<exists>t. fold_res lock_table_step empty_lock_table example_ops = Inr t
      \<and> owns t 1 example_rid kIsLockMode \<and> owns t 2 example_rid kIxLockMode
      \<and> isCompatible kIsLockMode kIxLockMode"
proof -
  obtain t where t: "fold_res lock_table_step empty_lock_table example_ops = Inr t"
      "owns t 1 example_rid kIsLockMode" "owns t 2 example_rid kIxLockMode"
    by (simp add: example_ops_def putLock_def deleteLock_def lists_of_def set_lists_def
        empty_lock_table_def owns_def owned_def)
  moreover have "isCompatible kIsLockMode kIxLockMode"
    by (rule granted_locks_compatible [OF t]) simp
  ultimately show ?thesis by blast
qed

text \<open>No overtaking: while a resource has pending requests, \<open>putLock\<close> grants nothing; a new
  request goes to the end of the queue, so that no stream of compatible requests can starve the
  ones that already wait.\<close>

theorem putLock_no_overtaking:
  assumes "pending t rid \<noteq> []" and "\<not> owns t tid rid m" and "\<not> waits t tid rid m"
  shows "fst (putLock t tid rid m) = kPlacedInPending
    \<and> (\<forall>r. owned (snd (putLock t tid rid m)) r = owned t r)
    \<and> pending (snd (putLock t tid rid m)) rid = pending t rid @ [(tid, lock_of rid m)]"
  using assms by (simp add: putLock_result putLock_owned putLock_pending)

definition example_queue_table :: LockTable where
  "example_queue_table = \<lparr>lock_map = [(example_rid,
     [(1, lock_of example_rid kIsLockMode)], [(2, lock_of example_rid kXLockMode)])]\<rparr>"

theorem putLock_no_overtaking_witness:
  "fst (putLock example_queue_table 3 example_rid kIsLockMode) = kPlacedInPending"
proof -
  have "pending example_queue_table example_rid \<noteq> []"
    "\<not> owns example_queue_table 3 example_rid kIsLockMode"
    "\<not> waits example_queue_table 3 example_rid kIsLockMode"
    by (simp_all add: example_queue_table_def owns_def waits_def owned_def pending_def lists_of_def)
  from putLock_no_overtaking [OF this] show ?thesis by blast
qed


text \<open>The promotion that \<open>movePendingToOwned\<close> is written for never happens: on two transactions
  that ask for the same exclusive lock, releasing the first one does not hand the lock to the
  second one but leaves the defined behaviour of the program.\<close>

theorem release_with_grantable_waiter_undefined:
  "and_then (fold_res lock_table_step empty_lock_table
       [Put 1 example_rid kXLockMode, Put 2 example_rid kXLockMode])
     (\<lambda>t. deleteLock t 1 example_rid) = Inl UndefinedBehaviour"
  by (simp add: putLock_def deleteLock_def lists_of_def set_lists_def empty_lock_table_def
      movePendingToOwned_def)

end
