(* ===== verification/TransactionTables.thy ===== *)
theory TransactionTables
  imports AccessModes
begin

text \<open>
  The transaction table (\<^verbatim>\<open>TransactionTable\<close>): for every transaction the locks that it owns and the
  ones it waits for.  It is the index by which the lock manager releases everything a transaction
  holds.
\<close>

section \<open>State and operations\<close>

datatype TransactionTableResult =
    kTxnPlacedInOwned | kTxnPlacedInPending | kTxnAlreadyInOwned | kTxnAlreadyInPending
  | kDelFromOwned | kDelFromPending | kDelError | kTransactionDeleteOk | kTransactionDeleteError

type_synonym transaction_entry = "ResourceId \<times> Lock"
type_synonym transaction_list_pair = "transaction_entry list \<times> transaction_entry list"

record TransactionTable =
  txn_map :: "(transaction_id \<times> transaction_list_pair) list"

definition empty_transaction_table :: TransactionTable where
  "empty_transaction_table = \<lparr>txn_map = []\<rparr>"

definition txn_lists :: "TransactionTable \<Rightarrow> transaction_id \<Rightarrow> transaction_list_pair" where
  "txn_lists t tid = al_get ([], []) (txn_map t) tid"

definition set_txn_lists ::
    "TransactionTable \<Rightarrow> transaction_id \<Rightarrow> transaction_list_pair \<Rightarrow> TransactionTable" where
  "set_txn_lists t tid p = t\<lparr>txn_map := al_put (txn_map t) tid p\<rparr>"

definition putOwnEntry ::
    "TransactionTable \<Rightarrow> transaction_id \<Rightarrow> ResourceId \<Rightarrow> AccessMode
      \<Rightarrow> TransactionTableResult \<times> TransactionTable" where
  "putOwnEntry t tid rid access_mode =
     (let (own, pend) = txn_lists t tid in
      (kTxnPlacedInOwned,
       set_txn_lists t tid (own @ [(rid, \<lparr>lock_rid = rid, lock_mode = access_mode\<rparr>)], pend)))"

definition putPendingEntry ::
    "TransactionTable \<Rightarrow> transaction_id \<Rightarrow> ResourceId \<Rightarrow> AccessMode
      \<Rightarrow> TransactionTableResult \<times> TransactionTable" where
  "putPendingEntry t tid rid access_mode =
     (let (own, pend) = txn_lists t tid in
      (kTxnPlacedInPending,
       set_txn_lists t tid (own, pend @ [(rid, \<lparr>lock_rid = rid, lock_mode = access_mode\<rparr>)])))"

definition deleteOwnEntry ::
    "TransactionTable \<Rightarrow> transaction_id \<Rightarrow> ResourceId \<Rightarrow> AccessMode
      \<Rightarrow> TransactionTableResult \<times> TransactionTable" where
  "deleteOwnEntry t tid rid access_mode =
     (let (own, pend) = txn_lists t tid;
          own' = filter (\<lambda>e. \<not> (lock_rid (snd e) = rid \<and> lock_mode (snd e) = access_mode)) own
      in (if length own' = length own then kDelError else kDelFromOwned,
          set_txn_lists t tid (own', pend)))"

definition deletePendingEntry ::
    "TransactionTable \<Rightarrow> transaction_id \<Rightarrow> ResourceId \<Rightarrow> AccessMode
      \<Rightarrow> TransactionTableResult \<times> TransactionTable" where
  "deletePendingEntry t tid rid access_mode =
     (let (own, pend) = txn_lists t tid;
          pend' = filter (\<lambda>e. \<not> (lock_rid (snd e) = rid \<and> lock_mode (snd e) = access_mode)) pend
      in (if length pend' = length pend then kDelError else kDelFromPending,
          set_txn_lists t tid (own, pend')))"

text \<open>The local names of the two lists are exchanged in the code, so that the resources of the
  pending requests come first.  The lookup inserts an empty entry for an unknown transaction.\<close>

definition getResourceIdList ::
    "TransactionTable \<Rightarrow> transaction_id \<Rightarrow> ResourceId list \<times> TransactionTable" where
  "getResourceIdList t tid =
     (let p = txn_lists t tid in (map fst (snd p) @ map fst (fst p), set_txn_lists t tid p))"

definition deleteTransaction ::
    "TransactionTable \<Rightarrow> transaction_id \<Rightarrow> TransactionTableResult \<times> TransactionTable" where
  "deleteTransaction t tid =
     (let m = filter (\<lambda>e. fst e \<noteq> tid) (txn_map t) in
      (if length (txn_map t) = length m then kTransactionDeleteError else kTransactionDeleteOk,
       t\<lparr>txn_map := m\<rparr>))"

section \<open>Lemmas\<close>

lemma txn_lists_set [simp]:
  "txn_lists (set_txn_lists t tid p) u = (if u = tid then p else txn_lists t u)"
  by (simp add: txn_lists_def set_txn_lists_def)

lemma txn_lists_empty [simp]: "txn_lists empty_transaction_table u = ([], [])"
  by (simp add: txn_lists_def empty_transaction_table_def)

lemma al_get_filter: "al_get d (filter (\<lambda>e. fst e \<noteq> k) m) k' = (if k' = k then d else al_get d m k')"
  by (induction m) auto

lemma txn_lists_deleteTransaction:
  "txn_lists (snd (deleteTransaction t tid)) u = (if u = tid then ([], []) else txn_lists t u)"
  by (simp add: deleteTransaction_def txn_lists_def Let_def al_get_filter)

lemma deleteTransaction_result:
  "fst (deleteTransaction t tid) = kTransactionDeleteOk \<longleftrightarrow> tid \<in> fst ` set (txn_map t)"
  by (auto simp: deleteTransaction_def Let_def length_filter_eq_iff eq_commute [of "length (txn_map t)"])

text \<open>All entries of a transaction, whatever list they are in.\<close>

definition txn_entries :: "TransactionTable \<Rightarrow> transaction_id \<Rightarrow> transaction_entry list" where
  "txn_entries t tid = fst (txn_lists t tid) @ snd (txn_lists t tid)"

lemma mset_getResourceIdList: "mset (fst (getResourceIdList t tid)) = mset (map fst (txn_entries t tid))"
  by (simp add: getResourceIdList_def txn_entries_def Let_def)

lemma txn_entries_getResourceIdList [simp]:
  "txn_entries (snd (getResourceIdList t tid)) u = txn_entries t u"
  by (simp add: getResourceIdList_def txn_entries_def Let_def)

lemma txn_entries_putOwnEntry:
  "mset (txn_entries (snd (putOwnEntry t tid rid m)) u) =
     mset (txn_entries t u) +
       (if u = tid then {#(rid, \<lparr>lock_rid = rid, lock_mode = m\<rparr>)#} else {#})"
  by (auto simp: putOwnEntry_def txn_entries_def split: prod.splits)

lemma txn_entries_putPendingEntry:
  "mset (txn_entries (snd (putPendingEntry t tid rid m)) u) =
     mset (txn_entries t u) +
       (if u = tid then {#(rid, \<lparr>lock_rid = rid, lock_mode = m\<rparr>)#} else {#})"
  by (auto simp: putPendingEntry_def txn_entries_def split: prod.splits)

lemma txn_entries_deleteTransaction:
  "txn_entries (snd (deleteTransaction t tid)) u = (if u = tid then [] else txn_entries t u)"
  by (simp add: txn_entries_def txn_lists_deleteTransaction)

text \<open>Because the lookup in \<open>getResourceIdList\<close> inserts the transaction, deleting it right afterwards
  always succeeds.\<close>

lemma delete_after_lookup_ok:
  "fst (deleteTransaction (snd (getResourceIdList t tid)) tid) = kTransactionDeleteOk"
  by (simp add: deleteTransaction_result getResourceIdList_def set_txn_lists_def Let_def)

text \<open>The transaction table keeps the owned and the pending entries of a transaction apart:
  deleting an entry that was put last restores the table's view, and reports success exactly when
  there was an entry for the resource in the mode; other transactions are never touched.\<close>

theorem deleteOwnEntry_correct:
  "fst (deleteOwnEntry t tid rid m) =
     (if \<exists>e \<in> set (fst (txn_lists t tid)). lock_rid (snd e) = rid \<and> lock_mode (snd e) = m
      then kDelFromOwned else kDelError)
   \<and> txn_lists (snd (deleteOwnEntry t tid rid m)) u =
      (if u = tid
       then (filter (\<lambda>e. \<not> (lock_rid (snd e) = rid \<and> lock_mode (snd e) = m)) (fst (txn_lists t tid)),
             snd (txn_lists t tid))
       else txn_lists t u)"
  by (auto simp: deleteOwnEntry_def Let_def length_filter_eq_iff split: prod.splits)

end
