(* ===== verification/LockManagers.thy ===== *)
theory LockManagers
  imports LockTables TransactionTables
begin

text \<open>
  The lock manager (\<^verbatim>\<open>LockManager\<close>): hierarchical acquisition from the database level down to the
  requested resource, release of everything a transaction holds, the request queues of its main
  loop and the killing of deadlock victims.
\<close>

section \<open>State\<close>

datatype DeadLockDetectorStatus = kNotReady | kDone | kQuit

record LockManager =
  lock_table :: LockTable
  transaction_table :: TransactionTable
  detector_status :: DeadLockDetectorStatus
  victim_result :: "transaction_id list"
  incoming_requests :: "LockRequest list"
  permitted_requests :: "LockRequest list"
  inner_pending_requests :: "LockRequest list"

definition init_lock_manager :: LockManager where
  "init_lock_manager = \<lparr>lock_table = empty_lock_table, transaction_table = empty_transaction_table,
     detector_status = kNotReady, victim_result = [], incoming_requests = [],
     permitted_requests = [], inner_pending_requests = []\<rparr>"

section \<open>Operations\<close>

definition acquireLockInternal ::
    "LockManager \<Rightarrow> transaction_id \<Rightarrow> ResourceId \<Rightarrow> AccessMode \<Rightarrow> (bool \<times> LockManager) result" where
  "acquireLockInternal s tid rid access_mode =
     (let (lock_result, lt) = putLock (lock_table s) tid rid access_mode;
          s1 = s\<lparr>lock_table := lt\<rparr> in
      and_then (check CheckFailed (lock_result \<noteq> kPutError)) (\<lambda>_.
        case lock_result of
          kAlreadyInOwned \<Rightarrow> Inr (True, s1)
        | kPlacedInOwned \<Rightarrow>
            (let (transaction_result, tt) = putOwnEntry (transaction_table s1) tid rid access_mode in
             and_then (check CheckFailed (transaction_result = kTxnPlacedInOwned)) (\<lambda>_.
               Inr (True, s1\<lparr>transaction_table := tt\<rparr>)))
        | kAlreadyInPending \<Rightarrow> Inr (False, s1)
        | kPlacedInPending \<Rightarrow>
            (let (transaction_result, tt) = putPendingEntry (transaction_table s1) tid rid access_mode in
             and_then (check CheckFailed (transaction_result = kTxnPlacedInPending)) (\<lambda>_.
               Inr (False, s1\<lparr>transaction_table := tt\<rparr>)))
        | _ \<Rightarrow> Inr (False, s1)))"

text \<open>The mode that \<open>acquireLock\<close> asks for on the parent of a resource it wants in mode \<open>m\<close>.\<close>

definition parent_mode :: "AccessMode \<Rightarrow> AccessMode" where
  "parent_mode m = (if isShareLock m \<or> isIntentionShareLock m then kIsLockMode else kIxLockMode)"

text \<open>The first loop of \<open>acquireLock\<close>: the stack of resources, the root on top.\<close>

function lock_stack ::
    "(ResourceId \<times> AccessMode) list \<Rightarrow> ResourceId \<Rightarrow> AccessMode
      \<Rightarrow> (ResourceId \<times> AccessMode) list result" where
  "lock_stack stack current_rid current_mode =
     (if hasParent current_rid then
        and_then (getParentResourceId current_rid) (\<lambda>parent_rid.
          lock_stack ((parent_rid, parent_mode current_mode) # stack) parent_rid
            (parent_mode current_mode))
      else Inr stack)"
  by pat_completeness auto
termination
  by (relation "measure (\<lambda>(stack, r, m). rid_level r)")
    (auto dest!: getParentResourceId_level)

text \<open>The second loop: pop the stack until a lock cannot be granted.\<close>

fun acquire_stack ::
    "LockManager \<Rightarrow> transaction_id \<Rightarrow> (ResourceId \<times> AccessMode) list \<Rightarrow> (bool \<times> LockManager) result" where
  "acquire_stack s tid [] = Inr (True, s)"
| "acquire_stack s tid ((rid_to_pick, access_mode_to_pick) # stack) =
     and_then (acquireLockInternal s tid rid_to_pick access_mode_to_pick) (\<lambda>(acquired, s').
       if \<not> acquired then Inr (False, s') else acquire_stack s' tid stack)"

definition acquireLock ::
    "LockManager \<Rightarrow> transaction_id \<Rightarrow> ResourceId \<Rightarrow> AccessMode \<Rightarrow> (bool \<times> LockManager) result" where
  "acquireLock s tid rid access_mode =
     and_then (lock_stack [(rid, access_mode)] rid access_mode) (\<lambda>stack. acquire_stack s tid stack)"

text \<open>The loop of \<open>releaseAllLocks\<close> over the resources of the transaction.\<close>

definition release_step :: "transaction_id \<Rightarrow> LockTable \<Rightarrow> ResourceId \<Rightarrow> LockTable result" where
  "release_step tid lt rid =
     and_then (deleteLock lt tid rid) (\<lambda>(lock_deleted, lt').
       and_then (check CheckFailed (lock_deleted \<noteq> kDeleteError)) (\<lambda>_. Inr lt'))"

definition releaseAllLocks :: "LockManager \<Rightarrow> transaction_id \<Rightarrow> (bool \<times> LockManager) result" where
  "releaseAllLocks s tid =
     (let (resource_ids, tt) = getResourceIdList (transaction_table s) tid;
          (transaction_deleted, tt') = deleteTransaction tt tid in
      and_then (check CheckFailed (transaction_deleted \<noteq> kTransactionDeleteError)) (\<lambda>_.
        and_then (fold_res (release_step tid) (lock_table s) resource_ids) (\<lambda>lt.
          Inr (True, s\<lparr>lock_table := lt, transaction_table := tt'\<rparr>))))"

text \<open>One try of the first inner loop of \<open>run\<close>: serve the head of the incoming queue.\<close>

definition serve_incoming :: "LockManager \<Rightarrow> LockManager result" where
  "serve_incoming s =
     (case incoming_requests s of
        [] \<Rightarrow> Inr s
      | request # rest \<Rightarrow>
          (let s1 = s\<lparr>incoming_requests := rest\<rparr> in
           if req_type request = kReleaseLocks then
             and_then (releaseAllLocks s1 (req_tid request)) (\<lambda>(released, s2).
               and_then (check CheckFailed released) (\<lambda>_. Inr s2))
           else
             and_then (acquireLock s1 (req_tid request) (req_rid request) (req_mode request))
               (\<lambda>(acquired, s2).
                 if acquired
                 then Inr (s2\<lparr>permitted_requests := permitted_requests s2 @ [request]\<rparr>)
                 else Inr (s2\<lparr>inner_pending_requests := inner_pending_requests s2 @ [request]\<rparr>))))"

text \<open>One try of the second inner loop: retry the head of the inner queue.\<close>

definition serve_inner :: "LockManager \<Rightarrow> LockManager result" where
  "serve_inner s =
     (case inner_pending_requests s of
        [] \<Rightarrow> Inr s
      | request # rest \<Rightarrow>
          and_then (acquireLock s (req_tid request) (req_rid request) (req_mode request))
            (\<lambda>(acquired, s2).
              if acquired
              then Inr (s2\<lparr>inner_pending_requests := rest,
                           permitted_requests := permitted_requests s2 @ [request]\<rparr>)
              else Inr s2))"

definition killVictims :: "LockManager \<Rightarrow> LockManager result" where
  "killVictims s =
     and_then
       (if detector_status s = kDone
        then fold_res (\<lambda>s victim. and_then (releaseAllLocks s victim) (\<lambda>(released, s'). Inr s'))
               s (victim_result s)
        else Inr s)
       (\<lambda>s'. Inr (s'\<lparr>victim_result := [], detector_status := kNotReady\<rparr>))"

text \<open>\<open>n\<close> tries of a loop body.\<close>

fun tries :: "nat \<Rightarrow> (LockManager \<Rightarrow> LockManager result) \<Rightarrow> LockManager \<Rightarrow> LockManager result" where
  "tries 0 f s = Inr s"
| "tries (Suc n) f s = and_then (f s) (tries n f)"

text \<open>One iteration of the main loop of \<open>run\<close>.  Both bounds are read from the flag
  \<open>max_try_incoming\<close>; the flag \<open>max_try_inner\<close> is defined but never read.\<close>

definition run_iteration :: "nat \<Rightarrow> nat \<Rightarrow> LockManager \<Rightarrow> LockManager result" where
  "run_iteration FLAGS_max_try_incoming FLAGS_max_try_inner s =
     (let kMaxTryIncoming = FLAGS_max_try_incoming; kMaxTryInner = FLAGS_max_try_incoming in
      and_then (tries kMaxTryIncoming serve_incoming s) (\<lambda>s1.
        and_then (tries kMaxTryInner serve_inner s1) killVictims))"

section \<open>Invariants\<close>

text \<open>The two tables describe the same set of granted and pending requests.\<close>

definition tables_consistent :: "LockManager \<Rightarrow> bool" where
  "tables_consistent s \<longleftrightarrow> (\<forall>tid rid.
     length (filter (of_tid tid) (owned (lock_table s) rid @ pending (lock_table s) rid))
       = count (mset (map fst (txn_entries (transaction_table s) tid))) rid)"

text \<open>The multi-granularity protocol: a lock below the database level is only ever granted to a
  transaction that holds the intention lock on the parent.\<close>

definition parent_held :: "LockTable \<Rightarrow> transaction_id \<Rightarrow> ResourceId \<Rightarrow> AccessMode \<Rightarrow> bool" where
  "parent_held lt tid rid m \<longleftrightarrow>
     (hasParent rid \<longrightarrow> (\<exists>p. getParentResourceId rid = Inr p \<and> owns lt tid p (parent_mode m)))"

definition hierarchy_inv :: "LockTable \<Rightarrow> bool" where
  "hierarchy_inv lt \<longleftrightarrow> (\<forall>tid rid m. owns lt tid rid m \<longrightarrow> parent_held lt tid rid m)"

definition lock_manager_inv :: "LockManager \<Rightarrow> bool" where
  "lock_manager_inv s \<longleftrightarrow>
     lock_table_inv (lock_table s) \<and> tables_consistent s \<and> hierarchy_inv (lock_table s)"

lemma lts_holds [simp]: "lts.holds lt tid rid m \<longleftrightarrow> owns lt tid rid m"
  by (simp add: lts.holds_def owns_def list_ex_iff Bex_def conj_assoc)

lemma lts_release [simp]: "lts.release = release_step"
  by (simp add: fun_eq_iff lts.release_def release_step_def)

lemma tables_consistent_alt:
  "tables_consistent s \<longleftrightarrow> (\<forall>tid rid. lts.entry_count (lock_table s) tid rid
     = count (mset (map fst (txn_entries (transaction_table s) tid))) rid)"
  by (simp add: tables_consistent_def lts.entry_count_def)

lemma lock_manager_inv_init: "lock_manager_inv init_lock_manager"
  by (simp add: lock_manager_inv_def init_lock_manager_def lock_table_inv_empty tables_consistent_def
      txn_entries_def hierarchy_inv_def owns_def)

subsection \<open>Acquiring\<close>

lemma acquireLockInternal_eq:
  "acquireLockInternal s tid rid m =
     (let res = fst (putLock (lock_table s) tid rid m) in
      Inr (res \<in> {kAlreadyInOwned, kPlacedInOwned},
           s\<lparr>lock_table := snd (putLock (lock_table s) tid rid m),
             transaction_table :=
               (if res = kPlacedInOwned then snd (putOwnEntry (transaction_table s) tid rid m)
                else if res = kPlacedInPending then snd (putPendingEntry (transaction_table s) tid rid m)
                else transaction_table s)\<rparr>))"
proof -
  have "fst (putLock (lock_table s) tid rid m)
      \<in> {kAlreadyInOwned, kAlreadyInPending, kPlacedInOwned, kPlacedInPending}"
    by (rule lts.put_result)
  then show ?thesis
    by (cases "putLock (lock_table s) tid rid m")
      (auto simp: acquireLockInternal_def putOwnEntry_def putPendingEntry_def split: prod.splits)
qed

lemma acquireLockInternal_consistent:
  assumes "tables_consistent s" and "acquireLockInternal s tid rid m = Inr (b, s')"
  shows "tables_consistent s'"
  using assms
  by (auto simp: tables_consistent_alt acquireLockInternal_eq Let_def lts.put_entry_count
      txn_entries_putOwnEntry txn_entries_putPendingEntry split: if_splits)

lemma acquireLockInternal_inv:
  assumes inv: "lock_manager_inv s" and held: "parent_held (lock_table s) tid rid m"
    and acq: "acquireLockInternal s tid rid m = Inr (b, s')"
  shows "lock_manager_inv s'"
    and "b \<Longrightarrow> owns (lock_table s') tid rid m"
    and "owns (lock_table s) u r n \<Longrightarrow> owns (lock_table s') u r n"
proof -
  have lt: "lock_table s' = snd (putLock (lock_table s) tid rid m)"
    using acq by (auto simp: acquireLockInternal_eq Let_def)
  have owns': "owns (lock_table s') u r n \<longleftrightarrow> owns (lock_table s) u r n \<or>
      (u = tid \<and> r = rid \<and> n = m \<and> fst (putLock (lock_table s) tid rid m) = kPlacedInOwned)" for u r n
    using lts.put_holds_iff [of "lock_table s" tid rid m u r n] by (simp add: lt)
  have held': "parent_held (lock_table s') u r n" if "parent_held (lock_table s) u r n" for u r n
    using that by (auto simp: parent_held_def owns')
  have "hierarchy_inv (lock_table s')"
    using inv held held' by (auto simp: lock_manager_inv_def hierarchy_inv_def owns')
  then show "lock_manager_inv s'"
    using inv acquireLockInternal_consistent [OF _ acq] putLock_inv
    by (simp add: lock_manager_inv_def lt)
  show "b \<Longrightarrow> owns (lock_table s') tid rid m"
    using acq lts.put_success_holds [of "lock_table s" tid rid m]
    by (auto simp: acquireLockInternal_eq Let_def)
  show "owns (lock_table s) u r n \<Longrightarrow> owns (lock_table s') u r n"
    by (simp add: owns')
qed

text \<open>The stack that \<open>acquireLock\<close> builds: every element below the first is a child of the one above
  it, and asks for the matching intention mode there.\<close>

fun lock_chain :: "(ResourceId \<times> AccessMode) list \<Rightarrow> bool" where
  "lock_chain ((p, mp) # (r, mr) # stack) \<longleftrightarrow>
     getParentResourceId r = Inr p \<and> mp = parent_mode mr \<and> lock_chain ((r, mr) # stack)"
| "lock_chain _ \<longleftrightarrow> True"

declare lock_stack.simps [simp del]

lemma lock_stack_chain:
  assumes "lock_stack stack rid m = Inr st" and "lock_chain stack" and "stack = (rid, m) # below"
  shows "lock_chain st \<and> (\<exists>above. st = above @ stack) \<and> \<not> hasParent (fst (hd st))"
  using assms
proof (induction stack rid m arbitrary: below rule: lock_stack.induct)
  case (1 stack rid m)
  show ?case
  proof (cases "hasParent rid")
    case False
    with "1.prems" show ?thesis by (auto simp: lock_stack.simps)
  next
    case True
    with "1.prems"(1) obtain p where p: "getParentResourceId rid = Inr p"
      and rec: "lock_stack ((p, parent_mode m) # stack) p (parent_mode m) = Inr st"
      by (auto simp: lock_stack.simps [of _ rid] res_simps)
    have "lock_chain ((p, parent_mode m) # stack)"
      using p "1.prems"(2,3) by simp
    from "1.IH" [OF True p rec this] show ?thesis by auto
  qed
qed

lemma lock_stack_total:
  "well_formed_rid rid \<Longrightarrow> \<exists>st. lock_stack stack rid m = Inr st"
proof (induction stack rid m rule: lock_stack.induct)
  case (1 stack rid m)
  show ?case
  proof (cases "hasParent rid")
    case False
    then show ?thesis by (simp add: lock_stack.simps)
  next
    case True
    then obtain p where p: "getParentResourceId rid = Inr p"
      using getParentResourceId_total "1.prems" by blast
    then have "well_formed_rid p" using getParentResourceId_level by blast
    from "1.IH" [OF True p this] obtain st where
      "lock_stack ((p, parent_mode m) # stack) p (parent_mode m) = Inr st" by blast
    with True p show ?thesis by (simp add: lock_stack.simps [of _ rid])
  qed
qed

lemma acquire_stack_inv:
  assumes "acquire_stack s tid st = Inr (b, s')" and "lock_manager_inv s" and "lock_chain st"
    and "st \<noteq> [] \<Longrightarrow> parent_held (lock_table s) tid (fst (hd st)) (snd (hd st))"
  shows "lock_manager_inv s'
    \<and> (b \<longrightarrow> (\<forall>(r, m) \<in> set st. owns (lock_table s') tid r m))
    \<and> (\<forall>u r n. owns (lock_table s) u r n \<longrightarrow> owns (lock_table s') u r n)"
  using assms
proof (induction s tid st rule: acquire_stack.induct)
  case (2 s tid rid m stack)
  from "2.prems"(1) obtain a s1 where a: "acquireLockInternal s tid rid m = Inr (a, s1)"
    and rest: "if a then acquire_stack s1 tid stack = Inr (b, s') else b = False \<and> s' = s1"
    by (auto simp: res_simps split: if_splits)
  note step = acquireLockInternal_inv [OF "2.prems"(2) _ a]
  have held: "parent_held (lock_table s) tid rid m" using "2.prems"(4) by simp
  show ?case
  proof (cases a)
    case False
    with rest step held show ?thesis by auto
  next
    case True
    have own: "owns (lock_table s1) tid rid m" using step(2) held True by blast
    have chain: "lock_chain stack" using "2.prems"(3) by (cases stack) auto
    have "stack \<noteq> [] \<Longrightarrow> parent_held (lock_table s1) tid (fst (hd stack)) (snd (hd stack))"
      using "2.prems"(3) own by (cases stack) (auto simp: parent_held_def)
    with "2.IH" [OF a] True rest step held chain own show ?thesis by (auto split: if_splits)
  qed
qed auto

lemma acquireLock_inv:
  assumes inv: "lock_manager_inv s" and acq: "acquireLock s tid rid m = Inr (b, s')"
  shows "lock_manager_inv s'" and "b \<Longrightarrow> owns (lock_table s') tid rid m"
    and "owns (lock_table s) u r n \<Longrightarrow> owns (lock_table s') u r n"
proof -
  obtain st where st: "lock_stack [(rid, m)] rid m = Inr st" "acquire_stack s tid st = Inr (b, s')"
    using acq by (auto simp: acquireLock_def res_simps)
  have ch: "lock_chain st" "\<not> hasParent (fst (hd st))" "(rid, m) \<in> set st"
    using lock_stack_chain [OF st(1)] by auto
  have "parent_held (lock_table s) tid (fst (hd st)) (snd (hd st))"
    using ch(2) by (simp add: parent_held_def)
  from acquire_stack_inv [OF st(2) inv ch(1) this] ch(3)
  show "lock_manager_inv s'" "b \<Longrightarrow> owns (lock_table s') tid rid m"
    "owns (lock_table s) u r n \<Longrightarrow> owns (lock_table s') u r n" by auto
qed

lemma acquire_stack_total: "\<exists>b s'. acquire_stack s tid st = Inr (b, s')"
proof (induction st arbitrary: s)
  case (Cons x st)
  obtain r m where [simp]: "x = (r, m)" by (cases x)
  obtain b s1 where "acquireLockInternal s tid r m = Inr (b, s1)"
    by (simp add: acquireLockInternal_eq Let_def)
  with Cons.IH [of s1] show ?case by (cases b) auto
qed auto

subsection \<open>Releasing\<close>

lemma releaseAllLocks_eq:
  "releaseAllLocks s tid =
     and_then (fold_res (release_step tid) (lock_table s)
                 (fst (getResourceIdList (transaction_table s) tid)))
       (\<lambda>lt. Inr (True, s\<lparr>lock_table := lt, transaction_table :=
          snd (deleteTransaction (snd (getResourceIdList (transaction_table s) tid)) tid)\<rparr>))"
  using delete_after_lookup_ok [of "transaction_table s" tid]
  by (auto simp: releaseAllLocks_def split: prod.splits)

lemma release_fold_inv:
  "lock_table_inv lt \<Longrightarrow> fold_res (release_step tid) lt rids = Inr lt' \<Longrightarrow> lock_table_inv lt'"
  by (rule fold_res_invariant [where P = lock_table_inv])
    (auto simp: release_step_def res_simps intro: deleteLock_inv)

lemma owns_granted: "owns lt u r m \<longleftrightarrow> (\<exists>e \<in> set (granted_entries lt u r). entry_mode e = m)"
  by (simp add: lts_holds [symmetric] lts.holds_def del: lts_holds)

lemma releaseAllLocks_post:
  assumes inv: "lock_manager_inv s" and rel: "releaseAllLocks s tid = Inr (b, s')"
  shows "lts.entry_count (lock_table s') tid r = 0"
    and "txn_entries (transaction_table s') u = (if u = tid then [] else txn_entries (transaction_table s) u)"
    and "u \<noteq> tid \<Longrightarrow> granted_entries (lock_table s') u r = granted_entries (lock_table s) u r
           \<and> queued_entries (lock_table s') u r = queued_entries (lock_table s) u r"
    and "lock_table_inv (lock_table s')"
proof -
  let ?rids = "fst (getResourceIdList (transaction_table s) tid)"
  obtain lt where lt: "fold_res (release_step tid) (lock_table s) ?rids = Inr lt"
    and s': "s' = s\<lparr>lock_table := lt, transaction_table :=
          snd (deleteTransaction (snd (getResourceIdList (transaction_table s) tid)) tid)\<rparr>"
    using rel by (auto simp: releaseAllLocks_eq res_simps)
  have cons: "lts.entry_count (lock_table s) tid r = count (mset ?rids) r"
    using inv by (simp add: lock_manager_inv_def tables_consistent_alt mset_getResourceIdList)
  show "lts.entry_count (lock_table s') tid r = 0"
    using lts.release_all_counts [of tid "lock_table s" ?rids lt r] lt cons by (simp add: s')
  show "txn_entries (transaction_table s') u = (if u = tid then [] else txn_entries (transaction_table s) u)"
    by (simp add: s' txn_entries_deleteTransaction)
  show "u \<noteq> tid \<Longrightarrow> granted_entries (lock_table s') u r = granted_entries (lock_table s) u r
           \<and> queued_entries (lock_table s') u r = queued_entries (lock_table s) u r"
    using lts.release_all_frame [of u tid "lock_table s" ?rids lt r] lt by (simp add: s')
  show "lock_table_inv (lock_table s')"
    using release_fold_inv [OF _ lt] inv by (simp add: s' lock_manager_inv_def)
qed

lemma entry_count_0_not_owns: "lts.entry_count lt tid r = 0 \<Longrightarrow> \<not> owns lt tid r m"
  by (auto simp: lts.entry_count_def owns_granted)

lemma releaseAllLocks_inv:
  assumes inv: "lock_manager_inv s" and rel: "releaseAllLocks s tid = Inr (b, s')"
  shows "lock_manager_inv s'"
proof -
  note post = releaseAllLocks_post [OF inv rel]
  have owns': "owns (lock_table s') u r m \<longleftrightarrow> u \<noteq> tid \<and> owns (lock_table s) u r m" for u r m
    using post(1) [of r] post(3) [of u r] by (cases "u = tid") (auto simp: owns_granted lts.entry_count_def)
  have "tables_consistent s'"
    unfolding tables_consistent_alt
  proof (intro allI)
    fix u r
    show "lts.entry_count (lock_table s') u r =
        count (mset (map fst (txn_entries (transaction_table s') u))) r"
    proof (cases "u = tid")
      case True
      then show ?thesis using post(1) [of r] post(2) [of u] by simp
    next
      case False
      then have "lts.entry_count (lock_table s') u r = lts.entry_count (lock_table s) u r"
        using post(3) [OF False, of r] by (simp add: lts.entry_count_def)
      then show ?thesis
        using inv post(2) [of u] False by (simp add: lock_manager_inv_def tables_consistent_alt)
    qed
  qed
  moreover have "hierarchy_inv (lock_table s')"
    using inv by (auto simp: lock_manager_inv_def hierarchy_inv_def parent_held_def owns')
  ultimately show ?thesis using post(4) by (simp add: lock_manager_inv_def)
qed

lemma releaseAllLocks_checks:
  assumes "lock_manager_inv s"
  shows "releaseAllLocks s tid \<noteq> Inl CheckFailed"
proof -
  have "fold_res (lts.release tid) (lock_table s)
      (fst (getResourceIdList (transaction_table s) tid)) \<noteq> Inl CheckFailed"
    by (rule lts.release_all_checks)
      (use assms in \<open>simp add: lock_manager_inv_def tables_consistent_alt mset_getResourceIdList\<close>)
  then show ?thesis by (auto simp: releaseAllLocks_eq res_simps)
qed

section \<open>The main loop and its environment\<close>

text \<open>The lock manager thread serves requests, retries and kills victims; the clients append
  requests to the incoming queue; the deadlock detector thread publishes a batch of victims.\<close>

inductive lock_manager_step :: "LockManager \<Rightarrow> LockManager \<Rightarrow> bool" where
  client_request: "lock_manager_step s (s\<lparr>incoming_requests := incoming_requests s @ [request]\<rparr>)"
| serve_request: "serve_incoming s = Inr s' \<Longrightarrow> lock_manager_step s s'"
| retry_request: "serve_inner s = Inr s' \<Longrightarrow> lock_manager_step s s'"
| kill_victims: "killVictims s = Inr s' \<Longrightarrow> lock_manager_step s s'"
| detector_publishes: "detector_status s \<noteq> kDone \<Longrightarrow>
    lock_manager_step s (s\<lparr>victim_result := victims, detector_status := kDone\<rparr>)"

inductive lock_manager_reachable :: "LockManager \<Rightarrow> bool" where
  initial: "lock_manager_reachable init_lock_manager"
| step: "lock_manager_reachable s \<Longrightarrow> lock_manager_step s s' \<Longrightarrow> lock_manager_reachable s'"

lemma lock_manager_inv_queues [simp]:
  "lock_manager_inv (s\<lparr>incoming_requests := q\<rparr>) = lock_manager_inv s"
  "lock_manager_inv (s\<lparr>permitted_requests := q\<rparr>) = lock_manager_inv s"
  "lock_manager_inv (s\<lparr>inner_pending_requests := q\<rparr>) = lock_manager_inv s"
  "lock_manager_inv (s\<lparr>victim_result := v\<rparr>) = lock_manager_inv s"
  "lock_manager_inv (s\<lparr>detector_status := d\<rparr>) = lock_manager_inv s"
  by (simp_all add: lock_manager_inv_def tables_consistent_def)

lemma serve_incoming_inv:
  assumes "lock_manager_inv s" and "serve_incoming s = Inr s'"
  shows "lock_manager_inv s'"
  using assms
  by (auto simp: serve_incoming_def res_simps Let_def split: list.splits if_splits
      dest: releaseAllLocks_inv [rotated] acquireLock_inv(1) [rotated])

lemma serve_inner_inv:
  assumes "lock_manager_inv s" and "serve_inner s = Inr s'"
  shows "lock_manager_inv s'"
  using assms
  by (auto simp: serve_inner_def res_simps split: list.splits if_splits dest: acquireLock_inv(1) [rotated])

lemma killVictims_inv:
  assumes "lock_manager_inv s" and "killVictims s = Inr s'"
  shows "lock_manager_inv s'"
proof -
  let ?body = "\<lambda>s victim. and_then (releaseAllLocks s victim) (\<lambda>(released, s'). Inr s')"
  have "lock_manager_inv t" if "fold_res ?body s (victim_result s) = Inr t" for t
    using assms(1) that
    by (rule fold_res_invariant [where P = lock_manager_inv, rotated])
      (auto simp: res_simps intro: releaseAllLocks_inv)
  with assms show ?thesis by (auto simp: killVictims_def res_simps split: if_splits)
qed

lemma lock_manager_step_inv: "lock_manager_step s s' \<Longrightarrow> lock_manager_inv s \<Longrightarrow> lock_manager_inv s'"
  by (induction rule: lock_manager_step.induct)
    (auto intro: serve_incoming_inv serve_inner_inv killVictims_inv)

lemma reachable_inv: "lock_manager_reachable s \<Longrightarrow> lock_manager_inv s"
  by (induction rule: lock_manager_reachable.induct)
    (auto intro: lock_manager_inv_init lock_manager_step_inv)

section \<open>Properties\<close>

text \<open>C6. The protocol invariant.  In every state that the lock manager can reach, whatever the
  clients request and whichever victims the deadlock detector names: granted locks on a resource
  are pairwise compatible, the lock table and the transaction table describe the same grants and
  requests, and every granted lock is covered by the matching intention lock on its parent.\<close>

theorem lock_manager_reachable_inv:
  assumes "lock_manager_reachable s"
  shows "lock_table_inv (lock_table s) \<and> tables_consistent s \<and> hierarchy_inv (lock_table s)"
  using reachable_inv [OF assms] by (simp add: lock_manager_inv_def)

inductive ancestor :: "ResourceId \<Rightarrow> ResourceId \<Rightarrow> bool" where
  parent: "getParentResourceId r = Inr p \<Longrightarrow> ancestor p r"
| higher: "getParentResourceId r = Inr p \<Longrightarrow> ancestor q p \<Longrightarrow> ancestor q r"

lemma parent_mode_idem [simp]: "parent_mode (parent_mode m) = parent_mode m"
  by (simp add: parent_mode_def access_mode_defs)

lemma hierarchy_parent:
  assumes "hierarchy_inv lt" and "owns lt tid r m" and "getParentResourceId r = Inr p"
  shows "owns lt tid p (parent_mode m)"
proof -
  have "hasParent r" using assms(3) getParentResourceId_level by blast
  with assms show ?thesis by (fastforce simp: hierarchy_inv_def parent_held_def)
qed

lemma ancestor_held:
  assumes "ancestor q r" and "hierarchy_inv lt" and "owns lt tid r m"
  shows "owns lt tid q (parent_mode m)"
  using assms
proof (induction arbitrary: m rule: ancestor.induct)
  case (parent r p)
  then show ?case using hierarchy_parent by blast
next
  case (higher r p q)
  then have "owns lt tid p (parent_mode m)" using hierarchy_parent by blast
  from higher.IH [OF higher.prems(1) this] show ?case by simp
qed

lemma on_some_parent_mode:
  "m \<noteq> kNoLockMode \<Longrightarrow> conflicting x (on_some m) \<Longrightarrow> conflicting x (on_some (parent_mode m))"
  by (cases m; cases x) (simp_all add: parent_mode_def access_mode_defs)

text \<open>C2. No conflict across levels.  When two transactions hold locks on two resources of which one
  is an ancestor of the other (the relation of a tuple, say), the lock on the ancestor gives no
  privilege on everything below it that conflicts with the lock further down.\<close>

theorem no_conflict_across_levels:
  assumes "lock_manager_reachable s"
    and "owns (lock_table s) t1 q m1" and "owns (lock_table s) t2 r m2"
    and "ancestor q r" and "t1 \<noteq> t2" and "m2 \<noteq> kNoLockMode"
  shows "\<not> conflicting (on_all m1) (on_some m2)"
proof -
  have inv: "lock_manager_inv s" using assms(1) by (rule reachable_inv)
  have "owns (lock_table s) t2 q (parent_mode m2)"
    using ancestor_held assms(3,4) inv by (simp add: lock_manager_inv_def)
  with assms(2,5) inv have "isCompatible m1 (parent_mode m2)"
    using owners_compatible [of "lock_table s" t1 q m1 t2 "parent_mode m2"]
    by (auto simp: lock_manager_inv_def)
  then show ?thesis
    using on_some_parent_mode [OF assms(6)] isCompatible_iff by blast
qed

text \<open>C12. A granted request is really granted: when \<open>acquireLock\<close> returns true in a reachable state
  the transaction owns the resource in the requested mode and every ancestor in the intention
  mode, and nobody has lost a lock.  On a well-formed resource id \<open>acquireLock\<close> always returns.\<close>

theorem acquireLock_grants:
  assumes "lock_manager_reachable s" and "well_formed_rid rid"
  shows "\<exists>b s'. acquireLock s tid rid m = Inr (b, s')
    \<and> (b \<longrightarrow> owns (lock_table s') tid rid m \<and> (\<forall>q. ancestor q rid \<longrightarrow> owns (lock_table s') tid q (parent_mode m)))
    \<and> (\<forall>u r n. owns (lock_table s) u r n \<longrightarrow> owns (lock_table s') u r n)"
proof -
  have inv: "lock_manager_inv s" using assms(1) by (rule reachable_inv)
  obtain st where st: "lock_stack [(rid, m)] rid m = Inr st"
    using lock_stack_total assms(2) by blast
  obtain b s' where "acquire_stack s tid st = Inr (b, s')" using acquire_stack_total by blast
  with st have acq: "acquireLock s tid rid m = Inr (b, s')" by (simp add: acquireLock_def)
  note post = acquireLock_inv [OF inv acq]
  have "hierarchy_inv (lock_table s')" using post(1) by (simp add: lock_manager_inv_def)
  with post(2) ancestor_held have
    "b \<longrightarrow> owns (lock_table s') tid rid m \<and> (\<forall>q. ancestor q rid \<longrightarrow> owns (lock_table s') tid q (parent_mode m))"
    by blast
  with acq post(3) show ?thesis by blast
qed


section \<open>Witnesses\<close>

text \<open>A tuple, a second tuple of the same relation, and a client that asks for each of them.\<close>

definition example_tuple :: "int \<Rightarrow> ResourceId" where
  "example_tuple t = resource_id 0 1 7 t"

definition example_requests :: "LockRequest list" where
  "example_requests =
     [\<lparr>req_tid = 1, req_rid = example_tuple 4, req_mode = kXLockMode, req_type = kAcquireLock\<rparr>,
      \<lparr>req_tid = 2, req_rid = example_tuple 5, req_mode = kSLockMode, req_type = kAcquireLock\<rparr>]"

definition example_manager :: LockManager where
  "example_manager = init_lock_manager\<lparr>incoming_requests := example_requests\<rparr>"

definition example_served :: LockManager where
  "example_served = (case tries 2 serve_incoming example_manager of Inr s \<Rightarrow> s | Inl e \<Rightarrow> example_manager)"

lemma example_manager_reachable: "lock_manager_reachable example_manager"
proof -
  let ?r1 = "hd example_requests" and ?r2 = "example_requests ! 1"
  let ?s1 = "init_lock_manager\<lparr>incoming_requests := incoming_requests init_lock_manager @ [?r1]\<rparr>"
  have "lock_manager_reachable ?s1"
    by (rule lock_manager_reachable.step [OF lock_manager_reachable.initial
          lock_manager_step.client_request])
  then have "lock_manager_reachable (?s1\<lparr>incoming_requests := incoming_requests ?s1 @ [?r2]\<rparr>)"
    by (rule lock_manager_reachable.step) (rule lock_manager_step.client_request)
  then show ?thesis
    by (simp add: example_manager_def example_requests_def init_lock_manager_def)
qed

lemma tries_serve_reachable:
  "lock_manager_reachable s \<Longrightarrow> tries n serve_incoming s = Inr s' \<Longrightarrow> lock_manager_reachable s'"
proof (induction n arbitrary: s)
  case (Suc n)
  then obtain t where "serve_incoming s = Inr t" "tries n serve_incoming t = Inr s'"
    by (auto simp: res_simps)
  with Suc show ?case
    using lock_manager_reachable.step lock_manager_step.serve_request by blast
qed simp

lemma example_served_reachable: "lock_manager_reachable example_served"
  using example_manager_reachable tries_serve_reachable
  by (auto simp: example_served_def split: sum.splits)

lemma example_served_owns:
  "owns (lock_table example_served) 1 (example_tuple 4) kXLockMode
   \<and> owns (lock_table example_served) 1 (resource_id 0 1 0 (-1)) kIxLockMode
   \<and> owns (lock_table example_served) 2 (example_tuple 5) kSLockMode
   \<and> getParentResourceId (example_tuple 5) = Inr (resource_id 0 1 7 (-1))
   \<and> getParentResourceId (resource_id 0 1 7 (-1)) = Inr (resource_id 0 1 0 (-1))
   \<and> well_formed_rid (example_tuple 5)"
  by code_simp

lemma example_ancestor: "ancestor (resource_id 0 1 0 (-1)) (example_tuple 5)"
  using example_served_owns ancestor.intros by blast

theorem lock_manager_reachable_inv_witness:
  "lock_manager_reachable example_served \<and> hierarchy_inv (lock_table example_served)"
  using lock_manager_reachable_inv [OF example_served_reachable] example_served_reachable by blast

theorem no_conflict_across_levels_witness:
  "lock_manager_reachable example_served
   \<and> owns (lock_table example_served) 1 (resource_id 0 1 0 (-1)) kIxLockMode
   \<and> owns (lock_table example_served) 2 (example_tuple 5) kSLockMode
   \<and> \<not> conflicting (on_all kIxLockMode) (on_some kSLockMode)"
  using no_conflict_across_levels [OF example_served_reachable, of 1 "resource_id 0 1 0 (-1)" kIxLockMode
      2 "example_tuple 5" kSLockMode] example_served_owns example_ancestor example_served_reachable
  by simp

theorem acquireLock_grants_witness:
  "\<exists>b s'. acquireLock example_served 2 (example_tuple 5) kSLockMode = Inr (b, s')
    \<and> owns (lock_table s') 1 (example_tuple 4) kXLockMode"
  using acquireLock_grants [OF example_served_reachable, of "example_tuple 5" 2 kSLockMode]
    example_served_owns by blast


end
