(* ===== verification/DirectedGraphs.thy ===== *)
theory DirectedGraphs
  imports AccessModes
begin

text \<open>
  The wait-for graph (\<^verbatim>\<open>DirectedGraph\<close>): nodes are numbered in the order of their creation and carry a
  transaction id; the outgoing edges of a node form a set, which is kept here as the list of its
  elements in iteration order.
\<close>

section \<open>State and operations\<close>

record DirectedGraphNode =
  transaction_id_payload :: transaction_id
  outgoing_edges :: "nat list"

record DirectedGraph =
  graph_nodes :: "DirectedGraphNode list"

definition empty_graph :: DirectedGraph where
  "empty_graph = \<lparr>graph_nodes = []\<rparr>"

definition addOutgoingEdge :: "DirectedGraphNode \<Rightarrow> nat \<Rightarrow> DirectedGraphNode" where
  "addOutgoingEdge n to_node =
     (if to_node \<in> set (outgoing_edges n) then n
      else n\<lparr>outgoing_edges := outgoing_edges n @ [to_node]\<rparr>)"

definition getNumNodes :: "DirectedGraph \<Rightarrow> nat" where
  "getNumNodes g = length (graph_nodes g)"

definition addNodeUnchecked :: "DirectedGraph \<Rightarrow> transaction_id \<Rightarrow> nat \<times> DirectedGraph" where
  "addNodeUnchecked g payload =
     (let ns = graph_nodes g @ [\<lparr>transaction_id_payload = payload, outgoing_edges = []\<rparr>] in
      (length ns - 1, g\<lparr>graph_nodes := ns\<rparr>))"

definition addNodeCheckExists :: "DirectedGraph \<Rightarrow> transaction_id \<Rightarrow> (nat \<times> DirectedGraph) result" where
  "addNodeCheckExists g payload =
     and_then (check CheckFailed (list_all (\<lambda>n. payload \<noteq> transaction_id_payload n) (graph_nodes g)))
       (\<lambda>_. Inr (addNodeUnchecked g payload))"

definition addEdgeUnchecked :: "DirectedGraph \<Rightarrow> nat \<Rightarrow> nat \<Rightarrow> DirectedGraph result" where
  "addEdgeUnchecked g from_node to_node =
     and_then (vec_at (graph_nodes g) from_node) (\<lambda>n.
       Inr (g\<lparr>graph_nodes := (graph_nodes g)[from_node := addOutgoingEdge n to_node]\<rparr>))"

definition addEdgeCheckExists :: "DirectedGraph \<Rightarrow> nat \<Rightarrow> nat \<Rightarrow> DirectedGraph result" where
  "addEdgeCheckExists g from_node to_node =
     and_then (check CheckFailed (from_node < getNumNodes g \<and> to_node < getNumNodes g))
       (\<lambda>_. addEdgeUnchecked g from_node to_node)"

definition hasEdge :: "DirectedGraph \<Rightarrow> nat \<Rightarrow> nat \<Rightarrow> bool result" where
  "hasEdge g from_node to_node =
     and_then (check CheckFailed (from_node < getNumNodes g \<and> to_node < getNumNodes g)) (\<lambda>_.
       and_then (vec_at (graph_nodes g) from_node) (\<lambda>n. Inr (to_node \<in> set (outgoing_edges n))))"

definition getDataFromNode :: "DirectedGraph \<Rightarrow> nat \<Rightarrow> transaction_id result" where
  "getDataFromNode g node =
     and_then (check CheckFailed (node < getNumNodes g)) (\<lambda>_.
       and_then (vec_at (graph_nodes g) node) (\<lambda>n. Inr (transaction_id_payload n)))"

definition getAdjacentNodes :: "DirectedGraph \<Rightarrow> nat \<Rightarrow> nat list result" where
  "getAdjacentNodes g node = and_then (vec_at (graph_nodes g) node) (\<lambda>n. Inr (outgoing_edges n))"

section \<open>Edges as a relation\<close>

definition successors :: "DirectedGraph \<Rightarrow> nat \<Rightarrow> nat list" where
  "successors g v = (if v < getNumNodes g then outgoing_edges (graph_nodes g ! v) else [])"

definition edges :: "DirectedGraph \<Rightarrow> (nat \<times> nat) set" where
  "edges g = {(v, w). w \<in> set (successors g v)}"

text \<open>A graph is valid when all edges lead to nodes of the graph.\<close>

definition valid_graph :: "DirectedGraph \<Rightarrow> bool" where
  "valid_graph g \<longleftrightarrow> list_all (\<lambda>n. list_all (\<lambda>w. w < getNumNodes g) (outgoing_edges n)) (graph_nodes g)"

lemma getAdjacentNodes_eq:
  "getAdjacentNodes g v = (if v < getNumNodes g then Inr (successors g v) else Inl OutOfRange)"
  by (simp add: getAdjacentNodes_def successors_def getNumNodes_def vec_at_def)

lemma valid_graph_successors: "valid_graph g \<Longrightarrow> w \<in> set (successors g v) \<Longrightarrow> w < getNumNodes g"
  by (auto simp: valid_graph_def successors_def list_all_iff getNumNodes_def split: if_splits)

lemma edges_in_range: "valid_graph g \<Longrightarrow> (v, w) \<in> edges g \<Longrightarrow> v < getNumNodes g \<and> w < getNumNodes g"
  unfolding edges_def by (auto dest: valid_graph_successors) (simp add: successors_def split: if_splits)

lemma valid_graph_edges: "valid_graph g \<longleftrightarrow> (\<forall>(v, w) \<in> edges g. w < getNumNodes g)"
proof -
  have "valid_graph g \<longleftrightarrow>
      (\<forall>v < getNumNodes g. \<forall>w \<in> set (outgoing_edges (graph_nodes g ! v)). w < getNumNodes g)"
    by (simp add: valid_graph_def list_all_length all_set_conv_all_nth getNumNodes_def)
  then show ?thesis by (auto simp: edges_def successors_def)
qed

lemma valid_graph_empty [simp]: "valid_graph empty_graph"
  by (simp add: valid_graph_def empty_graph_def)

lemma getNumNodes_empty [simp]: "getNumNodes empty_graph = 0"
  by (simp add: getNumNodes_def empty_graph_def)

lemma getNumNodes_addNode [simp]: "getNumNodes (snd (addNodeUnchecked g p)) = Suc (getNumNodes g)"
  by (simp add: addNodeUnchecked_def getNumNodes_def)

lemma fst_addNode [simp]: "fst (addNodeUnchecked g p) = getNumNodes g"
  by (simp add: addNodeUnchecked_def getNumNodes_def)

lemma valid_graph_addNode: "valid_graph g \<Longrightarrow> valid_graph (snd (addNodeUnchecked g p))"
  by (auto simp: valid_graph_def addNodeUnchecked_def getNumNodes_def list_all_iff less_Suc_eq)

lemma edges_addNode [simp]: "edges (snd (addNodeUnchecked g p)) = edges g"
  by (auto simp: edges_def successors_def addNodeUnchecked_def getNumNodes_def nth_append split: if_splits)

lemma addEdgeUnchecked_eq:
  "from_node < getNumNodes g \<Longrightarrow> \<exists>g'. addEdgeUnchecked g from_node to_node = Inr g'"
  by (simp add: addEdgeUnchecked_def getNumNodes_def)

lemma addEdge_Inr:
  assumes "addEdgeUnchecked g u v = Inr g'"
  shows "getNumNodes g' = getNumNodes g" and "edges g' = insert (u, v) (edges g)"
    and "map transaction_id_payload (graph_nodes g') = map transaction_id_payload (graph_nodes g)"
    and "v < getNumNodes g \<Longrightarrow> valid_graph g \<Longrightarrow> valid_graph g'"
proof -
  have u: "u < length (graph_nodes g)"
    and g': "g' = g\<lparr>graph_nodes := (graph_nodes g)[u := addOutgoingEdge (graph_nodes g ! u) v]\<rparr>"
    using assms by (auto simp: addEdgeUnchecked_def res_simps)
  have set': "set (outgoing_edges (addOutgoingEdge n v)) = insert v (set (outgoing_edges n))" for n
    by (auto simp: addOutgoingEdge_def)
  show "getNumNodes g' = getNumNodes g" by (simp add: g' getNumNodes_def)
  show "edges g' = insert (u, v) (edges g)"
    using u by (auto simp: edges_def successors_def g' getNumNodes_def nth_list_update set' split: if_splits)
  have "transaction_id_payload (addOutgoingEdge n v) = transaction_id_payload n" for n
    by (simp add: addOutgoingEdge_def)
  then show "map transaction_id_payload (graph_nodes g') = map transaction_id_payload (graph_nodes g)"
    using u by (auto simp: g' nth_list_update intro!: nth_equalityI)
  show "v < getNumNodes g \<Longrightarrow> valid_graph g \<Longrightarrow> valid_graph g'"
    by (simp add: valid_graph_edges \<open>edges g' = _\<close> \<open>getNumNodes g' = _\<close>)
qed

text \<open>Edge insertion and edge lookup agree: after \<open>addEdgeUnchecked\<close> the queried edge is present
  exactly if it is the new one or was there before.\<close>

theorem hasEdge_addEdge:
  assumes "addEdgeUnchecked g u v = Inr g'" and "v < getNumNodes g"
    and "a < getNumNodes g" and "b < getNumNodes g"
  shows "hasEdge g' a b = Inr ((a, b) = (u, v) \<or> hasEdge g a b = Inr True)"
proof -
  have eq: "hasEdge h a b = Inr ((a, b) \<in> edges h)" if "getNumNodes h = getNumNodes g" for h
    using that assms(3,4) by (simp add: hasEdge_def edges_def successors_def getNumNodes_def)
  show ?thesis using eq [of g'] eq [of g] addEdge_Inr(1,2) [OF assms(1)] by auto
qed

end
