(* ===== verification/StronglyConnected.thy ===== *)
theory StronglyConnected
  imports DirectedGraphs
begin

text \<open>
  Strongly connected components of the wait-for graph (\<^verbatim>\<open>StronglyConnectedComponents\<close>): Tarjan's
  algorithm in the variant in which a node's low id doubles as its preorder number.  The main
  result is full correctness: the constructor terminates, and two nodes get the same component id
  exactly if each is reachable from the other.
\<close>

section \<open>State and operations\<close>

record scc_state =
  is_marked :: "bool list"
  component_ids :: "nat list"
  low_ids :: "nat list"
  traversal_stack :: "nat list"
  preorder_counter :: nat
  no_of_components :: nat

definition init_scc :: "DirectedGraph \<Rightarrow> scc_state" where
  "init_scc g = \<lparr>is_marked = replicate (getNumNodes g) False,
     component_ids = replicate (getNumNodes g) 0, low_ids = replicate (getNumNodes g) 0,
     traversal_stack = [], preorder_counter = 0, no_of_components = 0\<rparr>"

text \<open>The final \<^verbatim>\<open>do ... while (w != v)\<close> loop: pop the stack down to \<open>v\<close>.  The stack is passed
  separately to make the recursion structural.\<close>

fun pop_component :: "nat \<Rightarrow> nat \<Rightarrow> nat list \<Rightarrow> scc_state \<Rightarrow> scc_state result" where
  "pop_component num_nodes v [] st = Inl UndefinedBehaviour"
| "pop_component num_nodes v (w # stack) st =
     and_then (vec_set (component_ids st) w (no_of_components st)) (\<lambda>comps.
       and_then (vec_set (low_ids st) w num_nodes) (\<lambda>lows.
         (let st' = st\<lparr>component_ids := comps, low_ids := lows, traversal_stack := stack\<rparr> in
          if w \<noteq> v then pop_component num_nodes v stack st' else Inr st')))"

text \<open>The recursion, with the depth bounded by a first argument, and its loop over the adjacent
  nodes, which carries the local variable \<open>min\<close> (here \<open>min_id\<close>).\<close>

fun depthFirstSearch :: "nat \<Rightarrow> DirectedGraph \<Rightarrow> nat \<Rightarrow> scc_state \<Rightarrow> scc_state result"
  and visit_adjacent :: "nat \<Rightarrow> DirectedGraph \<Rightarrow> nat list \<Rightarrow> nat \<Rightarrow> scc_state \<Rightarrow> (nat \<times> scc_state) result"
where
  "depthFirstSearch 0 g v st = Inl OutOfFuel"
| "depthFirstSearch (Suc fuel) g v st =
     and_then (vec_set (is_marked st) v True) (\<lambda>marks.
     and_then (vec_set (low_ids st) v (preorder_counter st)) (\<lambda>lows.
     and_then (getAdjacentNodes g v) (\<lambda>adjacent.
     and_then (visit_adjacent fuel g adjacent (preorder_counter st)
                 (st\<lparr>is_marked := marks, low_ids := lows,
                     preorder_counter := preorder_counter st + 1,
                     traversal_stack := v # traversal_stack st\<rparr>)) (\<lambda>(min_id, st2).
     and_then (vec_at (low_ids st2) v) (\<lambda>low_v.
       if min_id < low_v then
         and_then (vec_set (low_ids st2) v min_id) (\<lambda>lows2. Inr (st2\<lparr>low_ids := lows2\<rparr>))
       else
         and_then (pop_component (getNumNodes g) v (traversal_stack st2) st2) (\<lambda>st3.
           Inr (st3\<lparr>no_of_components := no_of_components st3 + 1\<rparr>)))))))"
| "visit_adjacent fuel g [] min_id st = Inr (min_id, st)"
| "visit_adjacent fuel g (w # ws) min_id st =
     and_then (vec_at (is_marked st) w) (\<lambda>marked.
     and_then (if \<not> marked then depthFirstSearch fuel g w st else Inr st) (\<lambda>st'.
     and_then (vec_at (low_ids st') w) (\<lambda>low_w.
       visit_adjacent fuel g ws (if low_w < min_id then low_w else min_id) st')))"

definition findStronglyConnectedComponents :: "DirectedGraph \<Rightarrow> scc_state \<Rightarrow> scc_state result" where
  "findStronglyConnectedComponents g st =
     fold_res (\<lambda>st v. and_then (vec_at (is_marked st) v) (\<lambda>marked.
       if \<not> marked then depthFirstSearch (getNumNodes g) g v st else Inr st)) st [0..<getNumNodes g]"

definition StronglyConnectedComponents :: "DirectedGraph \<Rightarrow> scc_state result" where
  "StronglyConnectedComponents g = findStronglyConnectedComponents g (init_scc g)"

definition getComponentId :: "scc_state \<Rightarrow> nat \<Rightarrow> nat result" where
  "getComponentId st node = vec_at (component_ids st) node"

definition getTotalComponents :: "scc_state \<Rightarrow> nat" where
  "getTotalComponents st = no_of_components st"

definition getComponentMapping :: "scc_state \<Rightarrow> (nat \<times> nat list) list" where
  "getComponentMapping st =
     fold (\<lambda>i m. (let c = component_ids st ! i in al_put m c (al_get [] m c @ [i])))
       [0..<length (component_ids st)] []"

section \<open>The invariant\<close>

definition marked_set :: "scc_state \<Rightarrow> nat set" where
  "marked_set st = {x. x < length (is_marked st) \<and> is_marked st ! x}"

abbreviation stack_set :: "scc_state \<Rightarrow> nat set" where
  "stack_set st \<equiv> set (traversal_stack st)"

abbreviation completed :: "scc_state \<Rightarrow> nat set" where
  "completed st \<equiv> marked_set st - stack_set st"

abbreviation reaches :: "DirectedGraph \<Rightarrow> nat \<Rightarrow> nat \<Rightarrow> bool" where
  "reaches g x y \<equiv> (x, y) \<in> (edges g)\<^sup>*"

text \<open>\<open>num\<close> is the preorder number of a node.  The code forgets it when the low id is lowered; it is
  a ghost of the proof.\<close>

definition scc_inv :: "DirectedGraph \<Rightarrow> (nat \<Rightarrow> nat) \<Rightarrow> scc_state \<Rightarrow> bool" where
  "scc_inv g num st \<longleftrightarrow>
     length (is_marked st) = getNumNodes g \<and> length (component_ids st) = getNumNodes g
   \<and> length (low_ids st) = getNumNodes g
   \<and> stack_set st \<subseteq> marked_set st
   \<and> sorted_wrt (\<lambda>a b. num b < num a) (traversal_stack st)
   \<and> preorder_counter st = card (marked_set st)
   \<and> (\<forall>x \<in> stack_set st. num x < preorder_counter st)
   \<and> (\<forall>x \<in> completed st. \<forall>y. (x, y) \<in> edges g \<longrightarrow> y \<in> completed st)
   \<and> (\<forall>x \<in> completed st. low_ids st ! x = getNumNodes g)
   \<and> (\<forall>x \<in> stack_set st. \<exists>y \<in> stack_set st.
        low_ids st ! x = num y \<and> num y \<le> num x \<and> reaches g x y)
   \<and> (\<forall>x \<in> completed st. component_ids st ! x < no_of_components st)
   \<and> (\<forall>x \<in> completed st. \<forall>y \<in> completed st.
        component_ids st ! x = component_ids st ! y \<longleftrightarrow> reaches g x y \<and> reaches g y x)
   \<and> (\<forall>c < no_of_components st. \<exists>x \<in> completed st. component_ids st ! x = c)"

text \<open>The invariant of the loop of \<open>depthFirstSearch v\<close>: \<open>S0\<close> is the stack and \<open>M0\<close> the set of marked
  nodes when the call began, \<open>L\<close> is what the loop has put on top of \<open>v\<close>, \<open>m\<close> is the local
  minimum.\<close>

definition loop_inv ::
    "DirectedGraph \<Rightarrow> nat \<Rightarrow> nat list \<Rightarrow> nat set \<Rightarrow> (nat \<Rightarrow> nat) \<Rightarrow> scc_state \<Rightarrow> nat list \<Rightarrow> nat \<Rightarrow> bool"
where
  "loop_inv g v S0 M0 num st L m \<longleftrightarrow>
     scc_inv g num st \<and> traversal_stack st = L @ v # S0 \<and> low_ids st ! v = num v
   \<and> v \<notin> M0 \<and> insert v M0 \<subseteq> marked_set st \<and> set S0 \<subseteq> M0 \<and> set L \<inter> M0 = {}
   \<and> (\<forall>x \<in> set L. low_ids st ! x < num x \<and> reaches g v x)
   \<and> (\<forall>x \<in> marked_set st - insert v M0. \<forall>y. (x, y) \<in> edges g \<longrightarrow> y \<in> marked_set st)
   \<and> (\<forall>x \<in> set L. \<forall>y \<in> set S0. (x, y) \<in> edges g \<longrightarrow> m \<le> num y)
   \<and> (\<exists>y \<in> stack_set st. m = num y \<and> num y \<le> num v \<and> reaches g v y)"

text \<open>What a call of \<open>depthFirstSearch\<close> on the unmarked node \<open>v\<close> achieves.\<close>

definition dfs_post ::
    "DirectedGraph \<Rightarrow> (nat \<Rightarrow> nat) \<Rightarrow> scc_state \<Rightarrow> nat \<Rightarrow> (nat \<Rightarrow> nat) \<Rightarrow> scc_state \<Rightarrow> nat list \<Rightarrow> bool" where
  "dfs_post g num st v num' st' L \<longleftrightarrow>
     scc_inv g num' st' \<and> (\<forall>x \<in> marked_set st. num' x = num x)
   \<and> insert v (marked_set st) \<subseteq> marked_set st' \<and> traversal_stack st' = L @ traversal_stack st
   \<and> set L \<inter> marked_set st = {} \<and> (L = [] \<or> (\<exists>L0. L = L0 @ [v]))
   \<and> (\<forall>x \<in> stack_set st. low_ids st' ! x = low_ids st ! x)
   \<and> (\<forall>x \<in> set L. low_ids st' ! x < num' x \<and> reaches g v x)
   \<and> (\<forall>x \<in> marked_set st' - marked_set st. \<forall>y. (x, y) \<in> edges g \<longrightarrow> y \<in> marked_set st')
   \<and> (\<forall>x \<in> set L. \<forall>y \<in> stack_set st. (x, y) \<in> edges g \<longrightarrow> low_ids st' ! v \<le> num' y)"

section \<open>Lemmas\<close>

lemma closed_reaches:
  assumes "\<And>x y. x \<in> A \<Longrightarrow> (x, y) \<in> E \<Longrightarrow> y \<in> A" and "(x, y) \<in> E\<^sup>*" and "x \<in> A"
  shows "y \<in> A"
  using assms(2,3) by (induction rule: rtrancl_induct) (auto intro: assms(1))

lemma scc_invD:
  assumes "scc_inv g num st"
  shows "length (is_marked st) = getNumNodes g" and "length (component_ids st) = getNumNodes g"
    and "length (low_ids st) = getNumNodes g" and "stack_set st \<subseteq> marked_set st"
    and "sorted_wrt (\<lambda>a b. num b < num a) (traversal_stack st)"
    and "preorder_counter st = card (marked_set st)"
    and "x \<in> stack_set st \<Longrightarrow> num x < preorder_counter st"
    and "\<lbrakk>x \<in> completed st; (x, y) \<in> edges g\<rbrakk> \<Longrightarrow> y \<in> completed st"
    and "x \<in> completed st \<Longrightarrow> low_ids st ! x = getNumNodes g"
    and "x \<in> stack_set st \<Longrightarrow> \<exists>y \<in> stack_set st. low_ids st ! x = num y \<and> num y \<le> num x \<and> reaches g x y"
    and "x \<in> completed st \<Longrightarrow> component_ids st ! x < no_of_components st"
    and "\<lbrakk>x \<in> completed st; y \<in> completed st\<rbrakk> \<Longrightarrow>
        component_ids st ! x = component_ids st ! y \<longleftrightarrow> reaches g x y \<and> reaches g y x"
    and "c < no_of_components st \<Longrightarrow> \<exists>x \<in> completed st. component_ids st ! x = c"
  using assms unfolding scc_inv_def by blast+

lemma scc_invI:
  assumes "length (is_marked st) = getNumNodes g" and "length (component_ids st) = getNumNodes g"
    and "length (low_ids st) = getNumNodes g" and "stack_set st \<subseteq> marked_set st"
    and "sorted_wrt (\<lambda>a b. num b < num a) (traversal_stack st)"
    and "preorder_counter st = card (marked_set st)"
    and "\<And>x. x \<in> stack_set st \<Longrightarrow> num x < preorder_counter st"
    and "\<And>x y. \<lbrakk>x \<in> completed st; (x, y) \<in> edges g\<rbrakk> \<Longrightarrow> y \<in> completed st"
    and "\<And>x. x \<in> completed st \<Longrightarrow> low_ids st ! x = getNumNodes g"
    and "\<And>x. x \<in> stack_set st \<Longrightarrow>
        \<exists>y \<in> stack_set st. low_ids st ! x = num y \<and> num y \<le> num x \<and> reaches g x y"
    and "\<And>x. x \<in> completed st \<Longrightarrow> component_ids st ! x < no_of_components st"
    and "\<And>x y. \<lbrakk>x \<in> completed st; y \<in> completed st\<rbrakk> \<Longrightarrow>
        component_ids st ! x = component_ids st ! y \<longleftrightarrow> reaches g x y \<and> reaches g y x"
    and "\<And>c. c < no_of_components st \<Longrightarrow> \<exists>x \<in> completed st. component_ids st ! x = c"
  shows "scc_inv g num st"
  unfolding scc_inv_def using assms by blast

lemma marked_set_subset: "scc_inv g num st \<Longrightarrow> marked_set st \<subseteq> {..<getNumNodes g}"
  using scc_invD(1) by (auto simp: marked_set_def)

lemma finite_marked_set [simp]: "finite (marked_set st)"
  by (auto simp: marked_set_def)

lemma scc_inv_num_bound:
  assumes "scc_inv g num st" and "x \<in> stack_set st"
  shows "num x < getNumNodes g"
proof -
  have "num x < card (marked_set st)" using scc_invD(6,7) [OF assms(1)] assms(2) by simp
  also have "card (marked_set st) \<le> card {..<getNumNodes g}"
    by (rule card_mono) (use marked_set_subset [OF assms(1)] in auto)
  finally show ?thesis by simp
qed

lemma marked_set_cong: "is_marked st' = is_marked st \<Longrightarrow> marked_set st' = marked_set st"
  by (simp add: marked_set_def)

subsection \<open>Entering a node\<close>

definition enter_node :: "nat \<Rightarrow> scc_state \<Rightarrow> scc_state" where
  "enter_node v st = st\<lparr>is_marked := (is_marked st)[v := True],
     low_ids := (low_ids st)[v := preorder_counter st],
     preorder_counter := preorder_counter st + 1, traversal_stack := v # traversal_stack st\<rparr>"

lemma enter_node_simps [simp]:
  "component_ids (enter_node v st) = component_ids st"
  "no_of_components (enter_node v st) = no_of_components st"
  "preorder_counter (enter_node v st) = preorder_counter st + 1"
  "traversal_stack (enter_node v st) = v # traversal_stack st"
  "length (is_marked (enter_node v st)) = length (is_marked st)"
  "length (low_ids (enter_node v st)) = length (low_ids st)"
  by (simp_all add: enter_node_def)

lemma marked_set_enter:
  "v < length (is_marked st) \<Longrightarrow> marked_set (enter_node v st) = insert v (marked_set st)"
  by (auto simp: marked_set_def enter_node_def nth_list_update)

lemma enter_node_scc_inv:
  assumes inv: "scc_inv g num st" and v: "v < getNumNodes g" "v \<notin> marked_set st"
  shows "scc_inv g (num(v := preorder_counter st)) (enter_node v st)"
proof -
  let ?st = "enter_node v st" and ?num = "num(v := preorder_counter st)"
  note D = scc_invD [OF inv]
  have m: "marked_set ?st = insert v (marked_set st)" using marked_set_enter v(1) D(1) by simp
  have vS: "v \<notin> stack_set st" using D(4) v by auto
  have c: "completed ?st = completed st" using m v vS by auto
  have low: "low_ids ?st ! x = (if x = v then preorder_counter st else low_ids st ! x)" for x
    using v(1) D(3) by (auto simp: enter_node_def)
  have num_lt: "num x < preorder_counter st" if "x \<in> stack_set st" for x using D(7) that .
  show ?thesis
  proof (rule scc_invI)
    show "stack_set ?st \<subseteq> marked_set ?st" using D(4) m by auto
    show "sorted_wrt (\<lambda>a b. ?num b < ?num a) (traversal_stack ?st)"
      using vS num_lt by (auto intro: sorted_wrt_mono_rel [OF _ D(5)])
    show "preorder_counter ?st = card (marked_set ?st)" using D(6) v(2) by (simp add: m)
  next
    fix x assume "x \<in> stack_set ?st"
    then show "?num x < preorder_counter ?st" using num_lt by (auto simp: less_Suc_eq)
  next
    fix x y assume "x \<in> completed ?st" "(x, y) \<in> edges g"
    then show "y \<in> completed ?st" unfolding c by (rule D(8))
  next
    fix x assume x: "x \<in> completed ?st"
    then have "x \<noteq> v" using v(2) c by blast
    with D(9) [OF x [unfolded c]] show "low_ids ?st ! x = getNumNodes g" by (simp add: low)
  next
    fix x assume x: "x \<in> stack_set ?st"
    show "\<exists>y \<in> stack_set ?st. low_ids ?st ! x = ?num y \<and> ?num y \<le> ?num x \<and> reaches g x y"
    proof (cases "x = v")
      case True
      then show ?thesis by (auto simp: low)
    next
      case False
      with x have "x \<in> stack_set st" by auto
      with D(10) [of x] obtain y where
        "y \<in> stack_set st" "low_ids st ! x = num y" "num y \<le> num x" "reaches g x y" by blast
      with False vS show ?thesis by (intro bexI [of _ y]) (auto simp: low)
    qed
  next
    fix x assume "x \<in> completed ?st"
    then show "component_ids ?st ! x < no_of_components ?st"
      unfolding c unfolding enter_node_simps by (rule D(11))
  next
    fix x y assume "x \<in> completed ?st" "y \<in> completed ?st"
    then show "component_ids ?st ! x = component_ids ?st ! y \<longleftrightarrow> reaches g x y \<and> reaches g y x"
      unfolding c unfolding enter_node_simps by (rule D(12))
  next
    fix i assume "i < no_of_components ?st"
    then show "\<exists>x \<in> completed ?st. component_ids ?st ! x = i"
      unfolding c using D(13) [of i] by simp
  qed (simp_all add: D(1-3))
qed

lemma enter_node_loop_inv:
  assumes inv: "scc_inv g num st" and v: "v < getNumNodes g" "v \<notin> marked_set st"
  shows "loop_inv g v (traversal_stack st) (marked_set st) (num(v := preorder_counter st))
           (enter_node v st) [] (preorder_counter st)"
proof -
  note D = scc_invD [OF inv]
  have m: "marked_set (enter_node v st) = insert v (marked_set st)"
    using marked_set_enter v(1) D(1) by simp
  have "low_ids (enter_node v st) ! v = preorder_counter st"
    using v(1) D(3) by (simp add: enter_node_def)
  with enter_node_scc_inv [OF assms] show ?thesis
    using v D(4) m by (simp add: loop_inv_def)
qed

subsection \<open>One adjacent node\<close>

lemma loop_invD:
  assumes "loop_inv g v S0 M0 num st L m"
  shows "scc_inv g num st" and "traversal_stack st = L @ v # S0" and "low_ids st ! v = num v"
    and "v \<notin> M0" and "insert v M0 \<subseteq> marked_set st" and "set S0 \<subseteq> M0" and "set L \<inter> M0 = {}"
    and "x \<in> set L \<Longrightarrow> low_ids st ! x < num x" and "x \<in> set L \<Longrightarrow> reaches g v x"
    and "\<lbrakk>x \<in> marked_set st; x \<noteq> v; x \<notin> M0; (x, y) \<in> edges g\<rbrakk> \<Longrightarrow> y \<in> marked_set st"
    and "\<lbrakk>x \<in> set L; y \<in> set S0; (x, y) \<in> edges g\<rbrakk> \<Longrightarrow> m \<le> num y"
    and "\<exists>y \<in> stack_set st. m = num y \<and> num y \<le> num v \<and> reaches g v y"
  using assms unfolding loop_inv_def by blast+

lemma dfs_postD:
  assumes "dfs_post g num st v num' st' L"
  shows "scc_inv g num' st'" and "x \<in> marked_set st \<Longrightarrow> num' x = num x"
    and "insert v (marked_set st) \<subseteq> marked_set st'"
    and "traversal_stack st' = L @ traversal_stack st" and "set L \<inter> marked_set st = {}"
    and "L = [] \<or> (\<exists>L0. L = L0 @ [v])"
    and "x \<in> stack_set st \<Longrightarrow> low_ids st' ! x = low_ids st ! x"
    and "x \<in> set L \<Longrightarrow> low_ids st' ! x < num' x" and "x \<in> set L \<Longrightarrow> reaches g v x"
    and "\<lbrakk>x \<in> marked_set st'; x \<notin> marked_set st; (x, y) \<in> edges g\<rbrakk> \<Longrightarrow> y \<in> marked_set st'"
    and "\<lbrakk>x \<in> set L; y \<in> stack_set st; (x, y) \<in> edges g\<rbrakk> \<Longrightarrow> low_ids st' ! v \<le> num' y"
  using assms unfolding dfs_post_def by blast+

text \<open>The local minimum stays the preorder number of a stack node reachable from \<open>v\<close>.\<close>

lemma minimum_clause:
  assumes inv: "scc_inv g num st" and w: "(v, w) \<in> edges g" "w \<in> marked_set st"
    and m: "\<exists>y \<in> stack_set st. m = num y \<and> num y \<le> num v \<and> reaches g v y"
  defines "m' \<equiv> if low_ids st ! w < m then low_ids st ! w else m"
  shows "\<exists>y \<in> stack_set st. m' = num y \<and> num y \<le> num v \<and> reaches g v y"
    and "w \<in> stack_set st \<Longrightarrow> m' \<le> num w"
proof -
  show "\<exists>y \<in> stack_set st. m' = num y \<and> num y \<le> num v \<and> reaches g v y"
  proof (cases "low_ids st ! w < m")
    case True
    have "m < getNumNodes g" using m scc_inv_num_bound [OF inv] by blast
    with True have "w \<in> stack_set st" using scc_invD(9) [OF inv, of w] w(2) by fastforce
    then obtain y where y: "y \<in> stack_set st" "low_ids st ! w = num y" "reaches g w y"
      using scc_invD(10) [OF inv] by blast
    have "reaches g v y" using w(1) y(3) by (rule converse_rtrancl_into_rtrancl)
    moreover have "num y \<le> num v" using True y(2) m by force
    ultimately show ?thesis using y(1,2) True by (auto simp: m'_def)
  next
    case False
    then show ?thesis using m by (simp add: m'_def)
  qed
  show "m' \<le> num w" if "w \<in> stack_set st"
    using scc_invD(10) [OF inv that] unfolding m'_def by auto
qed

lemma loop_inv_marked:
  assumes inv: "loop_inv g v S0 M0 num st L m" and w: "(v, w) \<in> edges g" "w \<in> marked_set st"
  shows "loop_inv g v S0 M0 num st L (if low_ids st ! w < m then low_ids st ! w else m)"
proof -
  note D = loop_invD [OF inv]
  have "(if low_ids st ! w < m then low_ids st ! w else m) \<le> num y"
    if "x \<in> set L" "y \<in> set S0" "(x, y) \<in> edges g" for x y
    using D(11) [OF that] by simp
  then show ?thesis
    using minimum_clause(1) [OF D(1) w D(12)] inv unfolding loop_inv_def by blast
qed

lemma loop_inv_dfs:
  assumes inv: "loop_inv g v S0 M0 num st L m" and post: "dfs_post g num st w num' st' Lw"
    and w: "(v, w) \<in> edges g"
  shows "loop_inv g v S0 M0 num' st' (Lw @ L)
           (if low_ids st' ! w < m then low_ids st' ! w else m)"
proof -
  note D = loop_invD [OF inv] and P = dfs_postD [OF post]
  let ?m = "if low_ids st' ! w < m then low_ids st' ! w else m"
  have st: "stack_set st = set L \<union> insert v (set S0)" by (simp add: D(2))
  have sub: "stack_set st \<subseteq> marked_set st" using scc_invD(4) [OF D(1)] .
  have num': "num' x = num x" if "x \<in> stack_set st" for x using P(2) sub that by blast
  have "\<exists>y \<in> stack_set st'. m = num' y \<and> num' y \<le> num' v \<and> reaches g v y"
    using D(12) num' st by (auto simp: P(4))
  then have cl: "\<exists>y \<in> stack_set st'. ?m = num' y \<and> num' y \<le> num' v \<and> reaches g v y"
    using minimum_clause(1) [OF P(1) w] P(3) by blast
  have low: "low_ids st' ! x < num' x \<and> reaches g v x" if "x \<in> set (Lw @ L)" for x
  proof (cases "x \<in> set Lw")
    case True
    then show ?thesis using P(8,9) w by (blast intro: converse_rtrancl_into_rtrancl)
  next
    case False
    with that have "x \<in> set L" by simp
    then show ?thesis using D(8,9) P(7) num' st by auto
  qed
  have mk: "y \<in> marked_set st'" if "x \<in> marked_set st' - insert v M0" "(x, y) \<in> edges g" for x y
    using that D(10) P(3,10) by blast
  have bk: "?m \<le> num' y" if "x \<in> set (Lw @ L)" "y \<in> set S0" "(x, y) \<in> edges g" for x y
  proof (cases "x \<in> set Lw")
    case True
    with that st have "low_ids st' ! w \<le> num' y" by (intro P(11)) auto
    then show ?thesis by simp
  next
    case False
    with that have "m \<le> num' y" using D(11) [of x y] num' [of y] st by simp
    then show ?thesis by simp
  qed
  have sets: "v \<notin> M0" "insert v M0 \<subseteq> marked_set st'" "set S0 \<subseteq> M0" "set (Lw @ L) \<inter> M0 = {}"
    using D(4-7) P(3,5) by auto
  have "low_ids st' ! v = num' v" using D(3) P(7) num' st by simp
  then show ?thesis unfolding loop_inv_def
    using P(1,4) D(2) low mk bk sets cl by (intro conjI) (assumption | simp | blast)+
qed

subsection \<open>Leaving a node\<close>

lemma pop_component_spec:
  assumes "v \<notin> set L" and "\<forall>x \<in> insert v (set L). x < length (component_ids st) \<and> x < length (low_ids st)"
  shows "\<exists>st'. pop_component N v (L @ v # S0) st = Inr st' \<and> traversal_stack st' = S0
    \<and> is_marked st' = is_marked st \<and> preorder_counter st' = preorder_counter st
    \<and> no_of_components st' = no_of_components st
    \<and> length (component_ids st') = length (component_ids st) \<and> length (low_ids st') = length (low_ids st)
    \<and> (\<forall>x. component_ids st' ! x =
         (if x \<in> insert v (set L) then no_of_components st else component_ids st ! x))
    \<and> (\<forall>x. low_ids st' ! x = (if x \<in> insert v (set L) then N else low_ids st ! x))"
  using assms
proof (induction L arbitrary: st)
  case Nil
  then show ?case by auto
next
  case (Cons w L)
  let ?st = "st\<lparr>component_ids := (component_ids st)[w := no_of_components st],
    low_ids := (low_ids st)[w := N], traversal_stack := L @ v # S0\<rparr>"
  obtain st' where "pop_component N v (L @ v # S0) ?st = Inr st' \<and> traversal_stack st' = S0
    \<and> is_marked st' = is_marked ?st \<and> preorder_counter st' = preorder_counter ?st
    \<and> no_of_components st' = no_of_components ?st
    \<and> length (component_ids st') = length (component_ids ?st) \<and> length (low_ids st') = length (low_ids ?st)
    \<and> (\<forall>x. component_ids st' ! x =
         (if x \<in> insert v (set L) then no_of_components ?st else component_ids ?st ! x))
    \<and> (\<forall>x. low_ids st' ! x = (if x \<in> insert v (set L) then N else low_ids ?st ! x))"
    using Cons.IH [of ?st] Cons.prems by auto
  then show ?case using Cons.prems by (intro exI [of _ st']) auto
qed

text \<open>The node is not a root: its low id is lowered and it stays on the stack.\<close>

lemma lower_scc_inv:
  assumes inv: "scc_inv g num st" and v: "v \<in> stack_set st"
    and m: "\<exists>y \<in> stack_set st. m = num y \<and> num y \<le> num v \<and> reaches g v y"
  shows "scc_inv g num (st\<lparr>low_ids := (low_ids st)[v := m]\<rparr>)"
proof -
  let ?st = "st\<lparr>low_ids := (low_ids st)[v := m]\<rparr>"
  note D = scc_invD [OF inv]
  have mk: "marked_set ?st = marked_set st" by (rule marked_set_cong) simp
  have "v < length (low_ids st)" using D(3,4) v marked_set_subset [OF inv] by auto
  then have low: "low_ids ?st ! x = (if x = v then m else low_ids st ! x)" for x by simp
  show ?thesis
  proof (rule scc_invI)
    fix x assume "x \<in> completed ?st"
    then have x: "x \<in> completed st" and "x \<noteq> v" using v by (auto simp: mk)
    with D(9) [OF x] show "low_ids ?st ! x = getNumNodes g" unfolding low by simp
    show "component_ids ?st ! x < no_of_components ?st" using D(11) [OF x] by simp
  next
    fix x assume "x \<in> stack_set ?st"
    then have "x \<in> stack_set st" by simp
    then show "\<exists>y \<in> stack_set ?st. low_ids ?st ! x = num y \<and> num y \<le> num x \<and> reaches g x y"
      using m D(10) [of x] unfolding low by (cases "x = v") auto
  next
    fix x y assume "x \<in> completed ?st" "y \<in> completed ?st"
    then have "x \<in> completed st" "y \<in> completed st" by (simp_all add: mk)
    from D(12) [OF this]
    show "component_ids ?st ! x = component_ids ?st ! y \<longleftrightarrow> reaches g x y \<and> reaches g y x" by simp
  next
    fix x y assume "x \<in> completed ?st" "(x, y) \<in> edges g"
    then show "y \<in> completed ?st" using D(8) [of x y] by (simp add: mk)
  next
    fix i assume "i < no_of_components ?st"
    then show "\<exists>x \<in> completed ?st. component_ids ?st ! x = i" using D(13) [of i] by (simp add: mk)
  qed (use D(1-7) mk in simp_all)
qed

lemma finish_nonroot:
  assumes inv: "loop_inv g v (traversal_stack st) (marked_set st) num' st2 L m"
    and num: "\<And>x. x \<in> marked_set st \<Longrightarrow> num' x = num x" and m: "m < num' v"
    and adj: "\<And>w. (v, w) \<in> edges g \<Longrightarrow> w \<in> marked_set st2 \<and> (w \<in> stack_set st \<longrightarrow> m \<le> num' w)"
    and low: "\<And>x. x \<in> stack_set st \<Longrightarrow> low_ids st2 ! x = low_ids st ! x"
  shows "dfs_post g num st v num' (st2\<lparr>low_ids := (low_ids st2)[v := m]\<rparr>) (L @ [v])"
proof -
  let ?st = "st2\<lparr>low_ids := (low_ids st2)[v := m]\<rparr>"
  note D = loop_invD [OF inv]
  have mk: "marked_set ?st = marked_set st2" by (rule marked_set_cong) simp
  have v: "v \<in> stack_set st2" by (simp add: D(2))
  have "v < length (low_ids st2)"
    using scc_invD(3,4) [OF D(1)] v marked_set_subset [OF D(1)] by auto
  then have low': "low_ids ?st ! x = (if x = v then m else low_ids st2 ! x)" for x by simp
  have vn: "v \<notin> stack_set st" using D(4,6) by blast
  have a: "low_ids ?st ! x < num' x \<and> reaches g v x" if "x \<in> set (L @ [v])" for x
    using that m D(8,9) unfolding low' by auto
  have b: "low_ids ?st ! v \<le> num' y"
    if "x \<in> set (L @ [v])" "y \<in> stack_set st" "(x, y) \<in> edges g" for x y
    using that adj D(11) unfolding low' by auto
  have c: "y \<in> marked_set ?st" if "x \<in> marked_set ?st - marked_set st" "(x, y) \<in> edges g" for x y
    using that adj D(10) unfolding mk by blast
  have d: "low_ids ?st ! x = low_ids st ! x" if "x \<in> stack_set st" for x
    using low [OF that] vn that unfolding low' by auto
  have e: "set (L @ [v]) \<inter> marked_set st = {}" "insert v (marked_set st) \<subseteq> marked_set ?st"
    using D(4,5,7) mk by auto
  have f: "traversal_stack ?st = (L @ [v]) @ traversal_stack st" by (simp add: D(2))
  show ?thesis unfolding dfs_post_def
    using lower_scc_inv [OF D(1) v D(12)] num a b c d e f by blast
qed

text \<open>The node is a root.  No edge leads from the part of the stack above and including \<open>v\<close> into the
  rest of the stack; together with the completed nodes it is closed, and all of it reaches \<open>v\<close>.\<close>

lemma root_closed:
  assumes inv: "loop_inv g v S0 M0 num st L m" and m: "\<not> m < num v"
    and adj: "\<And>w. (v, w) \<in> edges g \<Longrightarrow> w \<in> marked_set st \<and> (w \<in> set S0 \<longrightarrow> m \<le> num w)"
    and x: "x \<in> completed st \<union> insert v (set L)" and e: "(x, y) \<in> edges g"
  shows "y \<in> completed st \<union> insert v (set L)"
proof (cases "x \<in> completed st")
  case True
  then show ?thesis using scc_invD(8) [OF loop_invD(1) [OF inv] True e] by blast
next
  case False
  note D = loop_invD [OF inv]
  have below: "num z < num v" if "z \<in> set S0" for z
    using scc_invD(5) [OF D(1)] that by (simp add: D(2) sorted_wrt_append)
  from False x have x': "x = v \<or> x \<in> set L" by blast
  have "x \<in> marked_set st" using x' scc_invD(4) [OF D(1)] by (auto simp: D(2))
  then have "y \<in> marked_set st" using x' e adj D(7,10) by blast
  moreover have "y \<notin> set S0"
  proof
    assume "y \<in> set S0"
    with x' e adj D(11) have "m \<le> num y" by blast
    with below [OF \<open>y \<in> set S0\<close>] m show False by simp
  qed
  ultimately show ?thesis by (auto simp: D(2))
qed

lemma root_reached:
  assumes inv: "loop_inv g v S0 M0 num st L m" and m: "\<not> m < num v"
    and adj: "\<And>w. (v, w) \<in> edges g \<Longrightarrow> w \<in> marked_set st \<and> (w \<in> set S0 \<longrightarrow> m \<le> num w)"
    and "x \<in> insert v (set L)"
  shows "reaches g x v"
  using \<open>x \<in> insert v (set L)\<close>
proof (induction "num x" arbitrary: x rule: less_induct)
  case less
  note D = loop_invD [OF inv]
  show ?case
  proof (cases "x = v")
    case False
    with less.prems have x: "x \<in> set L" by simp
    obtain y where y: "y \<in> stack_set st" "num y < num x" "reaches g x y"
      using scc_invD(10) [OF D(1), of x] D(8) [OF x] x by (force simp: D(2))
    have "y \<in> completed st \<union> insert v (set L)"
      by (rule closed_reaches [OF _ y(3)]) (use root_closed [OF inv m adj] x in blast)+
    with y(1) have "y \<in> insert v (set L)" by blast
    with less.hyps [OF y(2)] y(3) show ?thesis by (meson rtrancl_trans)
  qed simp
qed

lemma root_scc_inv:
  assumes inv: "loop_inv g v S0 M0 num st L m" and m: "\<not> m < num v"
    and adj: "\<And>w. (v, w) \<in> edges g \<Longrightarrow> w \<in> marked_set st \<and> (w \<in> set S0 \<longrightarrow> m \<le> num w)"
    and st': "traversal_stack st' = S0" "is_marked st' = is_marked st"
      "preorder_counter st' = preorder_counter st" "no_of_components st' = no_of_components st + 1"
      "length (component_ids st') = length (component_ids st)" "length (low_ids st') = length (low_ids st)"
    and comp: "\<And>x. component_ids st' ! x =
         (if x \<in> insert v (set L) then no_of_components st else component_ids st ! x)"
    and low: "\<And>x. low_ids st' ! x = (if x \<in> insert v (set L) then getNumNodes g else low_ids st ! x)"
  shows "scc_inv g num st'"
proof -
  let ?T = "insert v (set L)"
  note D = loop_invD [OF inv] and I = scc_invD [OF loop_invD(1) [OF inv]]
  have mk: "marked_set st' = marked_set st" using st'(2) by (rule marked_set_cong)
  have "sorted_wrt (\<lambda>a b. num b < num a) (L @ v # S0)" using I(5) by (simp add: D(2))
  then have dis: "?T \<inter> set S0 = {}" by (auto simp: sorted_wrt_append)
  have c: "completed st' = completed st \<union> ?T" "completed st \<inter> ?T = {}"
    using I(4) dis unfolding mk st'(1) by (auto simp: D(2))
  have T: "reaches g x y" if "x \<in> ?T" "y \<in> ?T" for x y
    using root_reached [OF inv m adj that(1)] that(2) D(9) by (auto intro: rtrancl_trans)
  have closed: "y \<in> completed st" if "reaches g x y" "x \<in> completed st" for x y
    by (rule closed_reaches [OF _ that]) (rule I(8))
  show ?thesis
  proof (rule scc_invI)
    show "sorted_wrt (\<lambda>a b. num b < num a) (traversal_stack st')"
      using I(5) by (simp add: D(2) st'(1) sorted_wrt_append)
    show "stack_set st' \<subseteq> marked_set st'" using I(4) by (simp add: mk st'(1) D(2))
  next
    fix x assume "x \<in> stack_set st'"
    then have x: "x \<in> set S0" by (simp add: st'(1))
    then have xs: "x \<in> stack_set st" and xT: "x \<notin> ?T" using dis by (auto simp: D(2))
    show "num x < preorder_counter st'" using I(7) [OF xs] by (simp add: st'(3))
    obtain y where y: "y \<in> stack_set st" "low_ids st ! x = num y" "num y \<le> num x" "reaches g x y"
      using I(10) [OF xs] by blast
    have "num z > num x" if "z \<in> ?T" for z
      using that x \<open>sorted_wrt _ (L @ v # S0)\<close> by (auto simp: sorted_wrt_append)
    with y(1,3) have "y \<in> set S0" by (force simp: D(2))
    with y xT show "\<exists>y \<in> stack_set st'. low_ids st' ! x = num y \<and> num y \<le> num x \<and> reaches g x y"
      unfolding low st'(1) by auto
  next
    fix x y assume "x \<in> completed st'" "(x, y) \<in> edges g"
    then show "y \<in> completed st'" using root_closed [OF inv m adj] unfolding c(1) by blast
  next
    fix x assume "x \<in> completed st'"
    then show "low_ids st' ! x = getNumNodes g" "component_ids st' ! x < no_of_components st'"
      using I(9) [of x] I(11) [of x] unfolding c(1) low comp st'(4) by auto
  next
    fix x y assume "x \<in> completed st'" "y \<in> completed st'"
    then consider "x \<in> ?T" "y \<in> ?T" | "x \<in> completed st" "y \<in> completed st"
      | "x \<in> ?T" "y \<in> completed st" | "x \<in> completed st" "y \<in> ?T" unfolding c(1) by blast
    then show "component_ids st' ! x = component_ids st' ! y \<longleftrightarrow> reaches g x y \<and> reaches g y x"
    proof cases
      case 1
      then show ?thesis using T unfolding comp by simp
    next
      case 2
      then have "x \<notin> ?T" "y \<notin> ?T" using c(2) by blast+
      then show ?thesis using I(12) [OF 2] unfolding comp by simp
    next
      case 3
      then have "y \<notin> ?T" "\<not> reaches g y x" using c(2) closed by blast+
      then show ?thesis using I(11) [OF 3(2)] 3(1) unfolding comp by simp
    next
      case 4
      then have "x \<notin> ?T" "\<not> reaches g x y" using c(2) closed by blast+
      then show ?thesis using I(11) [OF 4(1)] 4(2) unfolding comp by simp
    qed
  next
    fix i assume i: "i < no_of_components st'"
    show "\<exists>x \<in> completed st'. component_ids st' ! x = i"
    proof (cases "i = no_of_components st")
      case True
      then show ?thesis unfolding c(1) comp by (intro bexI [of _ v]) simp_all
    next
      case False
      with i st'(4) obtain x where "x \<in> completed st" "component_ids st ! x = i" using I(13) [of i] by auto
      with c show ?thesis unfolding comp by (intro bexI [of _ x]) auto
    qed
  qed (use I(1-3,6) st' mk in simp_all)
qed

lemma finish_root:
  assumes inv: "loop_inv g v (traversal_stack st) (marked_set st) num' st2 L m"
    and num: "\<And>x. x \<in> marked_set st \<Longrightarrow> num' x = num x" and m: "\<not> m < num' v"
    and adj: "\<And>w. (v, w) \<in> edges g \<Longrightarrow> w \<in> marked_set st2 \<and> (w \<in> stack_set st \<longrightarrow> m \<le> num' w)"
    and low: "\<And>x. x \<in> stack_set st \<Longrightarrow> low_ids st2 ! x = low_ids st ! x"
  shows "\<exists>st3. pop_component (getNumNodes g) v (traversal_stack st2) st2 = Inr st3
    \<and> dfs_post g num st v num' (st3\<lparr>no_of_components := no_of_components st3 + 1\<rparr>) []"
proof -
  note D = loop_invD [OF inv] and I = scc_invD [OF loop_invD(1) [OF inv]]
  have "sorted_wrt (\<lambda>a b. num' b < num' a) (L @ v # traversal_stack st)" using I(5) by (simp add: D(2))
  then have vL: "v \<notin> set L" and dis: "insert v (set L) \<inter> stack_set st = {}"
    by (auto simp: sorted_wrt_append)
  have rng: "\<forall>x \<in> insert v (set L). x < length (component_ids st2) \<and> x < length (low_ids st2)"
    using I(2-4) marked_set_subset [OF D(1)] by (auto simp: D(2))
  obtain st3 where st3: "pop_component (getNumNodes g) v (L @ v # traversal_stack st) st2 = Inr st3"
      "traversal_stack st3 = traversal_stack st" "is_marked st3 = is_marked st2"
      "preorder_counter st3 = preorder_counter st2" "no_of_components st3 = no_of_components st2"
      "length (component_ids st3) = length (component_ids st2)" "length (low_ids st3) = length (low_ids st2)"
    and comp: "\<And>x. component_ids st3 ! x =
         (if x \<in> insert v (set L) then no_of_components st2 else component_ids st2 ! x)"
    and low': "\<And>x. low_ids st3 ! x = (if x \<in> insert v (set L) then getNumNodes g else low_ids st2 ! x)"
    using pop_component_spec [OF vL rng, of "getNumNodes g" "traversal_stack st"] by blast
  let ?st = "st3\<lparr>no_of_components := no_of_components st3 + 1\<rparr>"
  have mk: "marked_set ?st = marked_set st2" by (rule marked_set_cong) (simp add: st3(3))
  have scc: "scc_inv g num' ?st"
    using comp low' st3(2-7) by (intro root_scc_inv [OF inv m adj]) simp_all
  have cl: "y \<in> marked_set ?st" if "x \<in> marked_set ?st - marked_set st" "(x, y) \<in> edges g" for x y
    using that adj D(10) unfolding mk by blast
  have lo: "low_ids ?st ! x = low_ids st ! x" if "x \<in> stack_set st" for x
    using low [OF that] low' [of x] dis that by auto
  have "dfs_post g num st v num' ?st []"
    unfolding dfs_post_def using scc num cl lo D(5) mk st3(2) by simp
  then show ?thesis using st3(1) by (auto simp: D(2))
qed

subsection \<open>The recursion\<close>

abbreviation unmarked :: "DirectedGraph \<Rightarrow> scc_state \<Rightarrow> nat set" where
  "unmarked g st \<equiv> {..<getNumNodes g} - marked_set st"

definition dfs_spec :: "nat \<Rightarrow> DirectedGraph \<Rightarrow> bool" where
  "dfs_spec fuel g \<longleftrightarrow> (\<forall>num st v. scc_inv g num st \<longrightarrow> v \<in> unmarked g st \<longrightarrow> card (unmarked g st) \<le> fuel \<longrightarrow>
     (\<exists>num' st' L. depthFirstSearch fuel g v st = Inr st' \<and> dfs_post g num st v num' st' L))"

lemma visit_one:
  assumes spec: "dfs_spec fuel g" and inv: "loop_inv g v S0 M0 num st L m"
    and e: "(v, w) \<in> edges g" and w: "w < getNumNodes g" and fuel: "card (unmarked g st) \<le> fuel"
  shows "\<exists>num1 st1 L1. (if \<not> is_marked st ! w then depthFirstSearch fuel g w st else Inr st) = Inr st1
      \<and> loop_inv g v S0 M0 num1 st1 L1 (if low_ids st1 ! w < m then low_ids st1 ! w else m)
      \<and> (\<forall>x \<in> marked_set st. num1 x = num x) \<and> insert w (marked_set st) \<subseteq> marked_set st1
      \<and> (\<forall>x \<in> set S0. low_ids st1 ! x = low_ids st ! x)"
proof (cases "w \<in> marked_set st")
  case True
  then have "is_marked st ! w" by (simp add: marked_set_def)
  with True loop_inv_marked [OF inv e True] show ?thesis
    by (intro exI [of _ num] exI [of _ st] exI [of _ L]) simp
next
  case False
  note D = loop_invD [OF inv]
  from False w scc_invD(1) [OF D(1)] have nm: "\<not> is_marked st ! w" by (simp add: marked_set_def)
  obtain num1 st1 L1 where
    dfs: "depthFirstSearch fuel g w st = Inr st1" and post: "dfs_post g num st w num1 st1 L1"
    using spec D(1) w False fuel unfolding dfs_spec_def by blast
  have "\<forall>x \<in> set S0. low_ids st1 ! x = low_ids st ! x" using dfs_postD(7) [OF post] by (simp add: D(2))
  then show ?thesis
    using dfs nm loop_inv_dfs [OF inv post e] dfs_postD(2,3) [OF post]
    by (intro exI [of _ num1] exI [of _ st1] exI [of _ "L1 @ L"]) simp
qed

lemma visit_adjacent_spec:
  assumes spec: "dfs_spec fuel g" and valid: "valid_graph g"
    and "loop_inv g v S0 M0 num st L m" and "\<And>w. w \<in> set ws \<Longrightarrow> (v, w) \<in> edges g"
    and "card (unmarked g st) \<le> fuel"
  shows "\<exists>m' st' num' L'. visit_adjacent fuel g ws m st = Inr (m', st')
    \<and> loop_inv g v S0 M0 num' st' L' m' \<and> (\<forall>x \<in> marked_set st. num' x = num x) \<and> m' \<le> m
    \<and> marked_set st \<subseteq> marked_set st' \<and> (\<forall>x \<in> set S0. low_ids st' ! x = low_ids st ! x)
    \<and> (\<forall>w \<in> set ws. w \<in> marked_set st' \<and> (w \<in> set S0 \<longrightarrow> m' \<le> num' w))"
  using assms(3-)
proof (induction ws arbitrary: num st L m)
  case Nil
  then show ?case by (intro exI conjI) (assumption | simp)+
next
  case (Cons w ws)
  have e: "(v, w) \<in> edges g" using Cons.prems(2) by simp
  have w: "w < getNumNodes g" using edges_in_range [OF valid e] by simp
  note D = loop_invD [OF Cons.prems(1)]
  let ?first = "if \<not> is_marked st ! w then depthFirstSearch fuel g w st else Inr st"
  let ?m = "\<lambda>st'. if low_ids st' ! w < m then low_ids st' ! w else m"
  from visit_one [OF spec Cons.prems(1) e w Cons.prems(3)]
  obtain num1 st1 L1 where st1: "?first = Inr st1" and inv1: "loop_inv g v S0 M0 num1 st1 L1 (?m st1)"
    and num1: "\<forall>x \<in> marked_set st. num1 x = num x" and mk1: "insert w (marked_set st) \<subseteq> marked_set st1"
    and low1: "\<forall>x \<in> set S0. low_ids st1 ! x = low_ids st ! x" by blast
  have "card (unmarked g st1) \<le> card (unmarked g st)" using mk1 by (intro card_mono) auto
  then have "card (unmarked g st1) \<le> fuel" using Cons.prems(3) by simp
  with Cons.IH [OF inv1] Cons.prems(2) obtain m' st' num' L' where
    v: "visit_adjacent fuel g ws (?m st1) st1 = Inr (m', st')" and inv': "loop_inv g v S0 M0 num' st' L' m'"
    and num': "\<forall>x \<in> marked_set st1. num' x = num1 x" and m': "m' \<le> ?m st1"
    and mk': "marked_set st1 \<subseteq> marked_set st'" and low': "\<forall>x \<in> set S0. low_ids st' ! x = low_ids st1 ! x"
    and ws': "\<forall>w \<in> set ws. w \<in> marked_set st' \<and> (w \<in> set S0 \<longrightarrow> m' \<le> num' w)" by force
  have "w < length (is_marked st)" "w < length (low_ids st1)"
    using w scc_invD(1) [OF D(1)] scc_invD(3) [OF loop_invD(1) [OF inv1]] by auto
  then have run: "visit_adjacent fuel g (w # ws) m st = Inr (m', st')" using st1 v by simp
  have "m' \<le> num' w" if "w \<in> set S0"
  proof -
    have ws1: "w \<in> stack_set st1" using that loop_invD(2) [OF inv1] by simp
    have "low_ids st1 ! w \<le> num1 w" using scc_invD(10) [OF loop_invD(1) [OF inv1] ws1] by auto
    moreover have "m' \<le> low_ids st1 ! w" using m' by (auto split: if_splits)
    ultimately show ?thesis using num' mk1 by auto
  qed
  moreover have "\<forall>x \<in> marked_set st. num' x = num x" using num1 num' mk1 by auto
  moreover have "m' \<le> m" using m' by (auto split: if_splits)
  ultimately show ?case using run inv' ws' mk1 mk' low1 low' by (intro exI conjI) (assumption | force)+
qed

lemma dfs_spec_holds:
  assumes valid: "valid_graph g"
  shows "dfs_spec fuel g"
proof (induction fuel)
  case 0
  have "card (unmarked g st) \<noteq> 0" if "v \<in> unmarked g st" for v st
    using that by (metis card_0_eq empty_iff finite_Diff finite_lessThan)
  then show ?case unfolding dfs_spec_def by blast
next
  case (Suc fuel)
  show ?case unfolding dfs_spec_def
  proof (intro allI impI)
    fix num st v
    assume inv: "scc_inv g num st" and v: "v \<in> unmarked g st" and fuel: "card (unmarked g st) \<le> Suc fuel"
    let ?num = "num(v := preorder_counter st)" and ?st = "enter_node v st"
    have vN: "v < getNumNodes g" and vm: "v \<notin> marked_set st" using v by auto
    note D = scc_invD [OF inv]
    have mk: "marked_set ?st = insert v (marked_set st)" using marked_set_enter vN D(1) by simp
    then have "unmarked g ?st = unmarked g st - {v}" by blast
    then have fuel': "card (unmarked g ?st) \<le> fuel" using v fuel by simp
    have e: "(v, w) \<in> edges g \<longleftrightarrow> w \<in> set (successors g v)" for w by (simp add: edges_def)
    obtain m st2 num' L where
      vis: "visit_adjacent fuel g (successors g v) (preorder_counter st) ?st = Inr (m, st2)"
      and inv2: "loop_inv g v (traversal_stack st) (marked_set st) num' st2 L m"
      and num': "\<forall>x \<in> marked_set ?st. num' x = ?num x"
      and low2: "\<forall>x \<in> stack_set st. low_ids st2 ! x = low_ids ?st ! x"
      and adj: "\<forall>w \<in> set (successors g v). w \<in> marked_set st2 \<and> (w \<in> stack_set st \<longrightarrow> m \<le> num' w)"
      using visit_adjacent_spec [OF Suc.IH valid enter_node_loop_inv [OF inv vN vm] _ fuel'] e by blast
    have vS: "v \<notin> stack_set st" using D(4) vm by blast
    have n: "num' x = num x" if "x \<in> marked_set st" for x using num' mk that vm by auto
    have l: "low_ids st2 ! x = low_ids st ! x" if "x \<in> stack_set st" for x
      using low2 that vS by (cases "x = v") (auto simp: enter_node_def)
    have a: "w \<in> marked_set st2 \<and> (w \<in> stack_set st \<longrightarrow> m \<le> num' w)" if "(v, w) \<in> edges g" for w
      using that adj e by blast
    have vl: "v < length (low_ids st2)" "low_ids st2 ! v = num' v"
      using vN scc_invD(3) loop_invD(1,3) [OF inv2] by auto
    have run: "depthFirstSearch (Suc fuel) g v st =
      (if m < num' v then Inr (st2\<lparr>low_ids := (low_ids st2)[v := m]\<rparr>)
       else and_then (pop_component (getNumNodes g) v (traversal_stack st2) st2)
              (\<lambda>st3. Inr (st3\<lparr>no_of_components := no_of_components st3 + 1\<rparr>)))"
      using vis vN D(1,3) vl by (simp add: getAdjacentNodes_eq enter_node_def)
    show "\<exists>num' st' L. depthFirstSearch (Suc fuel) g v st = Inr st' \<and> dfs_post g num st v num' st' L"
    proof (cases "m < num' v")
      case True
      then show ?thesis using finish_nonroot [OF inv2 n True a l] run by auto
    next
      case False
      from finish_root [OF inv2 n False a l] obtain st3 where
        "pop_component (getNumNodes g) v (traversal_stack st2) st2 = Inr st3"
        "dfs_post g num st v num' (st3\<lparr>no_of_components := no_of_components st3 + 1\<rparr>) []" by blast
      then show ?thesis using run False by auto
    qed
  qed
qed

subsection \<open>The whole graph\<close>

text \<open>A call made with an empty stack leaves the stack empty: the bottom node of the stack cannot
  have a smaller low id than its own number.\<close>

lemma dfs_post_empty_stack:
  assumes post: "dfs_post g num st v num' st' L" and st: "traversal_stack st = []"
  shows "traversal_stack st' = []"
proof (rule ccontr)
  note P = dfs_postD [OF post]
  assume "traversal_stack st' \<noteq> []"
  with P(4,6) st obtain L0 where L: "L = L0 @ [v]" "traversal_stack st' = L0 @ [v]" by auto
  then obtain y where "y \<in> stack_set st'" "num' y < num' v"
    using P(8) [of v] scc_invD(10) [OF P(1), of v] by force
  moreover have "num' v \<le> num' y" if "y \<in> stack_set st'" for y
    using that scc_invD(5) [OF P(1)] L(2) by (auto simp: sorted_wrt_append intro: less_imp_le)
  ultimately show False by fastforce
qed

lemma find_components:
  assumes valid: "valid_graph g" and "scc_inv g num st" and "traversal_stack st = []"
    and "\<And>x. x \<in> set xs \<Longrightarrow> x < getNumNodes g"
  shows "\<exists>num' st'. fold_res (\<lambda>st v. and_then (vec_at (is_marked st) v) (\<lambda>marked.
       if \<not> marked then depthFirstSearch (getNumNodes g) g v st else Inr st)) st xs = Inr st'
    \<and> scc_inv g num' st' \<and> traversal_stack st' = [] \<and> marked_set st \<union> set xs \<subseteq> marked_set st'"
  using assms(2-)
proof (induction xs arbitrary: num st)
  case (Cons v xs)
  have v: "v < getNumNodes g" using Cons.prems(3) by simp
  then have vl: "v < length (is_marked st)" using scc_invD(1) [OF Cons.prems(1)] by simp
  show ?case
  proof (cases "is_marked st ! v")
    case True
    with vl have "v \<in> marked_set st" by (simp add: marked_set_def)
    with True vl Cons.IH [OF Cons.prems(1,2)] Cons.prems(3) show ?thesis by auto
  next
    case False
    then have vu: "v \<in> unmarked g st" using v by (simp add: marked_set_def)
    have "card (unmarked g st) \<le> card {..<getNumNodes g}" by (intro card_mono) auto
    then have "card (unmarked g st) \<le> getNumNodes g" by simp
    then obtain num1 st1 L where dfs: "depthFirstSearch (getNumNodes g) g v st = Inr st1"
      and post: "dfs_post g num st v num1 st1 L"
      using dfs_spec_holds [OF valid, of "getNumNodes g"] Cons.prems(1) vu
      unfolding dfs_spec_def by blast
    have "traversal_stack st1 = []" by (rule dfs_post_empty_stack [OF post Cons.prems(2)])
    with Cons.IH [OF dfs_postD(1) [OF post]] Cons.prems(3) dfs False vl dfs_postD(3) [OF post]
    show ?thesis by fastforce
  qed
qed auto

lemma init_scc_inv: "scc_inv g num (init_scc g)"
proof -
  have "marked_set (init_scc g) = {}" by (auto simp: marked_set_def init_scc_def)
  moreover have "traversal_stack (init_scc g) = []" "preorder_counter (init_scc g) = 0"
    "no_of_components (init_scc g) = 0" "length (is_marked (init_scc g)) = getNumNodes g"
    "length (component_ids (init_scc g)) = getNumNodes g" "length (low_ids (init_scc g)) = getNumNodes g"
    by (simp_all add: init_scc_def)
  ultimately show ?thesis by (intro scc_invI) simp_all
qed

lemma StronglyConnectedComponents_spec:
  assumes "valid_graph g"
  shows "\<exists>scc. StronglyConnectedComponents g = Inr scc
    \<and> length (component_ids scc) = getNumNodes g
    \<and> (\<lambda>x. component_ids scc ! x) ` {..<getNumNodes g} = {..<getTotalComponents scc}
    \<and> (\<forall>x y. x < getNumNodes g \<longrightarrow> y < getNumNodes g \<longrightarrow>
        (component_ids scc ! x = component_ids scc ! y \<longleftrightarrow> reaches g x y \<and> reaches g y x))"
proof -
  obtain num scc where run: "StronglyConnectedComponents g = Inr scc" and inv: "scc_inv g num scc"
    and st: "traversal_stack scc = []" and all: "{..<getNumNodes g} \<subseteq> marked_set scc"
    using find_components [OF assms init_scc_inv, where xs = "[0..<getNumNodes g]"]
    by (auto simp: StronglyConnectedComponents_def findStronglyConnectedComponents_def init_scc_def
        atLeast0LessThan)
  note D = scc_invD [OF inv]
  have c: "completed scc = {..<getNumNodes g}" using all marked_set_subset [OF inv] st by auto
  have "(\<lambda>x. component_ids scc ! x) ` {..<getNumNodes g} = {..<getTotalComponents scc}"
    using D(11,13) unfolding c getTotalComponents_def by (auto simp: image_iff)
  moreover have "component_ids scc ! x = component_ids scc ! y \<longleftrightarrow> reaches g x y \<and> reaches g y x"
    if "x < getNumNodes g" "y < getNumNodes g" for x y
    using D(12) [unfolded c, of x y] that by simp
  ultimately show ?thesis using run D(2) by blast
qed

text \<open>C1. Tarjan's algorithm is correct: on every graph whose edges lead to nodes of the graph the
  constructor terminates without an error; it numbers the components from 0 without gaps, and two
  nodes get the same component id exactly if each reaches the other along edges of the graph.\<close>

theorem StronglyConnectedComponents_correct:
  assumes "valid_graph g"
  shows "\<exists>scc. StronglyConnectedComponents g = Inr scc
    \<and> length (component_ids scc) = getNumNodes g
    \<and> (\<lambda>x. component_ids scc ! x) ` {..<getNumNodes g} = {..<getTotalComponents scc}
    \<and> (\<forall>x y. x < getNumNodes g \<longrightarrow> y < getNumNodes g \<longrightarrow>
        (getComponentId scc x = getComponentId scc y \<longleftrightarrow> reaches g x y \<and> reaches g y x))"
  using StronglyConnectedComponents_spec [OF assms] by (fastforce simp: getComponentId_def)

theorem StronglyConnectedComponents_correct_witness:
  "valid_graph \<lparr>graph_nodes = [\<lparr>transaction_id_payload = 7, outgoing_edges = [1]\<rparr>,
      \<lparr>transaction_id_payload = 8, outgoing_edges = [0]\<rparr>]\<rparr>
   \<and> (\<exists>scc. StronglyConnectedComponents \<lparr>graph_nodes = [\<lparr>transaction_id_payload = 7, outgoing_edges = [1]\<rparr>,
      \<lparr>transaction_id_payload = 8, outgoing_edges = [0]\<rparr>]\<rparr> = Inr scc)"
proof -
  have v: "valid_graph \<lparr>graph_nodes = [\<lparr>transaction_id_payload = 7, outgoing_edges = [1]\<rparr>,
      \<lparr>transaction_id_payload = 8, outgoing_edges = [0]\<rparr>]\<rparr>"
    by (simp add: valid_graph_def getNumNodes_def)
  show ?thesis using v StronglyConnectedComponents_correct [OF v] by blast
qed

lemma component_mapping_fold:
  defines "f \<equiv> \<lambda>(comps :: nat list) (i :: nat) m. (let c = comps ! i in al_put m c (al_get [] m c @ [i]))"
  shows "distinct (map fst (fold (f comps) xs [])) \<and> fst ` set (fold (f comps) xs []) = (!) comps ` set xs
    \<and> (\<forall>c. al_get [] (fold (f comps) xs []) c = filter (\<lambda>i. comps ! i = c) xs)"
  by (induction xs rule: rev_induct) (auto simp: f_def Let_def)

lemma getComponentMapping_spec:
  "\<exists>ids. distinct ids \<and> set ids = set (component_ids scc)
     \<and> getComponentMapping scc =
         map (\<lambda>c. (c, filter (\<lambda>i. component_ids scc ! i = c) [0..<length (component_ids scc)])) ids"
proof -
  let ?m = "getComponentMapping scc" and ?cs = "component_ids scc"
  note spec = component_mapping_fold [of ?cs "[0..<length ?cs]"]
  have keys: "distinct (map fst ?m)" "fst ` set ?m = set ?cs"
    and get: "\<And>c. al_get [] ?m c = filter (\<lambda>i. ?cs ! i = c) [0..<length ?cs]"
    using spec by (simp_all add: getComponentMapping_def) (force simp: set_conv_nth)
  have "map (\<lambda>c. (c, al_get [] ?m c)) (map fst ?m) = ?m"
    using al_get_in [OF keys(1)] by (auto simp: o_def intro!: map_idI)
  then have "?m = map (\<lambda>c. (c, al_get [] ?m c)) (map fst ?m)" by (rule sym)
  then show ?thesis using keys unfolding get by (intro exI [of _ "map fst ?m"]) simp
qed

text \<open>The component mapping partitions the nodes: its keys are exactly the component ids, each
  once, and the entry of a component lists its nodes in increasing order.\<close>

theorem getComponentMapping_correct:
  "\<exists>ids. distinct ids \<and> set ids = set (component_ids scc)
     \<and> getComponentMapping scc =
         map (\<lambda>c. (c, filter (\<lambda>i. component_ids scc ! i = c) [0..<length (component_ids scc)])) ids"
  by (rule getComponentMapping_spec)

end
