(* ===== verification/CycleDetectors.thy ===== *)
theory CycleDetectors
  imports StronglyConnected
begin

text \<open>
  The choice of deadlock victims (\<^verbatim>\<open>CycleDetector\<close>): inside every strongly connected component with
  more than one node, nodes are removed until the remaining ones pass the cycle check.  The
  iteration orders of the unordered containers are parameters: \<open>set_order\<close> for the set of nodes of
  a component and \<open>map_order\<close> for the component mapping.  Erasing an element of an unordered set
  keeps the relative order of the others, so the set is a list from which the head is dropped.
\<close>

section \<open>Operations\<close>

text \<open>The loop over the adjacent nodes inside \<^verbatim>\<open>hasCycle\<close>; \<open>None\<close> is \<^verbatim>\<open>return true\<close>.\<close>

fun scan_adjacent :: "nat list \<Rightarrow> nat set \<Rightarrow> nat list \<Rightarrow> nat list \<Rightarrow> nat list option" where
  "scan_adjacent nodes visited [] to_visit = Some to_visit"
| "scan_adjacent nodes visited (a # as) to_visit =
     (if a \<in> visited then None
      else if a \<in> set nodes \<and> a \<notin> visited then scan_adjacent nodes visited as (a # to_visit)
      else scan_adjacent nodes visited as to_visit)"

lemma scan_adjacent_Some:
  "scan_adjacent nodes visited as stack = Some stack' \<longleftrightarrow>
     set as \<inter> visited = {} \<and> stack' = rev (filter (\<lambda>a. a \<in> set nodes) as) @ stack"
  by (induction as arbitrary: stack) auto

text \<open>The inner \<^verbatim>\<open>while (!to_visit.empty())\<close> loop; the result is the set of visited nodes, or \<open>None\<close>
  when a cycle was reported.  A pop either visits a new node or drops one of the finitely many
  entries of the stack that were visited in the meantime.\<close>

function visit_loop :: "DirectedGraph \<Rightarrow> nat list \<Rightarrow> nat set \<Rightarrow> nat list \<Rightarrow> nat set option result" where
  "visit_loop g nodes visited [] = Inr (Some visited)"
| "visit_loop g nodes visited (current # to_visit) =
     and_then (getAdjacentNodes g current) (\<lambda>adjacents.
       (case scan_adjacent nodes (insert current visited) adjacents to_visit of
          None \<Rightarrow> Inr None
        | Some to_visit' \<Rightarrow> visit_loop g nodes (insert current visited) to_visit'))"
  by pat_completeness auto
termination
proof (relation "measures [\<lambda>(g, nodes, visited, stack). card ((set nodes \<union> set stack) - visited),
    \<lambda>(g, nodes, visited, stack). length (filter (\<lambda>x. x \<in> visited) stack)]", goal_cases)
  case 1
  then show ?case by simp
next
  case (2 g nodes visited current to_visit adjacents to_visit')
  then have dis: "set adjacents \<inter> insert current visited = {}"
    and st: "to_visit' = rev (filter (\<lambda>a. a \<in> set nodes) adjacents) @ to_visit"
    by (auto simp: scan_adjacent_Some)
  let ?A = "(set nodes \<union> set (current # to_visit)) - visited"
    and ?B = "(set nodes \<union> set to_visit') - insert current visited"
  have BA: "?B = ?A - {current}" by (auto simp: st)
  show ?case
  proof (cases "current \<in> visited")
    case True
    then have "?A - {current} = ?A" by simp
    moreover have "filter (\<lambda>x. x \<in> visited) (filter (\<lambda>a. a \<in> set nodes) adjacents) = []"
      using dis by (auto simp: filter_empty_conv)
    ultimately show ?thesis using True BA by (simp add: st insert_absorb rev_filter [symmetric])
  next
    case False
    then have "card ?B < card ?A" unfolding BA by (intro card_Diff1_less) auto
    then show ?thesis by simp
  qed
qed

fun has_cycle_loop :: "DirectedGraph \<Rightarrow> nat list \<Rightarrow> nat list \<Rightarrow> nat set \<Rightarrow> bool result" where
  "has_cycle_loop g nodes [] visited = Inr False"
| "has_cycle_loop g nodes (n # ns) visited =
     (if n \<in> visited then has_cycle_loop g nodes ns visited
      else and_then (visit_loop g nodes visited [n]) (\<lambda>r.
        (case r of None \<Rightarrow> Inr True | Some visited' \<Rightarrow> has_cycle_loop g nodes ns visited')))"

definition hasCycle :: "DirectedGraph \<Rightarrow> nat list \<Rightarrow> bool result" where
  "hasCycle g nodes = has_cycle_loop g nodes nodes {}"

definition chooseVictim :: "nat list \<Rightarrow> nat result" where
  "chooseVictim nodes_set = vec_at nodes_set 0"

text \<open>The loop of \<^verbatim>\<open>chooseVictimsInComponent\<close>.\<close>

fun victims_loop :: "DirectedGraph \<Rightarrow> nat list \<Rightarrow> nat list result" where
  "victims_loop g nodes_set =
     and_then (hasCycle g nodes_set) (\<lambda>cyclic.
       if \<not> cyclic then Inr []
       else and_then (chooseVictim nodes_set) (\<lambda>victim.
         (case nodes_set of [] \<Rightarrow> Inl UndefinedBehaviour
          | _ # rest \<Rightarrow> and_then (victims_loop g rest) (\<lambda>targets. Inr (victim # targets)))))"

definition chooseVictimsInComponent ::
    "(nat list \<Rightarrow> nat list) \<Rightarrow> DirectedGraph \<Rightarrow> nat list \<Rightarrow> nat list result" where
  "chooseVictimsInComponent set_order g nodes = victims_loop g (set_order (remdups nodes))"

definition chooseVictimsToBreakCycle ::
    "(nat list \<Rightarrow> nat list) \<Rightarrow> ((nat \<times> nat list) list \<Rightarrow> (nat \<times> nat list) list) \<Rightarrow> DirectedGraph
     \<Rightarrow> nat list result" where
  "chooseVictimsToBreakCycle set_order map_order g =
     and_then (StronglyConnectedComponents g) (\<lambda>scc.
       fold_res (\<lambda>nodes_to_kill entry.
         if length (snd entry) = 1 then Inr nodes_to_kill
         else and_then (chooseVictimsInComponent set_order g (snd entry)) (\<lambda>nodes.
           Inr (nodes_to_kill @ nodes)))
         [] (map_order (getComponentMapping scc)))"

declare victims_loop.simps [simp del] visit_loop.simps [simp del]

section \<open>The cycle check\<close>

abbreviation induced :: "DirectedGraph \<Rightarrow> nat set \<Rightarrow> (nat \<times> nat) set" where
  "induced g V \<equiv> edges g \<inter> V \<times> V"

lemma acyclic_add_sink:
  assumes ac: "acyclic (E \<inter> V \<times> V)" and sink: "\<And>y. (x, y) \<in> E \<Longrightarrow> y \<notin> insert x V"
  shows "acyclic (E \<inter> insert x V \<times> insert x V)"
proof (cases "x \<in> V")
  case True
  then show ?thesis using ac by (simp add: insert_absorb)
next
  case False
  let ?R = "E \<inter> insert x V \<times> insert x V"
  have split: "(a, b) \<in> (E \<inter> V \<times> V)\<^sup>+ \<or> b = x" if "(a, b) \<in> ?R\<^sup>+" for a b
    using that
  proof (induction rule: trancl_induct)
    case (base b)
    then show ?case using sink by blast
  next
    case (step b c)
    then show ?case using sink by (blast intro: trancl_into_trancl)
  qed
  have "(a, a) \<notin> ?R\<^sup>+" for a
  proof
    assume c: "(a, a) \<in> ?R\<^sup>+"
    with split ac have "a = x" by (auto simp: acyclic_def)
    with c obtain y where "(x, y) \<in> ?R" by (meson tranclD)
    with sink show False by blast
  qed
  then show ?thesis by (simp add: acyclic_def)
qed

lemma visit_loop_spec:
  assumes "set nodes \<subseteq> {..<getNumNodes g}" and "set stack \<subseteq> set nodes" and "visited \<subseteq> set nodes"
    and "acyclic (induced g visited)"
  shows "\<exists>r. visit_loop g nodes visited stack = Inr r
    \<and> (\<forall>V. r = Some V \<longrightarrow> visited \<union> set stack \<subseteq> V \<and> V \<subseteq> set nodes \<and> acyclic (induced g V))"
  using assms
proof (induction g nodes visited stack rule: visit_loop.induct)
  case (1 g nodes visited)
  then show ?case by (simp add: visit_loop.simps)
next
  case (2 g nodes visited current to_visit)
  have cur: "current < getNumNodes g" "current \<in> set nodes" using 2(2,3) by auto
  then have adj: "getAdjacentNodes g current = Inr (successors g current)" by (simp add: getAdjacentNodes_eq)
  show ?case
  proof (cases "scan_adjacent nodes (insert current visited) (successors g current) to_visit")
    case None
    then show ?thesis by (simp add: adj visit_loop.simps)
  next
    case (Some stack')
    then have dis: "set (successors g current) \<inter> insert current visited = {}"
      and st: "stack' = rev (filter (\<lambda>a. a \<in> set nodes) (successors g current)) @ to_visit"
      by (simp_all add: scan_adjacent_Some)
    have "acyclic (induced g (insert current visited))"
      using 2(5) dis by (intro acyclic_add_sink) (auto simp: edges_def)
    from 2(1) [OF adj Some 2(2) _ _ this] 2(3,4) cur st obtain r where
      "visit_loop g nodes (insert current visited) stack' = Inr r"
      "\<forall>V. r = Some V \<longrightarrow> insert current visited \<union> set stack' \<subseteq> V \<and> V \<subseteq> set nodes \<and> acyclic (induced g V)"
      by fastforce
    then show ?thesis using Some st by (auto simp: adj visit_loop.simps)
  qed
qed

lemma has_cycle_loop_spec:
  assumes "set nodes \<subseteq> {..<getNumNodes g}" and "set ns \<subseteq> set nodes" and "visited \<subseteq> set nodes"
    and "acyclic (induced g visited)"
  shows "\<exists>b. has_cycle_loop g nodes ns visited = Inr b \<and> (\<not> b \<longrightarrow> acyclic (induced g (visited \<union> set ns)))"
  using assms(2-)
proof (induction ns arbitrary: visited)
  case Nil
  then show ?case by auto
next
  case (Cons n ns)
  show ?case
  proof (cases "n \<in> visited")
    case True
    then have "visited \<union> set (n # ns) = visited \<union> set ns" by auto
    then show ?thesis using Cons.IH [of visited] Cons.prems True by simp
  next
    case False
    from visit_loop_spec [of nodes g "[n]" visited] assms(1) Cons.prems obtain r where
      r: "visit_loop g nodes visited [n] = Inr r"
      "\<And>V. r = Some V \<Longrightarrow> visited \<union> {n} \<subseteq> V \<and> V \<subseteq> set nodes \<and> acyclic (induced g V)" by auto
    show ?thesis
    proof (cases r)
      case None
      then show ?thesis using False r(1) by auto
    next
      case (Some V)
      with r Cons.IH [of V] Cons.prems obtain b where b: "has_cycle_loop g nodes ns V = Inr b"
        "\<not> b \<longrightarrow> acyclic (induced g (V \<union> set ns))" by auto
      have "induced g (visited \<union> set (n # ns)) \<subseteq> induced g (V \<union> set ns)" using r(2) [OF Some] by auto
      with b show ?thesis using False r(1) Some by (auto intro: acyclic_subset)
    qed
  qed
qed

lemma hasCycle_spec:
  assumes "set nodes \<subseteq> {..<getNumNodes g}"
  shows "\<exists>b. hasCycle g nodes = Inr b \<and> (\<not> b \<longrightarrow> acyclic (induced g (set nodes)))"
  using has_cycle_loop_spec [OF assms, of nodes "{}"] by (simp add: hasCycle_def acyclic_def)

text \<open>\<^verbatim>\<open>hasCycle\<close> never misses a cycle: on every set of nodes of the graph it returns, and when it
  answers false the subgraph induced by the nodes has no cycle, not even a self-loop.\<close>

theorem hasCycle_complete:
  assumes "set nodes \<subseteq> {..<getNumNodes g}"
  shows "\<exists>b. hasCycle g nodes = Inr b \<and> (\<not> b \<longrightarrow> acyclic (induced g (set nodes)))"
  using assms by (rule hasCycle_spec)

section \<open>Victims\<close>

definition iteration_order :: "('a list \<Rightarrow> 'a list) \<Rightarrow> bool" where
  "iteration_order f \<longleftrightarrow> (\<forall>xs. mset (f xs) = mset xs)"

lemma iteration_order_set: "iteration_order f \<Longrightarrow> set (f xs) = set xs"
  unfolding iteration_order_def by (metis set_mset_mset)

lemma iteration_order_id [simp]: "iteration_order (\<lambda>xs. xs)"
  by (simp add: iteration_order_def)

lemma victims_loop_spec:
  assumes "set nodes \<subseteq> {..<getNumNodes g}"
  shows "\<exists>vs rest. victims_loop g nodes = Inr vs \<and> nodes = vs @ rest \<and> acyclic (induced g (set rest))"
  using assms
proof (induction nodes)
  case Nil
  then show ?case by (simp add: victims_loop.simps hasCycle_def acyclic_def)
next
  case (Cons n ns)
  obtain b where b: "hasCycle g (n # ns) = Inr b" "\<not> b \<longrightarrow> acyclic (induced g (set (n # ns)))"
    using hasCycle_spec [OF Cons.prems] by blast
  obtain vs rest where IH: "victims_loop g ns = Inr vs" "ns = vs @ rest" "acyclic (induced g (set rest))"
    using Cons.IH Cons.prems by auto
  show ?case
  proof (cases b)
    case True
    then have "victims_loop g (n # ns) = Inr (n # vs)"
      using b(1) IH(1) by (simp add: victims_loop.simps [of g "n # ns"] chooseVictim_def)
    with IH(2,3) show ?thesis by auto
  next
    case False
    then have "victims_loop g (n # ns) = Inr []" using b(1) by (simp add: victims_loop.simps [of g "n # ns"])
    with False b(2) show ?thesis by blast
  qed
qed

text \<open>A cycle stays inside one strongly connected component.\<close>

lemma cycle_in_component:
  assumes "(x, y) \<in> R\<^sup>+" and "(y, x) \<in> R\<^sup>*"
  shows "(x, y) \<in> (R \<inter> {z. (x, z) \<in> R\<^sup>* \<and> (z, x) \<in> R\<^sup>*} \<times> {z. (x, z) \<in> R\<^sup>* \<and> (z, x) \<in> R\<^sup>*})\<^sup>+"
    (is "_ \<in> ?R\<^sup>+")
  using assms
proof (induction rule: trancl_induct)
  case (base y)
  then show ?case by (intro r_into_trancl) auto
next
  case (step y z)
  have "(y, x) \<in> R\<^sup>*" using step.hyps(2) step.prems by (rule converse_rtrancl_into_rtrancl)
  then have "(x, y) \<in> ?R\<^sup>+" by (rule step.IH)
  moreover have "(y, z) \<in> ?R"
    using step.hyps \<open>(y, x) \<in> R\<^sup>*\<close> step.prems by (auto intro: trancl_into_rtrancl rtrancl_into_rtrancl)
  ultimately show ?case by (rule trancl_into_trancl)
qed

lemma acyclic_by_components:
  assumes "\<And>x. acyclic (R \<inter> {z. (x, z) \<in> R\<^sup>* \<and> (z, x) \<in> R\<^sup>*} \<times> {z. (x, z) \<in> R\<^sup>* \<and> (z, x) \<in> R\<^sup>*})"
  shows "acyclic R"
proof (rule acyclicI, rule allI, rule notI)
  fix x assume c: "(x, x) \<in> R\<^sup>+"
  show False using cycle_in_component [OF c] assms [of x] by (auto simp: acyclic_def)
qed

lemma victims_fold:
  assumes ord: "iteration_order set_order" and "\<And>e. e \<in> set es \<Longrightarrow> set (snd e) \<subseteq> {..<getNumNodes g}"
  shows "\<exists>vs. fold_res (\<lambda>nodes_to_kill entry.
         if length (snd entry) = 1 then Inr nodes_to_kill
         else and_then (chooseVictimsInComponent set_order g (snd entry)) (\<lambda>nodes.
           Inr (nodes_to_kill @ nodes))) acc es = Inr (acc @ vs)
    \<and> (\<forall>v \<in> set vs. \<exists>e \<in> set es. length (snd e) \<noteq> 1 \<and> v \<in> set (snd e))
    \<and> (\<forall>e \<in> set es. length (snd e) \<noteq> 1 \<longrightarrow> acyclic (induced g (set (snd e) - set vs)))"
  using assms(2)
proof (induction es arbitrary: acc)
  case Nil
  then show ?case by simp
next
  case (Cons e es)
  show ?case
  proof (cases "length (snd e) = 1")
    case True
    then show ?thesis using Cons.IH [of acc] Cons.prems by fastforce
  next
    case False
    let ?nodes = "set_order (remdups (snd e))"
    have ns: "set ?nodes = set (snd e)" by (simp add: iteration_order_set [OF ord])
    then obtain ws rest where ws: "victims_loop g ?nodes = Inr ws" "?nodes = ws @ rest"
      "acyclic (induced g (set rest))"
      using victims_loop_spec [of ?nodes g] Cons.prems [of e] by auto
    from Cons.IH [of "acc @ ws"] Cons.prems obtain vs where
      vs: "fold_res (\<lambda>nodes_to_kill entry.
         if length (snd entry) = 1 then Inr nodes_to_kill
         else and_then (chooseVictimsInComponent set_order g (snd entry)) (\<lambda>nodes.
           Inr (nodes_to_kill @ nodes))) (acc @ ws) es = Inr (acc @ ws @ vs)"
      "\<forall>v \<in> set vs. \<exists>e \<in> set es. length (snd e) \<noteq> 1 \<and> v \<in> set (snd e)"
      "\<forall>e \<in> set es. length (snd e) \<noteq> 1 \<longrightarrow> acyclic (induced g (set (snd e) - set vs))" by auto
    have sub: "set ws \<union> set rest = set (snd e)" using ns ws(2) by (metis set_append)
    have "induced g (set (snd e) - set (ws @ vs)) \<subseteq> induced g (set rest)" using sub by auto
    then have a: "acyclic (induced g (set (snd e) - set (ws @ vs)))" using ws(3) by (rule acyclic_subset [rotated])
    have b: "acyclic (induced g (set (snd e') - set (ws @ vs)))" if "e' \<in> set es" "length (snd e') \<noteq> 1" for e'
      by (rule acyclic_subset [OF vs(3) [rule_format, OF that]]) auto
    have c: "\<forall>v \<in> set (ws @ vs). \<exists>e' \<in> set (e # es). length (snd e') \<noteq> 1 \<and> v \<in> set (snd e')"
      using vs(2) sub False by auto
    have "chooseVictimsInComponent set_order g (snd e) = Inr ws"
      by (simp add: chooseVictimsInComponent_def ws(1))
    with False vs(1) a b c show ?thesis by (intro exI [of _ "ws @ vs"]) simp
  qed
qed

lemma other_element:
  assumes "distinct xs" and "x \<in> set xs" and "length xs \<noteq> 1"
  shows "\<exists>y \<in> set xs. y \<noteq> x"
proof (rule ccontr)
  assume "\<not> ?thesis"
  with assms(2) have "set xs = {x}" by blast
  with distinct_card [OF assms(1)] assms(3) show False by simp
qed

lemma reaches_in_range:
  assumes "valid_graph g" and "reaches g x y" and "x \<noteq> y"
  shows "x < getNumNodes g" and "y < getNumNodes g"
  using assms edges_in_range by (auto elim: rtranclE converse_rtranclE)

lemma chooseVictims_spec:
  assumes valid: "valid_graph g" and ord: "iteration_order set_order" "iteration_order map_order"
  shows "\<exists>vs. chooseVictimsToBreakCycle set_order map_order g = Inr vs
    \<and> acyclic (induced g (- set vs) - Id)
    \<and> (\<forall>v \<in> set vs. v < getNumNodes g \<and> (v, v) \<in> (edges g - Id)\<^sup>+)"
proof -
  let ?N = "getNumNodes g"
  from StronglyConnectedComponents_spec [OF valid] obtain scc where
    scc: "StronglyConnectedComponents g = Inr scc" "length (component_ids scc) = ?N"
    and comp: "\<And>x y. \<lbrakk>x < ?N; y < ?N\<rbrakk> \<Longrightarrow>
      component_ids scc ! x = component_ids scc ! y \<longleftrightarrow> reaches g x y \<and> reaches g y x" by blast
  define nodes_of where "nodes_of c = filter (\<lambda>i. component_ids scc ! i = c) [0..<?N]" for c
  obtain ids where ids: "set ids = set (component_ids scc)"
    and map: "getComponentMapping scc = map (\<lambda>c. (c, nodes_of c)) ids"
    using getComponentMapping_spec [of scc] unfolding scc(2) nodes_of_def by blast
  define es where "es = map_order (getComponentMapping scc)"
  have es: "set es = (\<lambda>c. (c, nodes_of c)) ` set (component_ids scc)"
    unfolding es_def by (simp add: iteration_order_set [OF ord(2)] map ids)
  have "set (snd e) \<subseteq> {..<?N}" if "e \<in> set es" for e using that by (auto simp: es nodes_of_def)
  from victims_fold [OF ord(1) this, of es "[]"] obtain vs where
    run: "chooseVictimsToBreakCycle set_order map_order g = Inr vs"
    and vs: "\<forall>v \<in> set vs. \<exists>e \<in> set es. length (snd e) \<noteq> 1 \<and> v \<in> set (snd e)"
    and ac: "\<forall>e \<in> set es. length (snd e) \<noteq> 1 \<longrightarrow> acyclic (induced g (set (snd e) - set vs))"
    unfolding chooseVictimsToBreakCycle_def es_def scc(1) by auto
  have victim: "v < ?N \<and> (v, v) \<in> (edges g - Id)\<^sup>+" if v: "v \<in> set vs" for v
  proof -
    from vs v obtain c where c: "length (nodes_of c) \<noteq> 1" "v \<in> set (nodes_of c)" by (auto simp: es)
    have "distinct (nodes_of c)" by (simp add: nodes_of_def)
    from other_element [OF this c(2,1)] obtain w where w: "w \<in> set (nodes_of c)" "w \<noteq> v" by blast
    with c(2) comp [of v w] have r: "v < ?N" "reaches g v w" "reaches g w v" by (auto simp: nodes_of_def)
    then have "(v, w) \<in> (edges g - Id)\<^sup>*" "(w, v) \<in> (edges g - Id)\<^sup>*"
      by (simp_all add: rtrancl_r_diff_Id)
    with w(2) r(1) show ?thesis by (meson rtranclD rtrancl_trancl_trancl)
  qed
  let ?R = "induced g (- set vs) - Id"
  have "acyclic ?R"
  proof (rule acyclic_by_components)
    fix x
    let ?C = "{z. (x, z) \<in> ?R\<^sup>* \<and> (z, x) \<in> ?R\<^sup>*}"
    have C: "reaches g x z \<and> reaches g z x" if "z \<in> ?C" for z
      using that rtrancl_mono [of ?R "edges g"] by auto
    show "acyclic (?R \<inter> ?C \<times> ?C)"
    proof (cases "?C \<subseteq> {x}")
      case True
      then have "?R \<inter> ?C \<times> ?C = {}" by auto
      then show ?thesis by (simp add: acyclic_def)
    next
      case False
      then obtain z where z: "z \<in> ?C" "z \<noteq> x" by blast
      let ?c = "component_ids scc ! x"
      have xN: "x < ?N" using C [OF z(1)] z(2) reaches_in_range [OF valid] by blast
      have inC: "a \<in> set (nodes_of ?c)" if "a \<in> ?C" for a
        using C [OF that] comp [of a x] xN reaches_in_range [OF valid, of x a]
        by (cases "a = x") (auto simp: nodes_of_def)
      have "length (nodes_of ?c) \<noteq> 1"
        using inC [OF z(1)] inC [of x] z(2) by (auto simp: length_Suc_conv)
      moreover have "(?c, nodes_of ?c) \<in> set es" using xN scc(2) by (auto simp: es)
      ultimately have "acyclic (induced g (set (nodes_of ?c) - set vs))" using ac by force
      moreover have "?R \<inter> ?C \<times> ?C \<subseteq> induced g (set (nodes_of ?c) - set vs)" using inC by auto
      ultimately show ?thesis by (rule acyclic_subset)
    qed
  qed
  with run victim show ?thesis by blast
qed

text \<open>C10. Killing the chosen victims breaks every cycle of the wait-for graph between different
  transactions, whatever the iteration orders of the unordered containers: the choice returns, the
  graph without the victims has no cycle except self-loops, and every victim lies on a cycle
  through another node, so that nothing is killed when there is no deadlock.\<close>

theorem chooseVictimsToBreakCycle_correct:
  assumes "valid_graph g" and "iteration_order set_order" and "iteration_order map_order"
  shows "\<exists>vs. chooseVictimsToBreakCycle set_order map_order g = Inr vs
    \<and> acyclic (edges g \<inter> (- set vs) \<times> (- set vs) - Id)
    \<and> (\<forall>v \<in> set vs. v < getNumNodes g \<and> (v, v) \<in> (edges g - Id)\<^sup>+)"
  using assms by (rule chooseVictims_spec)

theorem chooseVictimsToBreakCycle_correct_witness:
  "valid_graph \<lparr>graph_nodes = [\<lparr>transaction_id_payload = 7, outgoing_edges = [1]\<rparr>,
      \<lparr>transaction_id_payload = 8, outgoing_edges = [0]\<rparr>]\<rparr>
   \<and> iteration_order rev
   \<and> (\<exists>vs. chooseVictimsToBreakCycle rev rev \<lparr>graph_nodes = [\<lparr>transaction_id_payload = 7, outgoing_edges = [1]\<rparr>,
      \<lparr>transaction_id_payload = 8, outgoing_edges = [0]\<rparr>]\<rparr> = Inr vs)"
proof -
  have v: "valid_graph \<lparr>graph_nodes = [\<lparr>transaction_id_payload = 7, outgoing_edges = [1]\<rparr>,
      \<lparr>transaction_id_payload = 8, outgoing_edges = [0]\<rparr>]\<rparr>"
    by (simp add: valid_graph_def getNumNodes_def)
  have o: "iteration_order rev" by (simp add: iteration_order_def)
  have o2: "iteration_order rev" by (simp add: iteration_order_def)
  show ?thesis using v o chooseVictimsToBreakCycle_correct [OF v o o2] by blast
qed

theorem hasCycle_complete_witness:
  "set [0, 1 :: nat] \<subseteq> {..<getNumNodes \<lparr>graph_nodes = [\<lparr>transaction_id_payload = 7, outgoing_edges = [1]\<rparr>,
      \<lparr>transaction_id_payload = 8, outgoing_edges = []\<rparr>]\<rparr>}
   \<and> (\<exists>b. hasCycle \<lparr>graph_nodes = [\<lparr>transaction_id_payload = 7, outgoing_edges = [1]\<rparr>,
      \<lparr>transaction_id_payload = 8, outgoing_edges = []\<rparr>]\<rparr> [0, 1] = Inr b)"
proof -
  have r: "set [0, 1 :: nat] \<subseteq> {..<getNumNodes \<lparr>graph_nodes = [\<lparr>transaction_id_payload = 7, outgoing_edges = [1]\<rparr>,
      \<lparr>transaction_id_payload = 8, outgoing_edges = []\<rparr>]\<rparr>}" by (simp add: getNumNodes_def)
  show ?thesis using r hasCycle_complete [OF r] by blast
qed

section \<open>The check is not exact\<close>

text \<open>Four transactions: 0 waits for 1 and 2, both wait for 3, and 3 waits for 0.\<close>

definition joined_cycles :: DirectedGraph where
  "joined_cycles = \<lparr>graph_nodes = [\<lparr>transaction_id_payload = 0, outgoing_edges = [1, 2]\<rparr>,
     \<lparr>transaction_id_payload = 1, outgoing_edges = [3]\<rparr>, \<lparr>transaction_id_payload = 2, outgoing_edges = [3]\<rparr>,
     \<lparr>transaction_id_payload = 3, outgoing_edges = [0]\<rparr>]\<rparr>"

lemma edges_joined_cycles: "edges joined_cycles = {(0, 1), (0, 2), (1, 3), (2, 3), (3, 0)}"
  by (auto simp: edges_def successors_def getNumNodes_def joined_cycles_def nth_Cons
      split: nat.splits if_splits)

text \<open>\<^verbatim>\<open>hasCycle\<close> takes two paths that meet for a cycle: after the first victim the three
  remaining transactions of this example have no cycle, and still a second one is killed.\<close>

theorem victims_not_minimal:
  "chooseVictimsToBreakCycle (\<lambda>ns. ns) (\<lambda>es. es) joined_cycles = Inr [0, 1]
   \<and> hasCycle joined_cycles [1, 2, 3] = Inr True
   \<and> acyclic (edges joined_cycles \<inter> (- {0}) \<times> (- {0}))"
proof -
  have "edges joined_cycles \<inter> (- {0}) \<times> (- {0}) \<subseteq> less_than" by (auto simp: edges_joined_cycles)
  then have "acyclic (edges joined_cycles \<inter> (- {0}) \<times> (- {0}))"
    by (rule acyclic_subset [OF wf_acyclic [OF wf_less_than]])
  moreover have "chooseVictimsToBreakCycle (\<lambda>ns. ns) (\<lambda>es. es) joined_cycles = Inr [0, 1]" by code_simp
  moreover have "hasCycle joined_cycles [1, 2, 3] = Inr True" by code_simp
  ultimately show ?thesis by blast
qed

end
