(* ===== verification/DeadLockDetectors.thy ===== *)
theory DeadLockDetectors
  imports LockManagers CycleDetectors
begin

text \<open>
  The deadlock detector (\<^verbatim>\<open>DeadLockDetector\<close>): it builds the wait-for graph from the lock table and
  chooses victims.  The map from transactions to nodes is a member that lives as long as the
  detector, while the graph is created anew by every detection; both the correctness of the first
  detection and the failure of a later one follow from this.
\<close>

section \<open>State and operations\<close>

text \<open>The owned graph pointer is null (\<open>None\<close>) outside \<^verbatim>\<open>getAllVictims\<close>.\<close>

record DeadLockDetector =
  wait_for_graph :: "DirectedGraph option"
  tid_node_mapping :: "transaction_id \<rightharpoonup> nat"

definition init_detector :: DeadLockDetector where
  "init_detector = \<lparr>wait_for_graph = None, tid_node_mapping = Map.empty\<rparr>"

definition the_graph :: "DeadLockDetector \<Rightarrow> DirectedGraph result" where
  "the_graph d = (case wait_for_graph d of None \<Rightarrow> Inl NullPointer | Some g \<Rightarrow> Inr g)"

definition addNode :: "DeadLockDetector \<Rightarrow> transaction_id \<Rightarrow> (nat \<times> DeadLockDetector) result" where
  "addNode d tid =
     and_then (the_graph d) (\<lambda>g.
       (let (node, g') = addNodeUnchecked g tid in
        Inr (node, d\<lparr>wait_for_graph := Some g',
                    tid_node_mapping := (if tid_node_mapping d tid = None
                                         then (tid_node_mapping d)(tid \<mapsto> node)
                                         else tid_node_mapping d)\<rparr>)))"

definition getNodeId :: "DeadLockDetector \<Rightarrow> transaction_id \<Rightarrow> (nat \<times> DeadLockDetector) result" where
  "getNodeId d tid =
     (case tid_node_mapping d tid of None \<Rightarrow> addNode d tid | Some node \<Rightarrow> Inr (node, d))"

definition addPendingInfo ::
    "DeadLockDetector \<Rightarrow> transaction_id \<Rightarrow> transaction_id \<Rightarrow> DeadLockDetector result" where
  "addPendingInfo d pending_tid owner_tid =
     and_then (getNodeId d pending_tid) (\<lambda>(pending_node_id, d1).
     and_then (getNodeId d1 owner_tid) (\<lambda>(owner_node_id, d2).
     and_then (the_graph d2) (\<lambda>g.
     and_then (addEdgeUnchecked g pending_node_id owner_node_id) (\<lambda>g'.
       Inr (d2\<lparr>wait_for_graph := Some g'\<rparr>)))))"

definition getAllDependees ::
    "DeadLockDetector \<Rightarrow> transaction_id \<Rightarrow> (transaction_id list \<times> DeadLockDetector) result" where
  "getAllDependees d pending_tid =
     and_then (getNodeId d pending_tid) (\<lambda>(pending_node_id, d1).
     and_then (the_graph d1) (\<lambda>g.
     and_then (getAdjacentNodes g pending_node_id) (\<lambda>nodes.
     and_then (fold_res (\<lambda>tids node. and_then (getDataFromNode g node) (\<lambda>tid. Inr (tids @ [tid]))) [] nodes)
       (\<lambda>transactions. Inr (transactions, d1)))))"

text \<open>The three nested loops of \<open>getAllVictims\<close> over the lock table, innermost first.\<close>

definition pending_step :: "nat \<Rightarrow> DeadLockDetector \<Rightarrow> lock_entry \<Rightarrow> DeadLockDetector result" where
  "pending_step owned_node d pending_lock_info =
     and_then (getNodeId d (fst pending_lock_info)) (\<lambda>(pending_node, d1).
     and_then (the_graph d1) (\<lambda>g.
     and_then (addEdgeUnchecked g pending_node owned_node) (\<lambda>g'.
       Inr (d1\<lparr>wait_for_graph := Some g'\<rparr>))))"

definition owned_step :: "lock_entry list \<Rightarrow> DeadLockDetector \<Rightarrow> lock_entry \<Rightarrow> DeadLockDetector result" where
  "owned_step pending_list d owned_lock_info =
     and_then (getNodeId d (fst owned_lock_info)) (\<lambda>(owned_node, d1).
       fold_res (pending_step owned_node) d1 pending_list)"

definition control_block_step ::
    "DeadLockDetector \<Rightarrow> ResourceId \<times> lock_list_pair \<Rightarrow> DeadLockDetector result" where
  "control_block_step d lock_control_block =
     fold_res (owned_step (snd (snd lock_control_block))) d (fst (snd lock_control_block))"

definition getAllVictims ::
    "(nat list \<Rightarrow> nat list) \<Rightarrow> ((nat \<times> nat list) list \<Rightarrow> (nat \<times> nat list) list) \<Rightarrow> DeadLockDetector
     \<Rightarrow> LockTable \<Rightarrow> (transaction_id list \<times> DeadLockDetector) result" where
  "getAllVictims set_order map_order d t =
     and_then (fold_res control_block_step (d\<lparr>wait_for_graph := Some empty_graph\<rparr>) (lock_map t)) (\<lambda>d1.
     and_then (the_graph d1) (\<lambda>g.
     and_then (chooseVictimsToBreakCycle set_order map_order g) (\<lambda>victim_nodes.
     and_then (fold_res (\<lambda>tids node. and_then (getDataFromNode g node) (\<lambda>tid. Inr (tids @ [tid]))) [] victim_nodes)
       (\<lambda>result_victims. Inr (result_victims, d1\<lparr>wait_for_graph := None\<rparr>)))))"

text \<open>The thread, on the status and the victim buffer it shares with the lock manager: its loop head
  tests for \<^verbatim>\<open>kQuit\<close>, then it spins while the previous batch is not taken, then it detects and
  publishes.\<close>

datatype detector_pc = LoopHead | Spin | Detect | Returned

definition detector_step ::
    "(nat list \<Rightarrow> nat list) \<Rightarrow> ((nat \<times> nat list) list \<Rightarrow> (nat \<times> nat list) list)
     \<Rightarrow> detector_pc \<times> DeadLockDetector \<times> LockManager \<Rightarrow> (detector_pc \<times> DeadLockDetector \<times> LockManager) result"
where
  "detector_step set_order map_order = (\<lambda>(pc, d, s).
     (case pc of
        LoopHead \<Rightarrow> Inr (if detector_status s = kQuit then Returned else Spin, d, s)
      | Spin \<Rightarrow> Inr (if detector_status s = kDone then Spin else Detect, d, s)
      | Detect \<Rightarrow>
          and_then (getAllVictims set_order map_order d (lock_table s)) (\<lambda>(victim_new_batch, d').
            Inr (LoopHead, d', s\<lparr>victim_result := victim_new_batch, detector_status := kDone\<rparr>))
      | Returned \<Rightarrow> Inr (Returned, d, s)))"

section \<open>Building the graph\<close>

definition payloads :: "DirectedGraph \<Rightarrow> transaction_id list" where
  "payloads g = map transaction_id_payload (graph_nodes g)"

text \<open>The map and the nodes of the graph correspond to each other.\<close>

definition detector_inv :: "DeadLockDetector \<Rightarrow> DirectedGraph \<Rightarrow> bool" where
  "detector_inv d g \<longleftrightarrow> wait_for_graph d = Some g \<and> valid_graph g
     \<and> (\<forall>tid n. tid_node_mapping d tid = Some n \<longleftrightarrow> n < getNumNodes g \<and> payloads g ! n = tid)"

definition tid_edges :: "DirectedGraph \<Rightarrow> (transaction_id \<times> transaction_id) set" where
  "tid_edges g = (\<lambda>(u, v). (payloads g ! u, payloads g ! v)) ` edges g"

definition waits_for :: "LockTable \<Rightarrow> (transaction_id \<times> transaction_id) set" where
  "waits_for t = (\<Union>(rid, own, pend) \<in> set (lock_map t). fst ` set pend \<times> fst ` set own)"

lemma length_payloads [simp]: "length (payloads g) = getNumNodes g"
  by (simp add: payloads_def getNumNodes_def)

lemma detector_invD:
  assumes "detector_inv d g"
  shows "wait_for_graph d = Some g" and "valid_graph g"
    and "tid_node_mapping d tid = Some n \<longleftrightarrow> n < getNumNodes g \<and> payloads g ! n = tid"
    and "the_graph d = Inr g"
  using assms by (simp_all add: detector_inv_def the_graph_def)

lemma tid_edges_extend:
  assumes "valid_graph g" and "edges g' = edges g" and "payloads g' = payloads g @ xs"
  shows "tid_edges g' = tid_edges g"
  unfolding tid_edges_def assms(2,3)
  using edges_in_range [OF assms(1)] by (intro image_cong) (auto simp: nth_append)

lemma getNodeId_spec:
  assumes inv: "detector_inv d g"
  shows "\<exists>n d' g' xs. getNodeId d tid = Inr (n, d') \<and> detector_inv d' g' \<and> n < getNumNodes g'
    \<and> payloads g' ! n = tid \<and> payloads g' = payloads g @ xs \<and> tid_edges g' = tid_edges g
    \<and> set (payloads g') = insert tid (set (payloads g))"
proof (cases "tid_node_mapping d tid")
  case None
  let ?g = "snd (addNodeUnchecked g tid)" and ?n = "getNumNodes g"
  let ?d = "d\<lparr>wait_for_graph := Some ?g, tid_node_mapping := (tid_node_mapping d)(tid \<mapsto> ?n)\<rparr>"
  note I = detector_invD [OF inv]
  have p: "payloads ?g = payloads g @ [tid]" by (simp add: payloads_def addNodeUnchecked_def)
  have new: "payloads g ! m \<noteq> tid" if "m < ?n" for m using I(3) [of tid m] None that by auto
  have "detector_inv ?d ?g"
    using I(2) new by (auto simp: detector_inv_def valid_graph_addNode p nth_append I(3) less_Suc_eq)
  moreover have "getNodeId d tid = Inr (?n, ?d)"
    using None fst_addNode [of g tid]
    by (simp add: getNodeId_def addNode_def I(4) case_prod_beta Let_def del: fst_addNode)
  moreover have "tid_edges ?g = tid_edges g" using tid_edges_extend [OF I(2) _ p] by simp
  ultimately show ?thesis using p
    by (intro exI [of _ ?n] exI [of _ ?d] exI [of _ ?g] exI [of _ "[tid]"]) (simp add: nth_append)
next
  case (Some n)
  with detector_invD(3) [OF inv, of tid n] have "n < getNumNodes g" "payloads g ! n = tid" by auto
  moreover from this have "tid \<in> set (payloads g)" by (metis length_payloads nth_mem)
  ultimately show ?thesis using Some inv
    by (intro exI [of _ n] exI [of _ d] exI [of _ g] exI [of _ "[]"]) (auto simp: getNodeId_def)
qed

lemma addEdge_spec:
  assumes inv: "detector_inv d g" and n: "u < getNumNodes g" "v < getNumNodes g"
  shows "\<exists>g'. addEdgeUnchecked g u v = Inr g' \<and> detector_inv (d\<lparr>wait_for_graph := Some g'\<rparr>) g'
    \<and> payloads g' = payloads g \<and> tid_edges g' = insert (payloads g ! u, payloads g ! v) (tid_edges g)"
proof -
  obtain g' where g': "addEdgeUnchecked g u v = Inr g'" using addEdgeUnchecked_eq [OF n(1)] by blast
  note E = addEdge_Inr [OF g']
  have p: "payloads g' = payloads g" using E(3) by (simp add: payloads_def)
  have "detector_inv (d\<lparr>wait_for_graph := Some g'\<rparr>) g'"
    using detector_invD(2,3) [OF inv] E(1,4) n p by (auto simp: detector_inv_def)
  moreover have "tid_edges g' = insert (payloads g ! u, payloads g ! v) (tid_edges g)"
    by (simp add: tid_edges_def E(2) p)
  ultimately show ?thesis using g' p by blast
qed

text \<open>What a loop over part of the lock table does to the graph: it adds the edges \<open>E\<close> and the
  transactions \<open>T\<close>.\<close>

definition graph_grows ::
    "DeadLockDetector \<Rightarrow> DirectedGraph \<Rightarrow> DeadLockDetector result \<Rightarrow> (transaction_id \<times> transaction_id) set
     \<Rightarrow> transaction_id set \<Rightarrow> bool" where
  "graph_grows d g r E T \<longleftrightarrow> (\<exists>d' g' xs. r = Inr d' \<and> detector_inv d' g' \<and> payloads g' = payloads g @ xs
     \<and> tid_edges g' = tid_edges g \<union> E \<and> set (payloads g') = set (payloads g) \<union> T)"

lemma graph_growsE:
  assumes "graph_grows d g r E T"
  obtains d' g' xs where "r = Inr d'" and "detector_inv d' g'" and "payloads g' = payloads g @ xs"
    and "tid_edges g' = tid_edges g \<union> E" and "set (payloads g') = set (payloads g) \<union> T"
  using assms unfolding graph_grows_def by (elim exE conjE) (rule that)

lemma graph_grows_refl: "detector_inv d g \<Longrightarrow> graph_grows d g (Inr d) {} {}"
  unfolding graph_grows_def by auto

lemma graph_grows_fold:
  assumes "detector_inv d g"
    and "\<And>x d g. \<lbrakk>x \<in> set xs; detector_inv d g; P (payloads g)\<rbrakk> \<Longrightarrow> graph_grows d g (f d x) (E x) (T x)"
    and "P (payloads g)" and "\<And>ps qs. P ps \<Longrightarrow> P (ps @ qs)"
  shows "graph_grows d g (fold_res f d xs) (\<Union>x \<in> set xs. E x) (\<Union>x \<in> set xs. T x)"
  using assms(1-3)
proof (induction xs arbitrary: d g)
  case Nil
  then show ?case by (simp add: graph_grows_refl)
next
  case (Cons x xs)
  have "graph_grows d g (f d x) (E x) (T x)" using Cons.prems by simp
  then obtain d1 g1 ys where 1: "f d x = Inr d1" "detector_inv d1 g1" "payloads g1 = payloads g @ ys"
    "tid_edges g1 = tid_edges g \<union> E x" "set (payloads g1) = set (payloads g) \<union> T x"
    by (rule graph_growsE)
  have "P (payloads g1)" using 1(3) Cons.prems(3) assms(4) by simp
  with Cons.IH [OF 1(2)] Cons.prems(2)
  have "graph_grows d1 g1 (fold_res f d1 xs) (\<Union>x \<in> set xs. E x) (\<Union>x \<in> set xs. T x)" by simp
  then obtain d2 g2 zs where 2: "fold_res f d1 xs = Inr d2" "detector_inv d2 g2" "payloads g2 = payloads g1 @ zs"
    "tid_edges g2 = tid_edges g1 \<union> (\<Union>x \<in> set xs. E x)"
    "set (payloads g2) = set (payloads g1) \<union> (\<Union>x \<in> set xs. T x)" by (rule graph_growsE)
  show ?case unfolding graph_grows_def
    by (intro exI [of _ d2] exI [of _ g2] exI [of _ "ys @ zs"])
      (use 1 2 in \<open>simp add: Un_assoc\<close>)
qed

lemma pending_step_grows:
  assumes inv: "detector_inv d g" and own: "u < getNumNodes g" "payloads g ! u = owner"
  shows "graph_grows d g (pending_step u d p) {(fst p, owner)} {fst p}"
proof -
  obtain n d1 g1 xs where 1: "getNodeId d (fst p) = Inr (n, d1)" "detector_inv d1 g1" "n < getNumNodes g1"
    "payloads g1 ! n = fst p" "payloads g1 = payloads g @ xs" "tid_edges g1 = tid_edges g"
    "set (payloads g1) = insert (fst p) (set (payloads g))"
    using getNodeId_spec [OF inv] by blast
  have "getNumNodes g \<le> getNumNodes g1" using 1(5) by (metis le_add1 length_append length_payloads)
  then have u: "u < getNumNodes g1" "payloads g1 ! u = owner" using own 1(5) by (auto simp: nth_append)
  obtain g2 where 2: "addEdgeUnchecked g1 n u = Inr g2" "detector_inv (d1\<lparr>wait_for_graph := Some g2\<rparr>) g2"
    "payloads g2 = payloads g1" "tid_edges g2 = insert (fst p, owner) (tid_edges g)"
    using addEdge_spec [OF 1(2,3) u(1)] u(2) 1(4,6) by auto
  have "pending_step u d p = Inr (d1\<lparr>wait_for_graph := Some g2\<rparr>)"
    using 1(1) 2(1) detector_invD(4) [OF 1(2)] by (simp add: pending_step_def)
  then show ?thesis unfolding graph_grows_def using 2(2-4) 1(5,7)
    by (intro exI [of _ "d1\<lparr>wait_for_graph := Some g2\<rparr>"] exI [of _ g2] exI [of _ xs]) simp
qed

lemma owned_step_grows:
  assumes inv: "detector_inv d g"
  shows "graph_grows d g (owned_step pend d e) (fst ` set pend \<times> {fst e}) (insert (fst e) (fst ` set pend))"
proof -
  obtain n d1 g1 xs where 1: "getNodeId d (fst e) = Inr (n, d1)" "detector_inv d1 g1" "n < getNumNodes g1"
    "payloads g1 ! n = fst e" "payloads g1 = payloads g @ xs" "tid_edges g1 = tid_edges g"
    "set (payloads g1) = insert (fst e) (set (payloads g))"
    using getNodeId_spec [OF inv] by blast
  have "graph_grows d1 g1 (fold_res (pending_step n) d1 pend) (\<Union>p \<in> set pend. {(fst p, fst e)})
      (\<Union>p \<in> set pend. {fst p})"
  proof (rule graph_grows_fold [where P = "\<lambda>ps. n < length ps \<and> ps ! n = fst e", OF 1(2)])
    show "n < length (payloads g1) \<and> payloads g1 ! n = fst e" using 1(3,4) by simp
  qed (auto simp: nth_append intro: pending_step_grows)
  moreover have "(\<Union>p \<in> set pend. {(fst p, fst e)}) = fst ` set pend \<times> {fst e}"
    "(\<Union>p \<in> set pend. {fst p}) = fst ` set pend" by auto
  ultimately have "graph_grows d1 g1 (fold_res (pending_step n) d1 pend) (fst ` set pend \<times> {fst e}) (fst ` set pend)"
    by simp
  then obtain d2 g2 ys where 2: "fold_res (pending_step n) d1 pend = Inr d2" "detector_inv d2 g2"
    "payloads g2 = payloads g1 @ ys" "tid_edges g2 = tid_edges g1 \<union> fst ` set pend \<times> {fst e}"
    "set (payloads g2) = set (payloads g1) \<union> fst ` set pend" by (rule graph_growsE)
  then show ?thesis unfolding graph_grows_def using 1
    by (intro exI [of _ d2] exI [of _ g2] exI [of _ "xs @ ys"]) (simp add: owned_step_def)
qed

abbreviation seen_tids :: "ResourceId \<times> lock_list_pair \<Rightarrow> transaction_id set" where
  "seen_tids b \<equiv> (\<Union>e \<in> set (fst (snd b)). insert (fst e) (fst ` set (snd (snd b))))"

lemma control_block_step_grows:
  assumes inv: "detector_inv d g"
  shows "graph_grows d g (control_block_step d b) (fst ` set (snd (snd b)) \<times> fst ` set (fst (snd b)))
    (seen_tids b)"
proof -
  have "graph_grows d g (fold_res (owned_step (snd (snd b))) d (fst (snd b)))
      (\<Union>e \<in> set (fst (snd b)). fst ` set (snd (snd b)) \<times> {fst e}) (seen_tids b)"
    by (rule graph_grows_fold [where P = "\<lambda>_. True", OF inv]) (simp_all add: owned_step_grows)
  moreover have "(\<Union>e \<in> set (fst (snd b)). fst ` set (snd (snd b)) \<times> {fst e}) =
      fst ` set (snd (snd b)) \<times> fst ` set (fst (snd b))" by auto
  ultimately show ?thesis by (simp add: control_block_step_def)
qed

lemma build_graph:
  obtains d g
  where "fold_res control_block_step (init_detector\<lparr>wait_for_graph := Some empty_graph\<rparr>) (lock_map t) = Inr d"
    and "detector_inv d g" and "tid_edges g = waits_for t"
    and "set (payloads g) = (\<Union>b \<in> set (lock_map t). seen_tids b)"
proof -
  let ?d = "init_detector\<lparr>wait_for_graph := Some empty_graph\<rparr>"
  have inv: "detector_inv ?d empty_graph" by (simp add: detector_inv_def init_detector_def)
  have e: "tid_edges empty_graph = {}" "payloads empty_graph = []"
    by (auto simp: tid_edges_def edges_def successors_def payloads_def empty_graph_def getNumNodes_def)
  have "graph_grows ?d empty_graph (fold_res control_block_step ?d (lock_map t))
      (\<Union>b \<in> set (lock_map t). fst ` set (snd (snd b)) \<times> fst ` set (fst (snd b)))
      (\<Union>b \<in> set (lock_map t). seen_tids b)"
    by (rule graph_grows_fold [where P = "\<lambda>_. True", OF inv]) (simp_all add: control_block_step_grows)
  moreover have "(\<Union>b \<in> set (lock_map t). fst ` set (snd (snd b)) \<times> fst ` set (fst (snd b))) = waits_for t"
    by (simp add: waits_for_def case_prod_beta)
  ultimately have "graph_grows ?d empty_graph (fold_res control_block_step ?d (lock_map t)) (waits_for t)
      (\<Union>b \<in> set (lock_map t). seen_tids b)" by simp
  then show ?thesis
    by (rule graph_growsE) (rule that, assumption, assumption, simp_all only: e list.set(1) Un_empty_left)
qed

section \<open>Detection\<close>

lemma data_fold:
  "list_all (\<lambda>n. n < getNumNodes g) ns \<Longrightarrow>
   fold_res (\<lambda>tids node. and_then (getDataFromNode g node) (\<lambda>tid. Inr (tids @ [tid]))) acc ns =
     Inr (acc @ map (\<lambda>n. payloads g ! n) ns)"
  by (induction ns arbitrary: acc) (simp_all add: getDataFromNode_def payloads_def getNumNodes_def)

lemma trancl_image:
  assumes "(x, y) \<in> R\<^sup>+" and "\<And>a b. (a, b) \<in> R \<Longrightarrow> (f a, f b) \<in> S"
  shows "(f x, f y) \<in> S\<^sup>+"
  using assms(1) by (induction rule: trancl_induct) (auto intro: assms(2) trancl_into_trancl)

lemma payloads_inject:
  assumes "detector_inv d g" and "m < getNumNodes g" and "n < getNumNodes g" and "payloads g ! m = payloads g ! n"
  shows "m = n"
  using assms detector_invD(3) [OF assms(1)] by (metis option.inject)

lemma tid_edges_acyclic:
  assumes inv: "detector_inv d g" and vs: "\<And>v. v \<in> set vs \<Longrightarrow> v < getNumNodes g"
    and ac: "acyclic (induced g (- set vs) - Id)"
  defines "V \<equiv> (\<lambda>n. payloads g ! n) ` set vs"
  shows "acyclic (tid_edges g \<inter> (- V) \<times> (- V) - Id)"
proof (rule acyclicI, rule allI, rule notI)
  fix x assume "(x, x) \<in> (tid_edges g \<inter> (- V) \<times> (- V) - Id)\<^sup>+"
  then have "(the (tid_node_mapping d x), the (tid_node_mapping d x)) \<in> (induced g (- set vs) - Id)\<^sup>+"
  proof (rule trancl_image)
    fix a b assume ab: "(a, b) \<in> tid_edges g \<inter> (- V) \<times> (- V) - Id"
    then obtain u v where e: "(u, v) \<in> edges g" "a = payloads g ! u" "b = payloads g ! v"
      by (auto simp: tid_edges_def)
    note r = edges_in_range [OF detector_invD(2) [OF inv] e(1)]
    have "tid_node_mapping d a = Some u" "tid_node_mapping d b = Some v"
      using detector_invD(3) [OF inv] r e(2,3) by auto
    then show "(the (tid_node_mapping d a), the (tid_node_mapping d b)) \<in> induced g (- set vs) - Id"
      using ab e by (auto simp: V_def)
  qed
  with ac show False by (simp add: acyclic_def)
qed

lemma tid_edges_cycle:
  assumes inv: "detector_inv d g" and "(v, v) \<in> (edges g - Id)\<^sup>+"
  shows "(payloads g ! v, payloads g ! v) \<in> (tid_edges g - Id)\<^sup>+"
  using assms(2)
proof (rule trancl_image)
  fix a b assume ab: "(a, b) \<in> edges g - Id"
  then have "payloads g ! a \<noteq> payloads g ! b"
    using payloads_inject [OF inv, of a b] edges_in_range [OF detector_invD(2) [OF inv], of a b] by auto
  with ab show "(payloads g ! a, payloads g ! b) \<in> tid_edges g - Id" by (force simp: tid_edges_def)
qed

lemma getAllVictims_spec:
  assumes "iteration_order set_order" and "iteration_order map_order"
  shows "\<exists>victims d. getAllVictims set_order map_order init_detector t = Inr (victims, d)
    \<and> acyclic (waits_for t \<inter> (- set victims) \<times> (- set victims) - Id)
    \<and> (\<forall>v \<in> set victims. (v, v) \<in> (waits_for t - Id)\<^sup>+)"
proof -
  obtain d g where b: "fold_res control_block_step (init_detector\<lparr>wait_for_graph := Some empty_graph\<rparr>) (lock_map t) = Inr d"
    and inv: "detector_inv d g" and te: "tid_edges g = waits_for t" by (rule build_graph)
  obtain vs where vs: "chooseVictimsToBreakCycle set_order map_order g = Inr vs"
    and ac: "acyclic (induced g (- set vs) - Id)"
    and v: "\<forall>v \<in> set vs. v < getNumNodes g \<and> (v, v) \<in> (edges g - Id)\<^sup>+"
    using chooseVictims_spec [OF detector_invD(2) [OF inv] assms] by blast
  let ?vs = "map (\<lambda>n. payloads g ! n) vs"
  have "getAllVictims set_order map_order init_detector t = Inr (?vs, d\<lparr>wait_for_graph := None\<rparr>)"
    using b vs v by (simp add: getAllVictims_def detector_invD(4) [OF inv] data_fold list_all_iff)
  moreover have "acyclic (waits_for t \<inter> (- set ?vs) \<times> (- set ?vs) - Id)"
    using tid_edges_acyclic [OF inv _ ac] v te by simp
  moreover have "\<forall>v \<in> set ?vs. (v, v) \<in> (waits_for t - Id)\<^sup>+"
    using tid_edges_cycle [OF inv] v te by auto
  ultimately show ?thesis by blast
qed

text \<open>C5. The first detection of a detector breaks every deadlock between different transactions:
  whatever the lock table and the iteration orders, \<^verbatim>\<open>getAllVictims\<close> returns, without its victims the
  waits-for relation of the lock table has no cycle except self-loops, and every victim is part of
  a deadlock with another transaction.\<close>

theorem getAllVictims_breaks_deadlocks:
  assumes "iteration_order set_order" and "iteration_order map_order"
  shows "\<exists>victims d. getAllVictims set_order map_order init_detector t = Inr (victims, d)
    \<and> acyclic (waits_for t \<inter> (- set victims) \<times> (- set victims) - Id)
    \<and> (\<forall>v \<in> set victims. (v, v) \<in> (waits_for t - Id)\<^sup>+)"
  using assms by (rule getAllVictims_spec)

theorem getAllVictims_breaks_deadlocks_witness:
  "iteration_order rev \<and> (\<exists>victims d. getAllVictims rev rev init_detector empty_lock_table = Inr (victims, d))"
proof -
  have o: "iteration_order rev" by (simp add: iteration_order_def)
  have o2: "iteration_order rev" by (simp add: iteration_order_def)
  show ?thesis using o getAllVictims_breaks_deadlocks [OF o o2, of empty_lock_table] by blast
qed

section \<open>Later detections\<close>

lemma stale_getNodeId: "tid \<in> dom (tid_node_mapping d) \<Longrightarrow> getNodeId d tid = Inr (the (tid_node_mapping d tid), d)"
  by (auto simp: getNodeId_def)

lemma stale_control_block:
  assumes g: "wait_for_graph d = Some empty_graph" and known: "seen_tids (rid, own, pend) \<subseteq> dom (tid_node_mapping d)"
  shows "control_block_step d (rid, own, pend) = (if own \<noteq> [] \<and> pend \<noteq> [] then Inl OutOfRange else Inr d)"
proof (cases "pend = []")
  case True
  have "fold_res (owned_step []) d own = Inr d" if "fst ` set own \<subseteq> dom (tid_node_mapping d)" for own
    using that by (induction own) (simp_all add: owned_step_def stale_getNodeId)
  moreover have "fst ` set own \<subseteq> dom (tid_node_mapping d)" using known by auto
  ultimately show ?thesis using True by (simp add: control_block_step_def)
next
  case False
  then obtain p ps where p: "pend = p # ps" by (cases pend) auto
  have e: "addEdgeUnchecked empty_graph m n = Inl OutOfRange" for m n
    by (simp add: addEdgeUnchecked_def empty_graph_def vec_at_def)
  show ?thesis
  proof (cases own)
    case (Cons o1 os)
    then have "fst o1 \<in> dom (tid_node_mapping d)" "fst p \<in> dom (tid_node_mapping d)" using known p by auto
    then show ?thesis using g Cons p
      by (simp add: control_block_step_def owned_step_def pending_step_def stale_getNodeId the_graph_def e)
  qed (simp add: control_block_step_def)
qed

lemma stale_fold:
  assumes "wait_for_graph d = Some empty_graph" and "\<And>b. b \<in> set bs \<Longrightarrow> seen_tids b \<subseteq> dom (tid_node_mapping d)"
    and "\<exists>b \<in> set bs. fst (snd b) \<noteq> [] \<and> snd (snd b) \<noteq> []"
  shows "fold_res control_block_step d bs = Inl OutOfRange"
  using assms(2,3)
proof (induction bs)
  case (Cons b bs)
  obtain rid own pend where b: "b = (rid, own, pend)" by (cases b)
  have "control_block_step d b = (if own \<noteq> [] \<and> pend \<noteq> [] then Inl OutOfRange else Inr d)"
    unfolding b by (rule stale_control_block [OF assms(1)]) (use Cons.prems(1) [of b] b in simp)
  then show ?case using Cons.IH Cons.prems b by auto
qed simp

text \<open>C24. The map from transactions to nodes survives the graph it describes: when a transaction waits
  and a detection succeeded, the next detection on the same lock table uses the old node numbers
  with a new, empty graph and accesses its node vector out of range.\<close>

theorem second_detection_fails:
  assumes first: "getAllVictims set_order map_order init_detector t = Inr (victims, d)"
    and waiting: "waits_for t \<noteq> {}"
  shows "getAllVictims set_order map_order d t = Inl OutOfRange"
proof -
  obtain d1 g where b: "fold_res control_block_step (init_detector\<lparr>wait_for_graph := Some empty_graph\<rparr>) (lock_map t) = Inr d1"
    and inv: "detector_inv d1 g" and p: "set (payloads g) = (\<Union>b \<in> set (lock_map t). seen_tids b)"
    by (rule build_graph)
  have d: "d = d1\<lparr>wait_for_graph := None\<rparr>" using first b by (auto simp: getAllVictims_def res_simps)
  have "dom (tid_node_mapping d) = set (payloads g)"
    using detector_invD(3) [OF inv] by (auto simp: d dom_def in_set_conv_nth)
  then have known: "\<And>b. b \<in> set (lock_map t) \<Longrightarrow> seen_tids b \<subseteq> dom (tid_node_mapping d)" using p by blast
  have "\<exists>b \<in> set (lock_map t). fst (snd b) \<noteq> [] \<and> snd (snd b) \<noteq> []"
    using waiting by (fastforce simp: waits_for_def)
  then have "fold_res control_block_step (d\<lparr>wait_for_graph := Some empty_graph\<rparr>) (lock_map t) = Inl OutOfRange"
    using known by (intro stale_fold) simp_all
  then show ?thesis by (simp add: getAllVictims_def)
qed

text \<open>Transaction 1 holds a resource exclusively and transaction 2 waits for it.\<close>

definition waiting_table :: LockTable where
  "waiting_table = (let r = resource_id 0 (-1) 0 (-1) in
     snd (putLock (snd (putLock empty_lock_table 1 r kXLockMode)) 2 r kXLockMode))"

theorem second_detection_fails_witness:
  "\<exists>victims d. getAllVictims (\<lambda>ns. ns) (\<lambda>es. es) init_detector waiting_table = Inr (victims, d)
     \<and> waits_for waiting_table \<noteq> {}
     \<and> getAllVictims (\<lambda>ns. ns) (\<lambda>es. es) d waiting_table = Inl OutOfRange"
proof -
  obtain victims d where f: "getAllVictims (\<lambda>ns. ns) (\<lambda>es. es) init_detector waiting_table = Inr (victims, d)"
    using getAllVictims_spec [OF iteration_order_id iteration_order_id, of waiting_table] by blast
  have "waits_for waiting_table = {(2, 1)}" by code_simp
  then have w: "waits_for waiting_table \<noteq> {}" by simp
  show ?thesis using f w second_detection_fails [OF f w] by blast
qed

section \<open>Further limits\<close>

definition upgrade_table :: "transaction_id \<Rightarrow> ResourceId \<Rightarrow> LockTable" where
  "upgrade_table tid rid =
     snd (putLock (snd (putLock empty_lock_table tid rid kSLockMode)) tid rid kXLockMode)"

text \<open>A transaction that waits for itself is never chosen: after a shared lock the same
  transaction's request for an exclusive lock on the resource waits for the shared one, and no
  detection resolves it.\<close>

theorem self_wait_not_broken:
  assumes "iteration_order set_order" and "iteration_order map_order"
  shows "waits_for (upgrade_table tid rid) = {(tid, tid)}
    \<and> (\<exists>d. getAllVictims set_order map_order init_detector (upgrade_table tid rid) = Inr ([], d))"
proof -
  let ?t = "upgrade_table tid rid"
  have "lock_map ?t = [(rid, [(tid, lock_of rid kSLockMode)], [(tid, lock_of rid kXLockMode)])]"
    by (simp add: upgrade_table_def putLock_def empty_lock_table_def lists_of_def set_lists_def)
  then have w: "waits_for ?t = {(tid, tid)}" by (simp add: waits_for_def)
  obtain victims d where v: "getAllVictims set_order map_order init_detector ?t = Inr (victims, d)"
    "\<forall>v \<in> set victims. (v, v) \<in> (waits_for ?t - Id)\<^sup>+"
    using getAllVictims_spec [OF assms(1,2)] by blast
  have "waits_for ?t - Id = {}" by (simp add: w)
  with v(2) have "victims = []" by (cases victims) auto
  with v(1) w show ?thesis by blast
qed

theorem self_wait_not_broken_witness:
  "iteration_order rev \<and> waits_for (upgrade_table 3 (resource_id 0 (-1) 0 (-1))) = {(3, 3)}"
proof -
  have o: "iteration_order rev" by (simp add: iteration_order_def)
  have o2: "iteration_order rev" by (simp add: iteration_order_def)
  show ?thesis using o self_wait_not_broken [OF o o2, of 3 "resource_id 0 (-1) 0 (-1)"] by blast
qed

text \<open>The public edge operations need a graph that does not exist: outside \<^verbatim>\<open>getAllVictims\<close> the
  pointer is null, at the start and after every detection, so that \<^verbatim>\<open>addPendingInfo\<close> and
  \<^verbatim>\<open>getAllDependees\<close> dereference it.\<close>

theorem edge_operations_null:
  assumes "d = init_detector \<or> (\<exists>d0 t victims. getAllVictims set_order map_order d0 t = Inr (victims, d))"
  shows "addPendingInfo d p q = Inl NullPointer \<and> getAllDependees d p = Inl NullPointer"
proof -
  have n: "wait_for_graph d = None"
    using assms by (auto simp: init_detector_def getAllVictims_def res_simps)
  then have "getNodeId d tid = (case tid_node_mapping d tid of None \<Rightarrow> Inl NullPointer | Some n \<Rightarrow> Inr (n, d))" for tid
    by (simp add: getNodeId_def addNode_def the_graph_def split: option.split)
  then show ?thesis using n
    by (simp add: addPendingInfo_def getAllDependees_def the_graph_def split: option.splits)
qed

theorem edge_operations_null_witness: "addPendingInfo init_detector 1 2 = Inl NullPointer"
  using edge_operations_null [of init_detector "\<lambda>ns. ns" "\<lambda>es. es" 1 2] by simp

text \<open>A request to quit can be lost: when \<^verbatim>\<open>kQuit\<close> is stored while the thread spins, the thread
  leaves the spin loop, detects once more and overwrites the request with \<^verbatim>\<open>kDone\<close>.\<close>

theorem quit_request_lost:
  assumes "detector_status s = kQuit"
    and "and_then (detector_step set_order map_order (Spin, d, s)) (detector_step set_order map_order) = Inr (pc, d', s')"
  shows "pc = LoopHead \<and> detector_status s' = kDone"
  using assms by (auto simp: detector_step_def res_simps)

theorem quit_request_lost_witness:
  "\<exists>pc d' s'. and_then (detector_step (\<lambda>ns. ns) (\<lambda>es. es) (Spin, init_detector, init_lock_manager\<lparr>detector_status := kQuit\<rparr>))
     (detector_step (\<lambda>ns. ns) (\<lambda>es. es)) = Inr (pc, d', s') \<and> pc = LoopHead \<and> detector_status s' = kDone"
proof -
  let ?s = "init_lock_manager\<lparr>detector_status := kQuit\<rparr>"
  have q: "detector_status ?s = kQuit" by simp
  obtain victims d where "getAllVictims (\<lambda>ns. ns) (\<lambda>es. es) init_detector (lock_table ?s) = Inr (victims, d)"
    using getAllVictims_spec [OF iteration_order_id iteration_order_id] by blast
  then obtain pc d' s' where r: "and_then (detector_step (\<lambda>ns. ns) (\<lambda>es. es) (Spin, init_detector, ?s))
     (detector_step (\<lambda>ns. ns) (\<lambda>es. es)) = Inr (pc, d', s')" by (simp add: detector_step_def)
  show ?thesis using r quit_request_lost [OF q r] by blast
qed

end
