(* ===== verification/Dags.thy ===== *)
theory Dags
  imports Prelude
begin

text \<open>
  The container of a query plan (\<^verbatim>\<open>DAG\<close>): relational operators are the nodes, a link leads from a
  dependency to its dependent and carries metadata (whether the link is a pipeline breaker).  The
  theory covers construction, the cycle test, Kahn's topological sorting and the stage sequence.
\<close>

section \<open>State and operations\<close>

record ('t, 'l) DAGNode =
  node_payload :: 't
  dependencies :: "nat list"
  dependents_with_metadata :: "(nat \<times> 'l) list"

record ('t, 'l) DAG =
  dag_nodes :: "('t, 'l) DAGNode list"

definition dag_size :: "('t, 'l) DAG \<Rightarrow> nat" where
  "dag_size g = length (dag_nodes g)"

definition empty_dag :: "('t, 'l) DAG" where
  "empty_dag = \<lparr>dag_nodes = []\<rparr>"

definition checked_node :: "('t, 'l) DAG \<Rightarrow> nat \<Rightarrow> ('t, 'l) DAGNode result" where
  "checked_node g node_index =
     and_then (check CheckFailed (node_index < dag_size g)) (\<lambda>_. vec_at (dag_nodes g) node_index)"

definition getNodePayload :: "('t, 'l) DAG \<Rightarrow> nat \<Rightarrow> 't result" where
  "getNodePayload g node_index = and_then (checked_node g node_index) (\<lambda>n. Inr (node_payload n))"

definition getDependents :: "('t, 'l) DAG \<Rightarrow> nat \<Rightarrow> (nat \<times> 'l) list result" where
  "getDependents g node_index =
     and_then (checked_node g node_index) (\<lambda>n. Inr (dependents_with_metadata n))"

definition getDependencies :: "('t, 'l) DAG \<Rightarrow> nat \<Rightarrow> nat list result" where
  "getDependencies g node_index = and_then (checked_node g node_index) (\<lambda>n. Inr (dependencies n))"

definition createNode :: "('t, 'l) DAG \<Rightarrow> 't \<Rightarrow> nat \<times> ('t, 'l) DAG" where
  "createNode g payload =
     (let ns = dag_nodes g @ [\<lparr>node_payload = payload, dependencies = [], dependents_with_metadata = []\<rparr>] in
      (length ns - 1, g\<lparr>dag_nodes := ns\<rparr>))"

definition addDependent :: "('t, 'l) DAGNode \<Rightarrow> nat \<Rightarrow> 'l \<Rightarrow> ('t, 'l) DAGNode result" where
  "addDependent n node_index link_metadata =
     and_then (check CheckFailed (node_index \<notin> fst ` set (dependents_with_metadata n))) (\<lambda>_.
       Inr (n\<lparr>dependents_with_metadata := dependents_with_metadata n @ [(node_index, link_metadata)]\<rparr>))"

definition addDependency :: "('t, 'l) DAGNode \<Rightarrow> nat \<Rightarrow> ('t, 'l) DAGNode" where
  "addDependency n node_index =
     (if node_index \<in> set (dependencies n) then n else n\<lparr>dependencies := dependencies n @ [node_index]\<rparr>)"

definition createLink :: "('t, 'l) DAG \<Rightarrow> nat \<Rightarrow> nat \<Rightarrow> 'l \<Rightarrow> ('t, 'l) DAG result" where
  "createLink g dependency_index dependent_index link_metadata =
     and_then (check CheckFailed (dependency_index < dag_size g)) (\<lambda>_.
     and_then (check CheckFailed (dependent_index < dag_size g)) (\<lambda>_.
     and_then (vec_at (dag_nodes g) dependency_index) (\<lambda>n.
     and_then (addDependent n dependent_index link_metadata) (\<lambda>n'.
     and_then (vec_set (dag_nodes g) dependency_index n') (\<lambda>ns.
     and_then (vec_at ns dependent_index) (\<lambda>k.
     and_then (vec_set ns dependent_index (addDependency k dependency_index)) (\<lambda>ns'.
       Inr (g\<lparr>dag_nodes := ns'\<rparr>))))))))"

definition setLinkMetadata :: "('t, 'l) DAG \<Rightarrow> nat \<Rightarrow> nat \<Rightarrow> 'l \<Rightarrow> ('t, 'l) DAG result" where
  "setLinkMetadata g dependency_index dependent_index link_metadata =
     and_then (vec_at (dag_nodes g) dependency_index) (\<lambda>n.
     and_then (check CheckFailed (dependent_index \<in> fst ` set (dependents_with_metadata n))) (\<lambda>_.
     and_then (vec_set (dag_nodes g) dependency_index
                 (n\<lparr>dependents_with_metadata := al_put (dependents_with_metadata n) dependent_index link_metadata\<rparr>))
       (\<lambda>ns. Inr (g\<lparr>dag_nodes := ns\<rparr>))))"

definition getLinkMetadata :: "('t, 'l) DAG \<Rightarrow> nat \<Rightarrow> nat \<Rightarrow> 'l result" where
  "getLinkMetadata g dependency_index dependent_index =
     and_then (vec_at (dag_nodes g) dependency_index) (\<lambda>n.
       (case map_of (dependents_with_metadata n) dependent_index of
          None \<Rightarrow> Inl CheckFailed
        | Some link_metadata \<Rightarrow> Inr link_metadata))"

text \<open>The cycle test: the recursion with its two bit vectors; the recursion depth is bounded by the
  first argument.\<close>

fun hasCycleHelper ::
    "nat \<Rightarrow> ('t, 'l) DAG \<Rightarrow> nat \<Rightarrow> bool list \<times> bool list \<Rightarrow> (bool \<times> bool list \<times> bool list) result"
  and check_dependents ::
    "nat \<Rightarrow> ('t, 'l) DAG \<Rightarrow> nat list \<Rightarrow> bool list \<times> bool list \<Rightarrow> (bool \<times> bool list \<times> bool list) result"
where
  "hasCycleHelper 0 g node_index vs = Inl OutOfFuel"
| "hasCycleHelper (Suc fuel) g node_index (visited, on_stack) =
     and_then (vec_at visited node_index) (\<lambda>seen.
     and_then
       (if \<not> seen then
          and_then (vec_set visited node_index True) (\<lambda>visited'.
          and_then (vec_set on_stack node_index True) (\<lambda>on_stack'.
          and_then (vec_at (dag_nodes g) node_index) (\<lambda>n.
            check_dependents fuel g (map fst (dependents_with_metadata n)) (visited', on_stack'))))
        else Inr (False, visited, on_stack))
       (\<lambda>(found, visited2, on_stack2).
          if found then Inr (True, visited2, on_stack2)
          else and_then (vec_set on_stack2 node_index False) (\<lambda>on_stack3. Inr (False, visited2, on_stack3))))"
| "check_dependents fuel g [] vs = Inr (False, vs)"
| "check_dependents fuel g (d # ds) (visited, on_stack) =
     and_then (vec_at visited d) (\<lambda>seen.
     and_then (if \<not> seen then hasCycleHelper fuel g d (visited, on_stack) else Inr (False, visited, on_stack))
       (\<lambda>(found, visited2, on_stack2).
         if found then Inr (True, visited2, on_stack2)
         else and_then (vec_at on_stack2 d) (\<lambda>stacked.
           if stacked then Inr (True, visited2, on_stack2)
           else check_dependents fuel g ds (visited2, on_stack2))))"

fun cycle_loop :: "('t, 'l) DAG \<Rightarrow> nat list \<Rightarrow> bool list \<times> bool list \<Rightarrow> bool result" where
  "cycle_loop g [] vs = Inr False"
| "cycle_loop g (curr_node_index # rest) vs =
     and_then (hasCycleHelper (Suc (dag_size g)) g curr_node_index vs) (\<lambda>(found, vs').
       if found then Inr True else cycle_loop g rest vs')"

definition dag_hasCycle :: "('t, 'l) DAG \<Rightarrow> bool result" where
  "dag_hasCycle g =
     cycle_loop g [0..<dag_size g] (replicate (dag_size g) False, replicate (dag_size g) False)"

text \<open>Kahn's algorithm.  The map of dependency counts has every node as a key; a missing key would be
  inserted with 0 and fail the check.\<close>

fun release_dependents ::
    "nat list \<Rightarrow> nat list \<times> nat list \<Rightarrow> (nat list \<times> nat list) result" where
  "release_dependents [] s = Inr s"
| "release_dependents (d # ds) (num_dependencies, queue) =
     and_then (check CheckFailed (d < length num_dependencies \<and> num_dependencies ! d \<ge> 1)) (\<lambda>_.
       release_dependents ds
         (num_dependencies[d := num_dependencies ! d - 1],
          if num_dependencies ! d - 1 = 0 then queue @ [d] else queue))"

lemma release_dependents_decreases:
  "release_dependents ds (num, q) = Inr (num', q') \<Longrightarrow> sum_list num' + length q' \<le> sum_list num + length q"
proof (induction ds arbitrary: num q)
  case (Cons d ds)
  let ?q = "if num ! d - 1 = 0 then q @ [d] else q"
  from Cons.prems have d: "d < length num" "num ! d \<ge> 1"
    and r: "release_dependents ds (num[d := num ! d - 1], ?q) = Inr (num', q')"
    by (auto simp: res_simps)
  have "num ! d \<le> sum_list num" using d(1) by (simp add: member_le_sum_list)
  then have "sum_list (num[d := num ! d - 1]) + 1 = sum_list num" using d by (simp add: sum_list_update)
  moreover have "length ?q \<le> length q + 1" by simp
  ultimately show ?case using Cons.IH [OF r] by linarith
qed simp

function kahn_loop :: "('t, 'l) DAG \<Rightarrow> nat list \<Rightarrow> nat list \<Rightarrow> nat list \<Rightarrow> nat list result" where
  "kahn_loop g num_dependencies [] sorted_list = Inr sorted_list"
| "kahn_loop g num_dependencies (curr_node # queue) sorted_list =
     and_then (getDependents g curr_node) (\<lambda>dependents_of_curr_node.
     and_then (release_dependents (map fst dependents_of_curr_node) (num_dependencies, queue))
       (\<lambda>(num_dependencies', queue'). kahn_loop g num_dependencies' queue' (sorted_list @ [curr_node])))"
  by pat_completeness auto
termination
proof (relation "measure (\<lambda>(g, num, queue, l). sum_list num + length queue)", goal_cases)
  case (2 g num curr queue l deps s num' queue')
  then show ?case using release_dependents_decreases [of "map fst deps" num queue num' queue'] by simp
qed simp

definition getTopologicalSorting :: "('t, 'l) DAG \<Rightarrow> nat list result" where
  "getTopologicalSorting g =
     and_then (dag_hasCycle g) (\<lambda>cyclic.
     and_then (check CheckFailed (\<not> cyclic)) (\<lambda>_.
       kahn_loop g (map (\<lambda>n. length (dependencies n)) (dag_nodes g))
         (filter (\<lambda>i. dependencies (dag_nodes g ! i) = []) [0..<dag_size g]) []))"

text \<open>The stage sequence.  First pass: from the nodes without dependents backwards, with the loops over
  the current stage and over the dependencies of a node; the number of rounds is bounded by the
  first argument of \<open>finish_loop\<close>.  The differences of stage numbers are never negative, which is
  part of the correctness theorem below.\<close>

definition mark_dependency :: "nat \<Rightarrow> nat list \<times> nat list \<Rightarrow> nat \<Rightarrow> (nat list \<times> nat list) result" where
  "mark_dependency num_stages = (\<lambda>(offsets, prior) d.
     and_then (vec_set offsets d num_stages) (\<lambda>offsets'.
       Inr (offsets', if d \<in> set prior then prior else prior @ [d])))"

definition mark_node ::
    "('t, 'l) DAG \<Rightarrow> nat \<Rightarrow> nat list \<times> nat list \<Rightarrow> nat \<Rightarrow> (nat list \<times> nat list) result" where
  "mark_node g num_stages s n =
     and_then (vec_at (dag_nodes g) n) (\<lambda>x. fold_res (mark_dependency num_stages) s (dependencies x))"

fun finish_loop :: "nat \<Rightarrow> ('t, 'l) DAG \<Rightarrow> nat list \<Rightarrow> nat list \<Rightarrow> nat \<Rightarrow> (nat list \<times> nat) result" where
  "finish_loop 0 g offsets current num_stages = Inl OutOfFuel"
| "finish_loop (Suc fuel) g offsets current num_stages =
     (if current = [] then Inr (offsets, num_stages)
      else and_then (fold_res (mark_node g (num_stages + 1)) (offsets, []) current) (\<lambda>(offsets', prior).
        finish_loop fuel g offsets' prior (num_stages + 1)))"

definition start_stage :: "('t, 'l) DAG \<Rightarrow> nat list \<Rightarrow> nat \<Rightarrow> nat \<Rightarrow> nat result" where
  "start_stage g offsets num_stages n =
     and_then (vec_at (dag_nodes g) n) (\<lambda>x.
       fold_res (\<lambda>stage d. and_then (vec_at offsets d) (\<lambda>offset.
           let candidate = num_stages - offset + 1 in Inr (if candidate > stage then candidate else stage)))
         0 (dependencies x))"

definition push_stages ::
    "nat list \<Rightarrow> nat \<Rightarrow> nat list \<Rightarrow> (nat list \<times> nat list) list \<Rightarrow> nat \<Rightarrow> (nat list \<times> nat list) list result" where
  "push_stages starts num_stages offsets stages n =
     and_then (vec_at starts n) (\<lambda>a.
     and_then (vec_at stages a) (\<lambda>s.
     and_then (vec_set stages a (fst s @ [n], snd s)) (\<lambda>stages1.
     and_then (vec_at offsets n) (\<lambda>offset.
     and_then (vec_at stages1 (num_stages - offset)) (\<lambda>s1.
       vec_set stages1 (num_stages - offset) (fst s1, snd s1 @ [n]))))))"

definition computeStageSequence :: "('t, 'l) DAG \<Rightarrow> (nat list \<times> nat list) list result" where
  "computeStageSequence g =
     and_then (dag_hasCycle g) (\<lambda>cyclic.
     and_then (check CheckFailed (\<not> cyclic)) (\<lambda>_.
       (let sinks = filter (\<lambda>i. dependents_with_metadata (dag_nodes g ! i) = []) [0..<dag_size g];
            offsets0 = map (\<lambda>n. if dependents_with_metadata n = [] then 1 else 0) (dag_nodes g) in
        and_then (finish_loop (Suc (dag_size g)) g offsets0 sinks 1) (\<lambda>(offsets, rounds).
        (let num_stages = rounds - 1 in
         and_then (fold_res (\<lambda>starts n. and_then (start_stage g offsets num_stages n) (\<lambda>a. Inr (starts @ [a])))
                     [] [0..<dag_size g]) (\<lambda>starts.
           fold_res (push_stages starts num_stages offsets) (replicate num_stages ([], [])) [0..<dag_size g]))))))"

declare hasCycleHelper.simps [simp del] check_dependents.simps [simp del]

section \<open>Links as a relation\<close>

definition links :: "('t, 'l) DAG \<Rightarrow> (nat \<times> nat) set" where
  "links g = {(d, n). d < dag_size g \<and> n \<in> fst ` set (dependents_with_metadata (dag_nodes g ! d))}"

text \<open>Both directions of every link are recorded, once each.\<close>

definition dag_wf :: "('t, 'l) DAG \<Rightarrow> bool" where
  "dag_wf g \<longleftrightarrow>
     (\<forall>i < dag_size g. distinct (map fst (dependents_with_metadata (dag_nodes g ! i)))
        \<and> distinct (dependencies (dag_nodes g ! i)))
   \<and> (\<forall>d n. (d, n) \<in> links g \<longleftrightarrow> n < dag_size g \<and> d \<in> set (dependencies (dag_nodes g ! n)))"

lemma dag_wfD:
  assumes "dag_wf g"
  shows "i < dag_size g \<Longrightarrow> distinct (map fst (dependents_with_metadata (dag_nodes g ! i)))"
    and "i < dag_size g \<Longrightarrow> distinct (dependencies (dag_nodes g ! i))"
    and "n < dag_size g \<Longrightarrow> d \<in> set (dependencies (dag_nodes g ! n)) \<longleftrightarrow> (d, n) \<in> links g"
    and "(d, n) \<in> links g \<Longrightarrow> d < dag_size g \<and> n < dag_size g"
  using assms by (auto simp: dag_wf_def) (auto simp: links_def)

lemma dag_wf_empty [simp]: "dag_wf empty_dag"
  by (simp add: dag_wf_def empty_dag_def links_def dag_size_def)

lemma dag_wf_createNode:
  assumes "dag_wf g"
  shows "dag_wf (snd (createNode g p)) \<and> links (snd (createNode g p)) = links g
    \<and> dag_size (snd (createNode g p)) = Suc (dag_size g) \<and> fst (createNode g p) = dag_size g"
proof -
  let ?g = "snd (createNode g p)"
  have l: "links ?g = links g"
    by (auto simp: links_def createNode_def dag_size_def nth_append split: if_splits)
  have "dag_wf ?g" unfolding dag_wf_def l
    using assms dag_wfD(4) [OF assms]
    by (auto simp: dag_wf_def createNode_def dag_size_def nth_append less_Suc_eq)
  with l show ?thesis by (simp add: createNode_def dag_size_def)
qed

lemma createLink_Inr:
  assumes "createLink g d n l = Inr g'"
  shows "d < dag_size g" and "n < dag_size g" and "dag_size g' = dag_size g"
    and "n \<notin> fst ` set (dependents_with_metadata (dag_nodes g ! d))"
    and "i < dag_size g \<Longrightarrow> dependents_with_metadata (dag_nodes g' ! i) =
      (if i = d then dependents_with_metadata (dag_nodes g ! i) @ [(n, l)] else dependents_with_metadata (dag_nodes g ! i))"
    and "i < dag_size g \<Longrightarrow> dependencies (dag_nodes g' ! i) =
      (if i = n \<and> d \<notin> set (dependencies (dag_nodes g ! i)) then dependencies (dag_nodes g ! i) @ [d]
       else dependencies (dag_nodes g ! i))"
  using assms
  by (auto simp: createLink_def addDependent_def addDependency_def res_simps dag_size_def nth_list_update)

lemma dag_wf_createLink:
  assumes wf: "dag_wf g" and "createLink g d n l = Inr g'"
  shows "dag_wf g' \<and> links g' = insert (d, n) (links g) \<and> (d, n) \<notin> links g"
proof -
  note L = createLink_Inr [OF assms(2)] and W = dag_wfD [OF wf]
  have l: "links g' = insert (d, n) (links g)"
    using L(1,3,5) by (auto simp: links_def split: if_splits)
  have n: "(d, n) \<notin> links g" using L(4) by (simp add: links_def)
  have "dag_wf g'" unfolding dag_wf_def l L(3)
  proof (intro conjI allI impI)
    fix i assume i: "i < dag_size g"
    show "distinct (map fst (dependents_with_metadata (dag_nodes g' ! i)))"
      unfolding L(5) [OF i] using W(1) [OF i] L(4) by auto
    show "distinct (dependencies (dag_nodes g' ! i))" unfolding L(6) [OF i] using W(2) [OF i] by auto
  next
    fix a b
    show "(a, b) \<in> insert (d, n) (links g) \<longleftrightarrow> b < dag_size g \<and> a \<in> set (dependencies (dag_nodes g' ! b))"
    proof (cases "b < dag_size g")
      case True
      show ?thesis unfolding L(6) [OF True] using W(3) [OF True] True by auto
    next
      case False
      then show ?thesis using W(4) [of a b] L(2) by auto
    qed
  qed
  with l n show ?thesis by blast
qed

text \<open>Building a plan keeps the two directions of every link consistent: \<open>createLink\<close> fails
  exactly if an index is out of range or the link exists, and otherwise adds just this link.\<close>

theorem createLink_correct:
  assumes "dag_wf g"
  shows "case createLink g d n l of
      Inr g' \<Rightarrow> dag_wf g' \<and> links g' = insert (d, n) (links g) \<and> getLinkMetadata g' d n = Inr l
    | Inl e \<Rightarrow> e = CheckFailed \<and> (\<not> d < dag_size g \<or> \<not> n < dag_size g \<or> (d, n) \<in> links g)"
proof (cases "createLink g d n l")
  case (Inl e)
  then show ?thesis
    by (auto simp: createLink_def addDependent_def res_simps links_def dag_size_def vec_at_def vec_set_def
        split: if_splits)
next
  case (Inr g')
  note L = createLink_Inr [OF Inr]
  have "map_of (dependents_with_metadata (dag_nodes g ! d)) n = None"
    using L(4) by (simp add: map_of_eq_None_iff)
  then have "getLinkMetadata g' d n = Inr l"
    using L(1,3,5) by (simp add: getLinkMetadata_def dag_size_def map_add_def)
  with Inr dag_wf_createLink [OF assms Inr] show ?thesis by simp
qed

section \<open>The cycle test\<close>

definition true_at :: "bool list \<Rightarrow> nat set" where
  "true_at bs = {i. i < length bs \<and> bs ! i}"

lemma true_at_update [simp]:
  "i < length bs \<Longrightarrow> true_at (bs[i := b]) = (if b then insert i (true_at bs) else true_at bs - {i})"
  by (auto simp: true_at_def nth_list_update split: if_splits)

lemma true_at_replicate [simp]: "true_at (replicate n False) = {}"
  by (simp add: true_at_def)

lemma finite_true_at [simp]: "finite (true_at bs)"
  by (simp add: true_at_def)

text \<open>Between calls: the finished nodes, visited but not on the stack, are closed under links and
  free of cycles.\<close>

definition cycle_inv :: "('t, 'l) DAG \<Rightarrow> bool list \<Rightarrow> bool list \<Rightarrow> bool" where
  "cycle_inv g visited on_stack \<longleftrightarrow> length visited = dag_size g \<and> length on_stack = dag_size g
     \<and> true_at on_stack \<subseteq> true_at visited
     \<and> links g `` (true_at visited - true_at on_stack) \<subseteq> true_at visited - true_at on_stack
     \<and> acyclic (links g \<inter> (true_at visited - true_at on_stack) \<times> (true_at visited - true_at on_stack))"

definition helper_spec :: "nat \<Rightarrow> ('t, 'l) DAG \<Rightarrow> bool" where
  "helper_spec fuel g \<longleftrightarrow> (\<forall>v visited on_stack. cycle_inv g visited on_stack \<longrightarrow> v < dag_size g \<longrightarrow>
     v \<notin> true_at visited \<longrightarrow> (\<forall>s \<in> true_at on_stack. (s, v) \<in> (links g)\<^sup>*) \<longrightarrow>
     card ({..<dag_size g} - true_at visited) \<le> fuel \<longrightarrow>
     (\<exists>found visited' on_stack'. hasCycleHelper fuel g v (visited, on_stack) = Inr (found, visited', on_stack')
       \<and> (if found then \<not> acyclic (links g)
          else cycle_inv g visited' on_stack' \<and> true_at on_stack' = true_at on_stack
             \<and> insert v (true_at visited) \<subseteq> true_at visited')))"

lemma helper_specE:
  assumes "helper_spec fuel g" and "cycle_inv g visited on_stack" and "v < dag_size g"
    and "v \<notin> true_at visited" and "\<And>s. s \<in> true_at on_stack \<Longrightarrow> (s, v) \<in> (links g)\<^sup>*"
    and "card ({..<dag_size g} - true_at visited) \<le> fuel"
  obtains found visited' on_stack'
  where "hasCycleHelper fuel g v (visited, on_stack) = Inr (found, visited', on_stack')"
    and "if found then \<not> acyclic (links g)
         else cycle_inv g visited' on_stack' \<and> true_at on_stack' = true_at on_stack
           \<and> insert v (true_at visited) \<subseteq> true_at visited'"
proof -
  have "\<forall>s \<in> true_at on_stack. (s, v) \<in> (links g)\<^sup>*" using assms(5) by blast
  from assms(1) [unfolded helper_spec_def, THEN spec, THEN spec, THEN spec, THEN mp, THEN mp, THEN mp, THEN mp,
    THEN mp, OF assms(2-4) this assms(6)]
  show ?thesis by (elim exE conjE) (rule that)
qed

lemma acyclic_add_source:
  assumes ac: "acyclic (E \<inter> B \<times> B)" and closed: "E `` B \<subseteq> B" and x: "x \<notin> B" "E `` {x} \<subseteq> B"
  shows "acyclic (E \<inter> insert x B \<times> insert x B)"
proof (rule acyclicI, rule allI, rule notI)
  fix a assume "(a, a) \<in> (E \<inter> insert x B \<times> insert x B)\<^sup>+"
  moreover have "b \<in> B \<and> (a \<in> B \<longrightarrow> (a, b) \<in> (E \<inter> B \<times> B)\<^sup>+)" if "(a, b) \<in> (E \<inter> insert x B \<times> insert x B)\<^sup>+" for b
    using that
  proof (induction rule: trancl_induct)
    case (base b)
    then show ?case using closed x by auto
  next
    case (step b c)
    then have "c \<in> B" using closed by auto
    then show ?case using step by (auto intro: trancl_into_trancl)
  qed
  ultimately show False using ac by (auto simp: acyclic_def)
qed

definition loop_result ::
    "('t, 'l) DAG \<Rightarrow> bool list \<Rightarrow> bool list \<Rightarrow> nat set \<Rightarrow> (bool \<times> bool list \<times> bool list) result \<Rightarrow> bool" where
  "loop_result g visited on_stack D r \<longleftrightarrow> (\<exists>found visited' on_stack'. r = Inr (found, visited', on_stack')
    \<and> (if found then \<not> acyclic (links g)
       else cycle_inv g visited' on_stack' \<and> true_at on_stack' = true_at on_stack
          \<and> true_at visited \<subseteq> true_at visited' \<and> D \<subseteq> true_at visited' - true_at on_stack))"

lemma loop_result_found: "\<not> acyclic (links g) \<Longrightarrow> loop_result g visited on_stack D (Inr (True, v, s))"
  unfolding loop_result_def by (intro exI [of _ True] exI [of _ v] exI [of _ s]) simp

lemma loop_result_step:
  assumes "loop_result g visited1 on_stack1 D r" and "true_at on_stack1 = true_at on_stack"
    and "true_at visited \<subseteq> true_at visited1" and "d \<in> true_at visited1" and "d \<notin> true_at on_stack"
  shows "loop_result g visited on_stack (insert d D) r"
proof -
  from assms(1) obtain found visited' on_stack' where r: "r = Inr (found, visited', on_stack')"
    and "if found then \<not> acyclic (links g)
       else cycle_inv g visited' on_stack' \<and> true_at on_stack' = true_at on_stack1
          \<and> true_at visited1 \<subseteq> true_at visited' \<and> D \<subseteq> true_at visited' - true_at on_stack1"
    unfolding loop_result_def by (elim exE conjE)
  then have "if found then \<not> acyclic (links g)
       else cycle_inv g visited' on_stack' \<and> true_at on_stack' = true_at on_stack
          \<and> true_at visited \<subseteq> true_at visited' \<and> insert d D \<subseteq> true_at visited' - true_at on_stack"
    using assms(2-) by (cases found) (simp, auto)
  then show ?thesis unfolding loop_result_def r
    by (intro exI [of _ found] exI [of _ visited'] exI [of _ on_stack']) simp
qed

lemma check_dependents_spec:
  assumes spec: "helper_spec fuel g" and wf: "dag_wf g" and "cycle_inv g visited on_stack"
    and "\<And>s. s \<in> true_at on_stack \<Longrightarrow> (s, v) \<in> (links g)\<^sup>*" and "\<And>d. d \<in> set ds \<Longrightarrow> (v, d) \<in> links g"
    and "card ({..<dag_size g} - true_at visited) \<le> fuel"
  shows "loop_result g visited on_stack (set ds) (check_dependents fuel g ds (visited, on_stack))"
  using assms(3-)
proof (induction ds arbitrary: visited on_stack)
  case Nil
  then show ?case by (auto simp: loop_result_def check_dependents.simps)
next
  case (Cons d ds)
  have e: "(v, d) \<in> links g" using Cons.prems(3) by simp
  have d: "d < dag_size g" using dag_wfD(4) [OF wf e] by simp
  then have len: "d < length visited" using Cons.prems(1) by (simp add: cycle_inv_def)
  let ?first = "if \<not> visited ! d then hasCycleHelper fuel g d (visited, on_stack) else Inr (False, visited, on_stack)"
  have "\<exists>found visited1 on_stack1. ?first = Inr (found, visited1, on_stack1)
      \<and> (if found then \<not> acyclic (links g)
         else cycle_inv g visited1 on_stack1 \<and> true_at on_stack1 = true_at on_stack
           \<and> insert d (true_at visited) \<subseteq> true_at visited1)"
  proof (cases "visited ! d")
    case True
    then have "d \<in> true_at visited" using len by (simp add: true_at_def)
    then show ?thesis using Cons.prems(1) True
      by (intro exI [of _ False] exI [of _ visited] exI [of _ on_stack]) auto
  next
    case False
    then have "d \<notin> true_at visited" by (simp add: true_at_def)
    moreover have "(s, d) \<in> (links g)\<^sup>*" if "s \<in> true_at on_stack" for s
      using Cons.prems(2) [OF that] e by (rule rtrancl_into_rtrancl)
    ultimately obtain found visited1 on_stack1 where
      "hasCycleHelper fuel g d (visited, on_stack) = Inr (found, visited1, on_stack1)"
      "if found then \<not> acyclic (links g)
       else cycle_inv g visited1 on_stack1 \<and> true_at on_stack1 = true_at on_stack
         \<and> insert d (true_at visited) \<subseteq> true_at visited1"
      by (rule helper_specE [OF spec Cons.prems(1) d _ _ Cons.prems(4)])
    then show ?thesis using False
      by (intro exI [of _ found] exI [of _ visited1] exI [of _ on_stack1]) simp
  qed
  then obtain found visited1 on_stack1 where
    f: "?first = Inr (found, visited1, on_stack1)" and
    r: "if found then \<not> acyclic (links g)
        else cycle_inv g visited1 on_stack1 \<and> true_at on_stack1 = true_at on_stack
          \<and> insert d (true_at visited) \<subseteq> true_at visited1" by blast
  have run: "check_dependents fuel g (d # ds) (visited, on_stack) =
      (if found then Inr (True, visited1, on_stack1)
       else and_then (vec_at on_stack1 d) (\<lambda>stacked.
         if stacked then Inr (True, visited1, on_stack1) else check_dependents fuel g ds (visited1, on_stack1)))"
    unfolding check_dependents.simps vec_at_in_range [OF len] and_then.simps f by simp
  show ?case
  proof (cases found)
    case True
    then show ?thesis using r unfolding run by (simp add: loop_result_found)
  next
    case False
    with r have r': "cycle_inv g visited1 on_stack1" "true_at on_stack1 = true_at on_stack"
      "d \<in> true_at visited1" "true_at visited \<subseteq> true_at visited1" by auto
    have len1: "d < length on_stack1" using r'(1) d by (simp add: cycle_inv_def)
    have "card ({..<dag_size g} - true_at visited1) \<le> card ({..<dag_size g} - true_at visited)"
      using r'(4) by (intro card_mono) auto
    then have "loop_result g visited1 on_stack1 (set ds) (check_dependents fuel g ds (visited1, on_stack1))"
      using Cons.prems(2-4) r'(2) by (intro Cons.IH [OF r'(1)]) auto
    moreover have "\<not> acyclic (links g)" if "on_stack1 ! d"
    proof -
      have "d \<in> true_at on_stack" using that len1 r'(2) by (auto simp: true_at_def)
      then have "(d, v) \<in> (links g)\<^sup>*" by (rule Cons.prems(2))
      then have "(d, d) \<in> (links g)\<^sup>+" using e by (rule rtrancl_into_trancl1)
      then show ?thesis by (auto simp: acyclic_def)
    qed
    moreover have "d \<notin> true_at on_stack" if "\<not> on_stack1 ! d" using that r'(2) by (auto simp: true_at_def)
    ultimately show ?thesis using False len1 r'(2-4) unfolding run
      by (cases "on_stack1 ! d") (simp_all add: loop_result_found loop_result_step)
  qed
qed

lemma helper_spec_holds:
  assumes wf: "dag_wf g"
  shows "helper_spec fuel g"
proof (induction fuel)
  case 0
  have "card ({..<dag_size g} - true_at visited) \<noteq> 0" if "v < dag_size g" "v \<notin> true_at visited" for v visited
    using that by (metis Diff_iff card_0_eq empty_iff finite_Diff finite_lessThan lessThan_iff)
  then show ?case unfolding helper_spec_def by (meson le_zero_eq)
next
  case (Suc fuel)
  show ?case unfolding helper_spec_def
  proof (intro allI impI)
    fix v visited on_stack
    assume inv: "cycle_inv g visited on_stack" and v: "v < dag_size g" "v \<notin> true_at visited"
      and reach: "\<forall>s \<in> true_at on_stack. (s, v) \<in> (links g)\<^sup>*"
      and fuel: "card ({..<dag_size g} - true_at visited) \<le> Suc fuel"
    let ?visited = "visited[v := True]" and ?on_stack = "on_stack[v := True]"
    let ?ds = "map fst (dependents_with_metadata (dag_nodes g ! v))"
    have len: "v < length visited" "v < length on_stack" using inv v by (simp_all add: cycle_inv_def)
    have vs: "v \<notin> true_at on_stack" using inv v(2) by (auto simp: cycle_inv_def)
    have "true_at ?visited - true_at ?on_stack = true_at visited - true_at on_stack"
      using len v(2) by auto
    then have inv1: "cycle_inv g ?visited ?on_stack" using inv len by (auto simp: cycle_inv_def)
    have "{..<dag_size g} - true_at ?visited = ({..<dag_size g} - true_at visited) - {v}" using len by auto
    then have fuel1: "card ({..<dag_size g} - true_at ?visited) \<le> fuel" using fuel v by simp
    have "loop_result g ?visited ?on_stack (set ?ds) (check_dependents fuel g ?ds (?visited, ?on_stack))"
      by (rule check_dependents_spec [OF Suc.IH wf inv1 _ _ fuel1])
        (use reach len v(1) in \<open>auto simp: links_def\<close>)
    then obtain found visited2 on_stack2 where
      c: "check_dependents fuel g ?ds (?visited, ?on_stack) = Inr (found, visited2, on_stack2)"
      and r: "if found then \<not> acyclic (links g)
        else cycle_inv g visited2 on_stack2 \<and> true_at on_stack2 = true_at ?on_stack
          \<and> true_at ?visited \<subseteq> true_at visited2 \<and> set ?ds \<subseteq> true_at visited2 - true_at ?on_stack"
      unfolding loop_result_def by blast
    have "\<not> visited ! v" using v(2) len by (simp add: true_at_def)
    then have run: "hasCycleHelper (Suc fuel) g v (visited, on_stack) =
        (if found then Inr (True, visited2, on_stack2)
         else and_then (vec_set on_stack2 v False) (\<lambda>on_stack3. Inr (False, visited2, on_stack3)))"
      using c len v(1) by (simp add: dag_size_def hasCycleHelper.simps)
    show "\<exists>found visited' on_stack'. hasCycleHelper (Suc fuel) g v (visited, on_stack) = Inr (found, visited', on_stack')
       \<and> (if found then \<not> acyclic (links g)
          else cycle_inv g visited' on_stack' \<and> true_at on_stack' = true_at on_stack
             \<and> insert v (true_at visited) \<subseteq> true_at visited')"
    proof (cases found)
      case True
      then show ?thesis using r run by auto
    next
      case False
      with r have r': "cycle_inv g visited2 on_stack2" "true_at on_stack2 = insert v (true_at on_stack)"
        "insert v (true_at visited) \<subseteq> true_at visited2"
        "links g `` {v} \<subseteq> true_at visited2 - true_at on_stack2"
        using len by (auto simp: links_def)
      let ?B = "true_at visited2 - true_at on_stack2"
      have len2: "v < length on_stack2" using r'(1) v(1) by (simp add: cycle_inv_def)
      have st: "true_at (on_stack2[v := False]) = true_at on_stack" using len2 r'(2) vs by auto
      have B: "true_at visited2 - true_at on_stack = insert v ?B" using r'(2,3) vs by auto
      have "cycle_inv g visited2 (on_stack2[v := False])"
        using r' acyclic_add_source [of "links g" ?B v] len2 unfolding cycle_inv_def st B by auto
      moreover have "hasCycleHelper (Suc fuel) g v (visited, on_stack) = Inr (False, visited2, on_stack2[v := False])"
        using run False len2 by simp
      ultimately show ?thesis using st r'(3)
        by (intro exI [of _ False] exI [of _ visited2] exI [of _ "on_stack2[v := False]"]) simp
    qed
  qed
qed

lemma cycle_loop_spec:
  assumes wf: "dag_wf g" and "cycle_inv g visited on_stack" and "true_at on_stack = {}"
    and "\<And>v. v \<in> set vs \<Longrightarrow> v < dag_size g"
    and "{..<dag_size g} \<subseteq> true_at visited \<union> set vs"
  shows "cycle_loop g vs (visited, on_stack) = Inr (\<not> acyclic (links g))"
  using assms(2-)
proof (induction vs arbitrary: visited on_stack)
  case Nil
  then have "links g \<subseteq> links g \<inter> true_at visited \<times> true_at visited"
    using dag_wfD(4) [OF wf] by auto
  moreover have "acyclic (links g \<inter> true_at visited \<times> true_at visited)"
    using Nil by (simp add: cycle_inv_def)
  ultimately show ?case by (auto intro: acyclic_subset)
next
  case (Cons v vs)
  have v: "v < dag_size g" using Cons.prems(3) by simp
  have len: "v < length visited" "v < length on_stack" using Cons.prems(1) v by (simp_all add: cycle_inv_def)
  show ?case
  proof (cases "v \<in> true_at visited")
    case True
    then have "visited ! v" by (simp add: true_at_def)
    moreover have "on_stack[v := False] = on_stack"
      using Cons.prems(2) len by (metis (mono_tags, lifting) empty_iff list_update_id mem_Collect_eq true_at_def)
    moreover have "cycle_loop g vs (visited, on_stack) = Inr (\<not> acyclic (links g))"
      using True Cons.prems by (intro Cons.IH) auto
    ultimately show ?thesis using len by (simp add: hasCycleHelper.simps)
  next
    case False
    have "card ({..<dag_size g} - true_at visited) \<le> card {..<dag_size g}" by (intro card_mono) auto
    then have c: "card ({..<dag_size g} - true_at visited) \<le> Suc (dag_size g)" by simp
    have "\<And>s. s \<in> true_at on_stack \<Longrightarrow> (s, v) \<in> (links g)\<^sup>*" using Cons.prems(2) by simp
    from helper_specE [OF helper_spec_holds [OF wf] Cons.prems(1) v False this c] obtain found visited' on_stack' where
      h: "hasCycleHelper (Suc (dag_size g)) g v (visited, on_stack) = Inr (found, visited', on_stack')"
      and r: "if found then \<not> acyclic (links g)
          else cycle_inv g visited' on_stack' \<and> true_at on_stack' = true_at on_stack
             \<and> insert v (true_at visited) \<subseteq> true_at visited'" .
    show ?thesis
    proof (cases found)
      case True
      then show ?thesis using h r by simp
    next
      case False
      then have "cycle_loop g vs (visited', on_stack') = Inr (\<not> acyclic (links g))"
        using r Cons.prems by (intro Cons.IH) auto
      then show ?thesis using h False by simp
    qed
  qed
qed

lemma dag_hasCycle_spec:
  assumes "dag_wf g"
  shows "dag_hasCycle g = Inr (\<not> acyclic (links g))"
  unfolding dag_hasCycle_def
  by (rule cycle_loop_spec [OF assms]) (auto simp: cycle_inv_def acyclic_def)

text \<open>C13. The cycle test is exact: on every consistent plan \<^verbatim>\<open>hasCycle\<close> returns true exactly if the links
  form a cycle, self-links included.\<close>

theorem dag_hasCycle_correct:
  assumes "dag_wf g"
  shows "dag_hasCycle g = Inr (\<not> acyclic (links g))"
  using assms by (rule dag_hasCycle_spec)

section \<open>Topological sorting\<close>

text \<open>Every element of the list comes after all its dependencies.\<close>

definition topo_sorted :: "('t, 'l) DAG \<Rightarrow> nat list \<Rightarrow> bool" where
  "topo_sorted g l \<longleftrightarrow> (\<forall>ys n zs. l = ys @ n # zs \<longrightarrow> (\<forall>d. (d, n) \<in> links g \<longrightarrow> d \<in> set ys))"

lemma topo_sorted_Nil [simp]: "topo_sorted g []"
  by (simp add: topo_sorted_def)

lemma topo_sorted_snoc:
  "topo_sorted g l \<Longrightarrow> (\<And>d. (d, n) \<in> links g \<Longrightarrow> d \<in> set l) \<Longrightarrow> topo_sorted g (l @ [n])"
  unfolding topo_sorted_def by (auto simp: append_eq_append_conv2 append_eq_Cons_conv Cons_eq_append_conv)

definition open_deps :: "('t, 'l) DAG \<Rightarrow> nat list \<Rightarrow> nat \<Rightarrow> nat set" where
  "open_deps g l n = {d. (d, n) \<in> links g \<and> d \<notin> set l}"

lemma finite_open_deps [simp]: "dag_wf g \<Longrightarrow> finite (open_deps g l n)"
  by (rule finite_subset [of _ "{..<dag_size g}"]) (auto simp: open_deps_def dest: dag_wfD(4))

lemma open_deps_snoc: "open_deps g (l @ [c]) n = open_deps g l n - {c}"
  by (auto simp: open_deps_def)

definition kahn_inv :: "('t, 'l) DAG \<Rightarrow> nat list \<Rightarrow> nat list \<Rightarrow> nat list \<Rightarrow> bool" where
  "kahn_inv g num q l \<longleftrightarrow> length num = dag_size g \<and> distinct (l @ q) \<and> topo_sorted g l
     \<and> (\<forall>n < dag_size g. num ! n = card (open_deps g l n))
     \<and> (\<forall>n. n \<in> set l \<union> set q \<longleftrightarrow> n < dag_size g \<and> num ! n = 0)"

lemma release_dependents_spec:
  assumes "distinct ds" and "\<And>d. d \<in> set ds \<Longrightarrow> d < length num \<and> num ! d \<ge> 1"
  shows "\<exists>num'. release_dependents ds (num, q) = Inr (num', q @ filter (\<lambda>d. num ! d = 1) ds)
    \<and> length num' = length num \<and> (\<forall>n. num' ! n = (if n \<in> set ds then num ! n - 1 else num ! n))"
  using assms
proof (induction ds arbitrary: num q)
  case (Cons d ds)
  let ?num = "num[d := num ! d - 1]" and ?q = "if num ! d - 1 = 0 then q @ [d] else q"
  have d: "d < length num" "num ! d \<ge> 1" "d \<notin> set ds" "distinct ds" using Cons.prems by auto
  have "\<And>e. e \<in> set ds \<Longrightarrow> e < length ?num \<and> ?num ! e \<ge> 1" using Cons.prems(2) d(3) by (auto simp: nth_list_update)
  from Cons.IH [OF d(4) this, of ?q] obtain num' where
    r: "release_dependents ds (?num, ?q) = Inr (num', ?q @ filter (\<lambda>e. ?num ! e = 1) ds)"
    and l: "length num' = length num" and n: "\<forall>n. num' ! n = (if n \<in> set ds then ?num ! n - 1 else ?num ! n)"
    by auto
  have f: "filter (\<lambda>e. ?num ! e = 1) ds = filter (\<lambda>e. num ! e = 1) ds"
    using d(1,3) by (intro filter_cong) (auto simp: nth_list_update)
  have "?q @ filter (\<lambda>e. ?num ! e = 1) ds = q @ filter (\<lambda>e. num ! e = 1) (d # ds)"
    unfolding f using d(2) by auto
  moreover have "num' ! n = (if n \<in> set (d # ds) then num ! n - 1 else num ! n)" for n
    using n d(1,3) by (auto simp: nth_list_update)
  ultimately show ?case using r l d(1,2) by (intro exI [of _ num']) simp
qed simp

lemma kahn_step:
  assumes wf: "dag_wf g" and inv: "kahn_inv g num (c # q) l"
  shows "\<exists>num' q'. release_dependents (map fst (dependents_with_metadata (dag_nodes g ! c))) (num, q) = Inr (num', q')
    \<and> kahn_inv g num' q' (l @ [c])"
proof -
  let ?ds = "map fst (dependents_with_metadata (dag_nodes g ! c))"
  note I = inv [unfolded kahn_inv_def]
  have c: "c < dag_size g" "num ! c = 0" "c \<notin> set l" "c \<notin> set q" using I by auto
  have ds: "n \<in> set ?ds \<longleftrightarrow> (c, n) \<in> links g" for n using c(1) by (auto simp: links_def)
  have dN: "n < length num \<and> num ! n \<ge> 1" if "n \<in> set ?ds" for n
  proof -
    have "n < dag_size g" using that ds dag_wfD(4) [OF wf] by blast
    moreover have "c \<in> open_deps g l n" using that c(3) ds by (simp add: open_deps_def)
    then have "card (open_deps g l n) \<ge> 1" using wf by (auto simp: Suc_le_eq card_gt_0_iff)
    ultimately show ?thesis using I by simp
  qed
  obtain num' where r: "release_dependents ?ds (num, q) = Inr (num', q @ filter (\<lambda>d. num ! d = 1) ?ds)"
    and l': "length num' = length num" and n': "\<And>n. num' ! n = (if n \<in> set ?ds then num ! n - 1 else num ! n)"
    using release_dependents_spec [of ?ds num q] dag_wfD(1) [OF wf c(1)] dN by blast
  have "open_deps g l c = {}" using I c wf by simp
  then have topo: "topo_sorted g (l @ [c])" using I by (intro topo_sorted_snoc) (auto simp: open_deps_def)
  have count: "num' ! n = card (open_deps g (l @ [c]) n)" if "n < dag_size g" for n
  proof -
    have "num ! n = card (open_deps g l n)" using I that by blast
    moreover have "c \<in> open_deps g l n \<longleftrightarrow> n \<in> set ?ds" using ds c(3) by (simp add: open_deps_def)
    ultimately show ?thesis unfolding n' open_deps_snoc by (cases "n \<in> set ?ds") simp_all
  qed
  have new: "n \<notin> set l \<union> set (c # q)" if "n \<in> set ?ds" for n
    using dN [OF that] I by auto
  have "distinct (filter (\<lambda>d. num ! d = 1) ?ds)" using dag_wfD(1) [OF wf c(1)] by (rule distinct_filter)
  moreover have "set (filter (\<lambda>d. num ! d = 1) ?ds) \<inter> (set l \<union> set (c # q)) = {}" using new by force
  moreover have "distinct (l @ c # q)" using I by blast
  ultimately have dist: "distinct ((l @ [c]) @ q @ filter (\<lambda>d. num ! d = 1) ?ds)"
    unfolding distinct_append by (simp only: distinct.simps distinct_append) auto
  have mem: "n \<in> set (l @ [c]) \<union> set (q @ filter (\<lambda>d. num ! d = 1) ?ds) \<longleftrightarrow> n < dag_size g \<and> num' ! n = 0" for n
  proof (cases "n \<in> set ?ds")
    case True
    then show ?thesis using new [OF True] dN [OF True] I unfolding n' by auto
  next
    case False
    then show ?thesis using I unfolding n' by auto
  qed
  have "kahn_inv g num' (q @ filter (\<lambda>d. num ! d = 1) ?ds) (l @ [c])"
    unfolding kahn_inv_def using l' dist topo count mem I by simp
  with r show ?thesis by blast
qed

lemma kahn_loop_spec:
  assumes "dag_wf g" and "kahn_inv g num q l"
  shows "\<exists>num' l'. kahn_loop g num q l = Inr l' \<and> kahn_inv g num' [] l'"
  using assms
proof (induction g num q l rule: kahn_loop.induct)
  case (1 g num l)
  then show ?case by auto
next
  case (2 g num c q l)
  obtain num' q' where r: "release_dependents (map fst (dependents_with_metadata (dag_nodes g ! c))) (num, q) = Inr (num', q')"
    and inv: "kahn_inv g num' q' (l @ [c])" using kahn_step [OF 2(2,3)] by blast
  have "c < dag_size g" using 2(3) by (auto simp: kahn_inv_def)
  then have d: "getDependents g c = Inr (dependents_with_metadata (dag_nodes g ! c))"
    by (simp add: getDependents_def checked_node_def dag_size_def)
  show ?case using 2(1) [OF d r refl 2(2) inv] r d by simp
qed

lemma kahn_inv_init:
  assumes wf: "dag_wf g"
  shows "kahn_inv g (map (\<lambda>n. length (dependencies n)) (dag_nodes g))
    (filter (\<lambda>i. dependencies (dag_nodes g ! i) = []) [0..<dag_size g]) []"
proof -
  have "length (dependencies (dag_nodes g ! n)) = card (open_deps g [] n)" if "n < dag_size g" for n
  proof -
    have "open_deps g [] n = set (dependencies (dag_nodes g ! n))"
      using dag_wfD(3) [OF wf that] by (auto simp: open_deps_def)
    then show ?thesis using distinct_card [OF dag_wfD(2) [OF wf that]] by simp
  qed
  then show ?thesis by (auto simp: kahn_inv_def dag_size_def simp flip: length_0_conv)
qed

lemma finite_links: "dag_wf g \<Longrightarrow> finite (links g)"
  by (rule finite_subset [of _ "{..<dag_size g} \<times> {..<dag_size g}"]) (auto dest: dag_wfD(4))

lemma kahn_complete:
  assumes wf: "dag_wf g" and ac: "acyclic (links g)" and inv: "kahn_inv g num [] l"
  shows "set l = {..<dag_size g}"
proof (rule ccontr)
  have sub: "set l \<subseteq> {..<dag_size g}" using inv by (auto simp: kahn_inv_def)
  assume "set l \<noteq> {..<dag_size g}"
  with sub obtain x where "x \<in> {..<dag_size g} - set l" by blast
  moreover have "wf (links g)" using finite_links [OF wf] ac by (rule finite_acyclic_wf)
  ultimately obtain z where z: "z \<in> {..<dag_size g} - set l"
    and min: "\<And>y. (y, z) \<in> links g \<Longrightarrow> y \<notin> {..<dag_size g} - set l"
    using wfE_min [of "links g" x "{..<dag_size g} - set l"] by blast
  have "open_deps g l z = {}" using min dag_wfD(4) [OF wf] by (auto simp: open_deps_def)
  then show False using inv z by (auto simp: kahn_inv_def)
qed

lemma getTopologicalSorting_spec:
  assumes wf: "dag_wf g"
  shows "acyclic (links g) \<Longrightarrow> \<exists>l. getTopologicalSorting g = Inr l \<and> distinct l \<and> set l = {..<dag_size g} \<and> topo_sorted g l"
    and "\<not> acyclic (links g) \<Longrightarrow> getTopologicalSorting g = Inl CheckFailed"
proof -
  assume ac: "acyclic (links g)"
  obtain num l where "kahn_loop g (map (\<lambda>n. length (dependencies n)) (dag_nodes g))
      (filter (\<lambda>i. dependencies (dag_nodes g ! i) = []) [0..<dag_size g]) [] = Inr l" "kahn_inv g num [] l"
    using kahn_loop_spec [OF wf kahn_inv_init [OF wf]] by blast
  then show "\<exists>l. getTopologicalSorting g = Inr l \<and> distinct l \<and> set l = {..<dag_size g} \<and> topo_sorted g l"
    using kahn_complete [OF wf ac, of num l]
    by (simp add: getTopologicalSorting_def dag_hasCycle_spec [OF wf] ac kahn_inv_def)
qed (simp add: getTopologicalSorting_def dag_hasCycle_spec [OF wf])

text \<open>C7. Topological sorting: on a consistent plan without cycles \<^verbatim>\<open>getTopologicalSorting\<close> returns every
  node exactly once, each after all its dependencies; on a plan with a cycle it fails its check.\<close>

theorem getTopologicalSorting_correct:
  assumes "dag_wf g"
  shows "if acyclic (links g)
    then \<exists>l. getTopologicalSorting g = Inr l \<and> distinct l \<and> set l = {..<dag_size g}
       \<and> (\<forall>ys n zs d. l = ys @ n # zs \<longrightarrow> (d, n) \<in> links g \<longrightarrow> d \<in> set ys)
    else getTopologicalSorting g = Inl CheckFailed"
  using getTopologicalSorting_spec [OF assms] by (simp add: topo_sorted_def)

section \<open>Stages\<close>

lemma topological_number:
  assumes wf: "dag_wf g" and ac: "acyclic (links g)"
  obtains pos :: "nat \<Rightarrow> nat"
  where "\<And>d n. (d, n) \<in> links g \<Longrightarrow> pos d < pos n" and "\<And>n. n < dag_size g \<Longrightarrow> pos n < dag_size g"
proof -
  obtain l where l: "distinct l" "set l = {..<dag_size g}" "topo_sorted g l"
    using getTopologicalSorting_spec(1) [OF wf ac] by blast
  have len: "length l = dag_size g" using distinct_card [OF l(1)] l(2) by simp
  have "\<exists>i < length l. l ! i = n" if "n < dag_size g" for n using that l(2) by (metis in_set_conv_nth lessThan_iff)
  then obtain pos where pos: "\<And>n. n < dag_size g \<Longrightarrow> pos n < length l \<and> l ! pos n = n" by metis
  have "pos d < pos n" if e: "(d, n) \<in> links g" for d n
  proof -
    note r = dag_wfD(4) [OF wf e]
    have "l = take (pos n) l @ n # drop (Suc (pos n)) l" using pos [of n] r id_take_nth_drop by metis
    then have "d \<in> set (take (pos n) l)" using l(3) e unfolding topo_sorted_def by blast
    then obtain i where "i < pos n" "i < length l" "l ! i = d" by (auto simp: in_set_conv_nth)
    then show ?thesis using pos [of d] r l(1) nth_eq_iff_index_eq by metis
  qed
  with pos len that show ?thesis by metis
qed

definition preds :: "('t, 'l) DAG \<Rightarrow> nat set \<Rightarrow> nat set" where
  "preds g C = {d. \<exists>n \<in> C. (d, n) \<in> links g}"

lemma mark_dependencies:
  fixes f :: "nat list"
  assumes "\<And>d. d \<in> set ds \<Longrightarrow> d < length f"
  shows "\<exists>f' P'. fold_res (mark_dependency s) (f, P) ds = Inr (f', P') \<and> set P' = set P \<union> set ds
    \<and> length f' = length f \<and> (\<forall>n. f' ! n = (if n \<in> set ds then s else f ! n))"
  using assms
proof (induction ds arbitrary: f P)
  case (Cons d ds)
  let ?P = "if d \<in> set P then P else P @ [d]"
  obtain f' P' where "fold_res (mark_dependency s) (f[d := s], ?P) ds = Inr (f', P')" "set P' = set ?P \<union> set ds"
    "length f' = length (f[d := s])" "\<And>n. f' ! n = (if n \<in> set ds then s else f[d := s] ! n)"
    using Cons.IH [of "f[d := s]" ?P] Cons.prems by auto
  then show ?case using Cons.prems [of d]
    by (intro exI [of _ f'] exI [of _ P']) (auto simp: mark_dependency_def)
qed simp

lemma mark_nodes:
  assumes wf: "dag_wf g" and "\<And>n. n \<in> set ns \<Longrightarrow> n < dag_size g" and "length f = dag_size g"
  shows "\<exists>f' P'. fold_res (mark_node g s) (f, P) ns = Inr (f', P') \<and> set P' = set P \<union> preds g (set ns)
    \<and> length f' = dag_size g \<and> (\<forall>n. f' ! n = (if n \<in> preds g (set ns) then s else f ! n))"
  using assms(2-)
proof (induction ns arbitrary: f P)
  case (Cons n ns)
  have n: "n < dag_size g" using Cons.prems(1) by simp
  let ?ds = "dependencies (dag_nodes g ! n)"
  have ds: "d \<in> set ?ds \<longleftrightarrow> (d, n) \<in> links g" for d using dag_wfD(3) [OF wf n] .
  then have "\<And>d. d \<in> set ?ds \<Longrightarrow> d < length f" using dag_wfD(4) [OF wf] Cons.prems(2) by auto
  from mark_dependencies [of ?ds f, where s = s and P = P, OF this] obtain f1 P1 where
    1: "fold_res (mark_dependency s) (f, P) ?ds = Inr (f1, P1)" "set P1 = set P \<union> set ?ds"
      "length f1 = length f" "\<And>n. f1 ! n = (if n \<in> set ?ds then s else f ! n)" by auto
  obtain f' P' where 2: "fold_res (mark_node g s) (f1, P1) ns = Inr (f', P')" "set P' = set P1 \<union> preds g (set ns)"
    "length f' = dag_size g" "\<And>n. f' ! n = (if n \<in> preds g (set ns) then s else f1 ! n)"
    using Cons.IH [of f1 P1] Cons.prems 1(3) by auto
  have p: "preds g (set (n # ns)) = set ?ds \<union> preds g (set ns)" using ds by (auto simp: preds_def)
  have "fold_res (mark_node g s) (f, P) (n # ns) = Inr (f', P')"
    using 1(1) 2(1) n by (simp add: mark_node_def dag_size_def)
  moreover have "f' ! k = (if k \<in> set ?ds \<union> preds g (set ns) then s else f ! k)" for k
    by (simp add: 1(4) 2(4))
  moreover have "set P' = set P \<union> (set ?ds \<union> preds g (set ns))" by (simp add: 1(2) 2(2) Un_assoc)
  ultimately show ?case using 2(3) unfolding p by blast
qed (simp add: preds_def)

definition stage_inv :: "('t, 'l) DAG \<Rightarrow> nat list \<Rightarrow> nat set \<Rightarrow> nat \<Rightarrow> bool" where
  "stage_inv g f C s \<longleftrightarrow> length f = dag_size g \<and> C \<subseteq> {..<dag_size g}
     \<and> (\<forall>n \<in> C. f ! n = s) \<and> (\<forall>n < dag_size g. n \<notin> C \<longrightarrow> f ! n < s)
     \<and> (\<forall>d n. (d, n) \<in> links g \<longrightarrow> n \<notin> C \<longrightarrow> 1 \<le> f ! n \<longrightarrow> f ! n < f ! d)
     \<and> (\<forall>n < dag_size g. links g `` {n} = {} \<longrightarrow> 1 \<le> f ! n)"

lemma stage_inv_step:
  assumes wf: "dag_wf g" and inv: "stage_inv g f C s" and len: "length f' = dag_size g"
    and f': "\<And>n. f' ! n = (if n \<in> preds g C then s + 1 else f ! n)"
  shows "stage_inv g f' (preds g C) (s + 1)"
proof -
  note I = inv [unfolded stage_inv_def]
  have le: "f ! n \<le> s" if "n < dag_size g" for n using I that by (cases "n \<in> C") (auto intro: less_imp_le)
  have "f' ! n < f' ! d" if e: "(d, n) \<in> links g" and n: "n \<notin> preds g C" "1 \<le> f' ! n" for d n
  proof -
    note r = dag_wfD(4) [OF wf e]
    show ?thesis
    proof (cases "n \<in> C")
      case True
      then have "d \<in> preds g C" using e by (auto simp: preds_def)
      then show ?thesis using n(1) True I unfolding f' by simp
    next
      case False
      then have "f ! n < f ! d" using I e n unfolding f' by simp
      moreover have "f ! d \<le> f' ! d" using le [of d] r unfolding f' by simp
      ultimately show ?thesis using n(1) unfolding f' [of n] by simp
    qed
  qed
  moreover have "f' ! n < s + 1" if "n < dag_size g" "n \<notin> preds g C" for n
    using le [OF that(1)] that(2) unfolding f' by simp
  moreover have "preds g C \<subseteq> {..<dag_size g}" using dag_wfD(4) [OF wf] by (auto simp: preds_def)
  moreover have "1 \<le> f' ! n" if "n < dag_size g" "links g `` {n} = {}" for n
    using I that unfolding f' by simp
  ultimately show ?thesis unfolding stage_inv_def using len f' by simp
qed

lemma finish_loop_spec:
  assumes wf: "dag_wf g" and pos: "\<And>d n. (d, n) \<in> links g \<Longrightarrow> pos d < (pos n :: nat)"
    and "stage_inv g f (set C) s" and "\<And>n. n \<in> set C \<Longrightarrow> pos n < fuel"
  shows "\<exists>f' s'. finish_loop (Suc fuel) g f C s = Inr (f', s') \<and> stage_inv g f' {} s'"
  using assms(3-)
proof (induction fuel arbitrary: f C s)
  case 0
  then show ?case by (cases C) auto
next
  case (Suc fuel)
  show ?case
  proof (cases "C = []")
    case True
    then show ?thesis using Suc.prems(1) by simp
  next
    case False
    have "\<And>n. n \<in> set C \<Longrightarrow> n < dag_size g" "length f = dag_size g"
      using Suc.prems(1) by (auto simp: stage_inv_def)
    from mark_nodes [of g C f, where s = "s + 1" and P = "[]", OF wf this] obtain f1 C1 where
      1: "fold_res (mark_node g (s + 1)) (f, []) C = Inr (f1, C1)" "set C1 = preds g (set C)"
        "length f1 = dag_size g" "\<And>n. f1 ! n = (if n \<in> preds g (set C) then s + 1 else f ! n)" by auto
    have "stage_inv g f1 (set C1) (s + 1)"
      unfolding 1(2) using stage_inv_step [OF wf Suc.prems(1) 1(3,4)] .
    moreover have "\<And>d. d \<in> set C1 \<Longrightarrow> pos d < fuel"
      unfolding 1(2) using pos Suc.prems(2) by (fastforce simp: preds_def)
    ultimately show ?thesis using Suc.IH [of f1 C1 "s + 1"] 1(1) False by simp
  qed
qed

lemma stage_inv_init:
  assumes wf: "dag_wf g"
  shows "stage_inv g (map (\<lambda>n. if dependents_with_metadata n = [] then 1 else 0) (dag_nodes g))
     (set (filter (\<lambda>i. dependents_with_metadata (dag_nodes g ! i) = []) [0..<dag_size g])) 1"
    (is "stage_inv g ?f ?C 1")
proof -
  have f: "?f ! n = (if n \<in> ?C then 1 else 0)" if "n < dag_size g" for n
    using that by (simp add: dag_size_def)
  have "n \<in> ?C" if "n < dag_size g" "links g `` {n} = {}" for n
    using that by (auto simp: links_def)
  moreover have "?f ! n < ?f ! d" if "(d, n) \<in> links g" "n \<notin> ?C" "1 \<le> ?f ! n" for d n
    using that f [of n] dag_wfD(4) [OF wf that(1)] by simp
  ultimately show ?thesis unfolding stage_inv_def using f by (auto simp: dag_size_def)
qed

lemma stage_offsets_positive:
  assumes wf: "dag_wf g" and ac: "acyclic (links g)" and inv: "stage_inv g f {} s" and "n < dag_size g"
  shows "1 \<le> f ! n \<and> f ! n < s"
proof -
  have "wf ((links g)\<inverse>)" using finite_links [OF wf] ac by (intro finite_acyclic_wf_converse)
  then have "n < dag_size g \<longrightarrow> 1 \<le> f ! n"
  proof (induction n rule: wf_induct_rule)
    case (less n)
    show ?case
    proof (cases "links g `` {n} = {}")
      case True
      then show ?thesis using inv by (auto simp: stage_inv_def)
    next
      case False
      then obtain m where m: "(n, m) \<in> links g" by blast
      then have "1 \<le> f ! m" using less dag_wfD(4) [OF wf m] by simp
      then have "f ! m < f ! n" using inv m by (auto simp: stage_inv_def)
      then show ?thesis by simp
    qed
  qed
  then show ?thesis using assms(3,4) by (auto simp: stage_inv_def)
qed

lemma start_fold:
  fixes f :: "nat list"
  assumes "\<And>d. d \<in> set ds \<Longrightarrow> d < length f"
  shows "\<exists>a'. fold_res (\<lambda>stage d. and_then (vec_at f d) (\<lambda>offset.
           let candidate = s - offset + 1 in Inr (if candidate > stage then candidate else stage))) a ds = Inr a'
    \<and> a \<le> a' \<and> (\<forall>d \<in> set ds. s - f ! d < a') \<and> (a' = a \<or> (\<exists>d \<in> set ds. a' = s - f ! d + 1))"
    (is "\<exists>a'. fold_res ?F a ds = Inr a' \<and> _")
  using assms
proof (induction ds arbitrary: a)
  case (Cons d ds)
  define b where "b = max a (s - f ! d + 1)"
  obtain a' where IH: "fold_res ?F b ds = Inr a'" "b \<le> a'" "\<forall>d \<in> set ds. s - f ! d < a'"
    "a' = b \<or> (\<exists>d \<in> set ds. a' = s - f ! d + 1)"
    using Cons.IH [of b] Cons.prems by auto
  have "?F a d = Inr b" using Cons.prems [of d] by (auto simp: b_def Let_def max_def)
  then have "fold_res ?F a (d # ds) = Inr a'" unfolding fold_res.simps using IH(1) by simp
  moreover have "a \<le> b" "s - f ! d < b" "b = a \<or> b = s - f ! d + 1" by (auto simp: b_def max_def)
  ultimately show ?case using IH(2-4) by (intro exI [of _ a']) auto
qed simp

lemma start_stage_spec:
  assumes wf: "dag_wf g" and ac: "acyclic (links g)" and inv: "stage_inv g f {} s" and n: "n < dag_size g"
  shows "\<exists>a. start_stage g f (s - 1) n = Inr a \<and> a \<le> s - 1 - f ! n
    \<and> (\<forall>d. (d, n) \<in> links g \<longrightarrow> s - 1 - f ! d < a) \<and> ((\<forall>d. (d, n) \<notin> links g) \<longrightarrow> a = 0)"
proof -
  let ?ds = "dependencies (dag_nodes g ! n)"
  have ds: "d \<in> set ?ds \<longleftrightarrow> (d, n) \<in> links g" for d using dag_wfD(3) [OF wf n] .
  have "\<And>d. d \<in> set ?ds \<Longrightarrow> d < length f" using ds dag_wfD(4) [OF wf] inv by (auto simp: stage_inv_def)
  from start_fold [of ?ds f, where s = "s - 1" and a = 0, OF this] n obtain a where
    a: "start_stage g f (s - 1) n = Inr a" "\<forall>d \<in> set ?ds. s - 1 - f ! d < a"
      "a = 0 \<or> (\<exists>d \<in> set ?ds. a = s - 1 - f ! d + 1)" by (auto simp: start_stage_def dag_size_def)
  have "a \<le> s - 1 - f ! n"
  proof (cases "a = 0")
    case False
    with a(3) obtain d where d: "d \<in> set ?ds" "a = s - 1 - f ! d + 1" by blast
    then have "(d, n) \<in> links g" "d < dag_size g" using ds dag_wfD(4) [OF wf] by auto
    then have "f ! n < f ! d" "f ! d < s"
      using inv stage_offsets_positive [OF wf ac inv] n by (auto simp: stage_inv_def)
    then show ?thesis using d(2) by simp
  qed simp
  moreover have "a = 0" if "\<forall>d. (d, n) \<notin> links g" using that ds a(3) by blast
  ultimately show ?thesis using a ds by blast
qed

lemma collect_starts:
  assumes "\<And>n. n \<in> set ns \<Longrightarrow> h n = Inr (b n)"
  shows "fold_res (\<lambda>starts n. and_then (h n) (\<lambda>a. Inr (starts @ [a]))) acc ns = Inr (acc @ map b ns)"
  using assms by (induction ns arbitrary: acc) auto

lemma push_stages_fold:
  assumes "length starts = N" and "length f = N" and "k \<le> N"
    and "\<And>n. n < N \<Longrightarrow> starts ! n < s \<and> s - f ! n < s"
  shows "fold_res (push_stages starts s f) (replicate s ([], [])) [0..<k] =
    Inr (map (\<lambda>i. (filter (\<lambda>n. starts ! n = i) [0..<k], filter (\<lambda>n. s - f ! n = i) [0..<k])) [0..<s])"
  using assms(3)
proof (induction k)
  case 0
  show ?case by (rule sym) (simp add: map_replicate_trivial)
next
  case (Suc k)
  have r: "starts ! k < s" "s - f ! k < s" "k < length starts" "k < length f" using assms Suc.prems by auto
  let ?st = "map (\<lambda>i. (filter (\<lambda>n. starts ! n = i) [0..<k], filter (\<lambda>n. s - f ! n = i) [0..<k])) [0..<s]"
  let ?st1 = "?st[starts ! k := (fst (?st ! (starts ! k)) @ [k], snd (?st ! (starts ! k)))]"
  have "push_stages starts s f ?st k =
      Inr (?st1[s - f ! k := (fst (?st1 ! (s - f ! k)), snd (?st1 ! (s - f ! k)) @ [k])])"
    using r by (simp add: push_stages_def)
  also have "?st1[s - f ! k := (fst (?st1 ! (s - f ! k)), snd (?st1 ! (s - f ! k)) @ [k])] =
      map (\<lambda>i. (filter (\<lambda>n. starts ! n = i) [0..<Suc k], filter (\<lambda>n. s - f ! n = i) [0..<Suc k])) [0..<s]"
    using r by (intro nth_equalityI) (auto simp: nth_list_update)
  finally show ?case using Suc by (simp add: fold_res_append)
qed

lemma computeStageSequence_spec:
  assumes wf: "dag_wf g" and ac: "acyclic (links g)"
  shows "\<exists>stages start finish. computeStageSequence g = Inr stages
    \<and> stages = map (\<lambda>i. (filter (\<lambda>n. start n = i) [0..<dag_size g], filter (\<lambda>n. finish n = i) [0..<dag_size g]))
        [0..<length stages]
    \<and> (\<forall>n < dag_size g. start n \<le> finish n \<and> finish n < length stages)
    \<and> (\<forall>d n. (d, n) \<in> links g \<longrightarrow> finish d < start n)
    \<and> (\<forall>n < dag_size g. (\<forall>d. (d, n) \<notin> links g) \<longrightarrow> start n = 0)"
proof -
  let ?N = "dag_size g"
  let ?sinks = "filter (\<lambda>i. dependents_with_metadata (dag_nodes g ! i) = []) [0..<?N]"
  let ?f0 = "map (\<lambda>n. if dependents_with_metadata n = [] then 1 else 0) (dag_nodes g)"
  obtain pos :: "nat \<Rightarrow> nat" where pos: "\<And>d n. (d, n) \<in> links g \<Longrightarrow> pos d < pos n" "\<And>n. n < ?N \<Longrightarrow> pos n < ?N"
    by (rule topological_number [OF wf ac]) blast
  obtain f s where fin: "finish_loop (Suc ?N) g ?f0 ?sinks 1 = Inr (f, s)" and inv: "stage_inv g f {} s"
    using finish_loop_spec [OF wf _ stage_inv_init [OF wf], of pos ?N] pos by auto
  define start where "start n = projr (start_stage g f (s - 1) n)" for n
  define finish where "finish n = s - 1 - f ! n" for n
  have st: "start_stage g f (s - 1) n = Inr (start n)" "start n \<le> finish n" "\<forall>d. (d, n) \<in> links g \<longrightarrow> finish d < start n"
    "(\<forall>d. (d, n) \<notin> links g) \<longrightarrow> start n = 0" if "n < ?N" for n
    using start_stage_spec [OF wf ac inv that] by (auto simp: start_def finish_def)
  have fi: "finish n < s - 1" if "n < ?N" for n
    using stage_offsets_positive [OF wf ac inv that] by (auto simp: finish_def)
  have starts: "fold_res (\<lambda>starts n. and_then (start_stage g f (s - 1) n) (\<lambda>a. Inr (starts @ [a]))) [] [0..<?N] =
      Inr (map start [0..<?N])"
    using collect_starts [of "[0..<?N]" "start_stage g f (s - 1)" start "[]"] st(1) by simp
  have "fold_res (push_stages (map start [0..<?N]) (s - 1) f) (replicate (s - 1) ([], [])) [0..<?N] =
      Inr (map (\<lambda>i. (filter (\<lambda>n. start n = i) [0..<?N], filter (\<lambda>n. finish n = i) [0..<?N])) [0..<s - 1])"
    (is "_ = Inr ?stages")
  proof -
    have "map start [0..<?N] ! n < s - 1 \<and> s - 1 - f ! n < s - 1" if "n < ?N" for n
      using st(2) [OF that] fi [OF that] that unfolding finish_def by simp
    then have "fold_res (push_stages (map start [0..<?N]) (s - 1) f) (replicate (s - 1) ([], [])) [0..<?N] =
      Inr (map (\<lambda>i. (filter (\<lambda>n. map start [0..<?N] ! n = i) [0..<?N], filter (\<lambda>n. s - 1 - f ! n = i) [0..<?N])) [0..<s - 1])"
      using inv by (intro push_stages_fold) (auto simp: stage_inv_def)
    moreover have "filter (\<lambda>n. map start [0..<?N] ! n = i) [0..<?N] = filter (\<lambda>n. start n = i) [0..<?N]" for i
      by (intro filter_cong) auto
    ultimately show ?thesis by (simp add: finish_def)
  qed
  then have "computeStageSequence g = Inr ?stages"
    using fin starts by (simp add: computeStageSequence_def dag_hasCycle_spec [OF wf] ac Let_def)
  moreover have "finish d < start n" if "(d, n) \<in> links g" for d n
    using that st(3) dag_wfD(4) [OF wf that] by blast
  ultimately show ?thesis using st(2,4) fi
    by (intro exI [of _ ?stages] exI [of _ start] exI [of _ finish]) simp
qed

text \<open>C8. The stage sequence respects the dependencies: on a consistent plan without cycles
  \<^verbatim>\<open>computeStageSequence\<close> returns (its backward pass ends within as many rounds as there are nodes);
  every node starts in one stage and finishes in the same or a later one, every dependency finishes
  in a stage before the dependent starts, nodes without dependencies start in stage 0, and the
  result lists in each stage exactly the nodes that start and that finish there.\<close>

theorem computeStageSequence_correct:
  assumes "dag_wf g" and "acyclic (links g)"
  shows "\<exists>stages start finish. computeStageSequence g = Inr stages
    \<and> stages = map (\<lambda>i. (filter (\<lambda>n. start n = i) [0..<dag_size g], filter (\<lambda>n. finish n = i) [0..<dag_size g]))
        [0..<length stages]
    \<and> (\<forall>n < dag_size g. start n \<le> finish n \<and> finish n < length stages)
    \<and> (\<forall>d n. (d, n) \<in> links g \<longrightarrow> finish d < start n)
    \<and> (\<forall>n < dag_size g. (\<forall>d. (d, n) \<notin> links g) \<longrightarrow> start n = 0)"
  using assms by (rule computeStageSequence_spec)

section \<open>Witnesses\<close>

definition example_dag :: "(nat, bool) DAG" where
  "example_dag = \<lparr>dag_nodes =
     [\<lparr>node_payload = 10, dependencies = [], dependents_with_metadata = [(1, True), (2, False)]\<rparr>,
      \<lparr>node_payload = 11, dependencies = [0], dependents_with_metadata = [(2, True)]\<rparr>,
      \<lparr>node_payload = 12, dependencies = [0, 1], dependents_with_metadata = []\<rparr>]\<rparr>"

lemma links_example: "links example_dag = {(0, 1), (0, 2), (1, 2)}"
  by (auto simp: links_def example_dag_def dag_size_def nth_Cons split: nat.splits)

lemma dag_wf_example: "dag_wf example_dag"
  unfolding dag_wf_def links_example
  by (auto simp: example_dag_def dag_size_def nth_Cons less_Suc_eq split: nat.splits)

lemma acyclic_example: "acyclic (links example_dag)"
  by (rule acyclic_subset [OF wf_acyclic [OF wf_less_than]]) (auto simp: links_example)

theorem createLink_correct_witness:
  "dag_wf example_dag \<and> (case createLink example_dag 2 0 True of
      Inr g' \<Rightarrow> dag_wf g' \<and> links g' = insert (2, 0) (links example_dag) \<and> getLinkMetadata g' 2 0 = Inr True
    | Inl e \<Rightarrow> e = CheckFailed \<and> (\<not> 2 < dag_size example_dag \<or> \<not> 0 < dag_size example_dag \<or> (2, 0) \<in> links example_dag))"
  using dag_wf_example createLink_correct [OF dag_wf_example, of 2 0 True] by blast

theorem dag_hasCycle_correct_witness: "dag_wf example_dag \<and> dag_hasCycle example_dag = Inr False"
  using dag_wf_example acyclic_example dag_hasCycle_correct [OF dag_wf_example] by simp

theorem getTopologicalSorting_correct_witness:
  "dag_wf example_dag \<and> (\<exists>l. getTopologicalSorting example_dag = Inr l \<and> set l = {..<dag_size example_dag})"
  using dag_wf_example acyclic_example getTopologicalSorting_correct [OF dag_wf_example] by auto

theorem computeStageSequence_correct_witness:
  "dag_wf example_dag \<and> acyclic (links example_dag) \<and> (\<exists>stages. computeStageSequence example_dag = Inr stages)"
  using dag_wf_example acyclic_example computeStageSequence_correct [OF dag_wf_example acyclic_example] by blast

end
