(* ===== verification/WorkOrders.thy ===== *)
theory WorkOrders
  imports Prelude
begin

text \<open>
  The store of pending work orders of a query (\<^verbatim>\<open>WorkOrdersContainer\<close>) and the two selection policies
  (\<^verbatim>\<open>WorkOrderSelectionPolicy\<close>).  Work orders wait in per-operator containers, split by their
  preferred NUMA nodes; a policy remembers, for every waiting work order, the index of its operator
  and decides which operator is served next.  The correctness of the store rests on the agreement
  of the policy with the containers.
\<close>

section \<open>Selection policies\<close>

text \<open>What a policy promises, over the multiset of operator indices it holds.\<close>

locale selection_policy =
  fixes has :: "'p \<Rightarrow> bool" and add :: "'p \<Rightarrow> nat \<Rightarrow> 'p" and next_index :: "'p \<Rightarrow> (nat \<times> 'p) result"
    and held :: "'p \<Rightarrow> nat multiset"
  assumes has_iff: "has p \<longleftrightarrow> held p \<noteq> {#}"
    and held_add: "held (add p i) = add_mset i (held p)"
    and next_ok: "has p \<Longrightarrow> \<exists>i p'. next_index p = Inr (i, p') \<and> held p = add_mset i (held p')"
    and next_fails: "\<not> has p \<Longrightarrow> next_index p = Inl CheckFailed"
begin

lemma next_cases:
  obtains "next_index p = Inl CheckFailed" and "held p = {#}"
  | i p' where "next_index p = Inr (i, p')" and "held p = add_mset i (held p')"
  using has_iff next_ok next_fails by metis

end

text \<open>First in, first out: a queue with its front at the head of the list.\<close>

record FifoWorkOrderSelectionPolicy =
  fifo_work_orders :: "nat list"

definition fifo_hasWorkOrder :: "FifoWorkOrderSelectionPolicy \<Rightarrow> bool" where
  "fifo_hasWorkOrder p \<longleftrightarrow> fifo_work_orders p \<noteq> []"

definition fifo_addWorkOrder :: "FifoWorkOrderSelectionPolicy \<Rightarrow> nat \<Rightarrow> FifoWorkOrderSelectionPolicy" where
  "fifo_addWorkOrder p operator_index = p\<lparr>fifo_work_orders := fifo_work_orders p @ [operator_index]\<rparr>"

definition fifo_getOperatorIndexForNextWorkOrder ::
    "FifoWorkOrderSelectionPolicy \<Rightarrow> (nat \<times> FifoWorkOrderSelectionPolicy) result" where
  "fifo_getOperatorIndexForNextWorkOrder p =
     (case fifo_work_orders p of
        [] \<Rightarrow> Inl CheckFailed
      | operator_index # rest \<Rightarrow> Inr (operator_index, p\<lparr>fifo_work_orders := rest\<rparr>))"

text \<open>Last in, first out: a stack with its top at the head of the list.\<close>

record LifoWorkOrderSelectionPolicy =
  lifo_work_orders :: "nat list"

definition lifo_hasWorkOrder :: "LifoWorkOrderSelectionPolicy \<Rightarrow> bool" where
  "lifo_hasWorkOrder p \<longleftrightarrow> lifo_work_orders p \<noteq> []"

definition lifo_addWorkOrder :: "LifoWorkOrderSelectionPolicy \<Rightarrow> nat \<Rightarrow> LifoWorkOrderSelectionPolicy" where
  "lifo_addWorkOrder p operator_index = p\<lparr>lifo_work_orders := operator_index # lifo_work_orders p\<rparr>"

definition lifo_getOperatorIndexForNextWorkOrder ::
    "LifoWorkOrderSelectionPolicy \<Rightarrow> (nat \<times> LifoWorkOrderSelectionPolicy) result" where
  "lifo_getOperatorIndexForNextWorkOrder p =
     (case lifo_work_orders p of
        [] \<Rightarrow> Inl CheckFailed
      | operator_index # rest \<Rightarrow> Inr (operator_index, p\<lparr>lifo_work_orders := rest\<rparr>))"

interpretation fifo: selection_policy fifo_hasWorkOrder fifo_addWorkOrder
    fifo_getOperatorIndexForNextWorkOrder "\<lambda>p. mset (fifo_work_orders p)"
  by unfold_locales
    (auto simp: fifo_hasWorkOrder_def fifo_addWorkOrder_def fifo_getOperatorIndexForNextWorkOrder_def
      split: list.split)

interpretation lifo: selection_policy lifo_hasWorkOrder lifo_addWorkOrder
    lifo_getOperatorIndexForNextWorkOrder "\<lambda>p. mset (lifo_work_orders p)"
  by unfold_locales
    (auto simp: lifo_hasWorkOrder_def lifo_addWorkOrder_def lifo_getOperatorIndexForNextWorkOrder_def
      split: list.split)

section \<open>Containers of one operator\<close>

record WorkOrder =
  work_order_id :: nat
  getPreferredNUMANodes :: "int list"

text \<open>\<^verbatim>\<open>InternalQueueContainer\<close>, and the operations it shares with \<^verbatim>\<open>InternalListContainer\<close>: a queue of work
  orders; the null pointer is \<open>None\<close>.\<close>

definition queue_addWorkOrder :: "WorkOrder list \<Rightarrow> WorkOrder \<Rightarrow> WorkOrder list" where
  "queue_addWorkOrder workorders workorder = workorders @ [workorder]"

definition queue_getWorkOrder :: "WorkOrder list \<Rightarrow> WorkOrder option \<times> WorkOrder list" where
  "queue_getWorkOrder workorders =
     (case workorders of [] \<Rightarrow> (None, []) | work_order # rest \<Rightarrow> (Some work_order, rest))"

definition prefers :: "int \<Rightarrow> WorkOrder \<Rightarrow> bool" where
  "prefers numa_node w \<longleftrightarrow> getPreferredNUMANodes w \<noteq> [] \<and> numa_node \<in> set (getPreferredNUMANodes w)"

fun list_getWorkOrderForNUMANode :: "WorkOrder list \<Rightarrow> int \<Rightarrow> WorkOrder option \<times> WorkOrder list" where
  "list_getWorkOrderForNUMANode [] numa_node = (None, [])"
| "list_getWorkOrderForNUMANode (w # ws) numa_node =
     (if prefers numa_node w then (Some w, ws)
      else (let (r, ws') = list_getWorkOrderForNUMANode ws numa_node in (r, w # ws')))"

definition list_hasWorkOrderForNUMANode :: "WorkOrder list \<Rightarrow> int \<Rightarrow> bool" where
  "list_hasWorkOrderForNUMANode ws numa_node = list_ex (prefers numa_node) ws"

definition list_getNumWorkOrdersForNUMANode :: "WorkOrder list \<Rightarrow> int \<Rightarrow> nat" where
  "list_getNumWorkOrdersForNUMANode ws numa_node = length (filter (prefers numa_node) ws)"

record OperatorWorkOrdersContainer =
  numa_agnostic_workorders :: "WorkOrder list"
  single_numa_node_workorders :: "WorkOrder list list"
  multiple_numa_nodes_workorders :: "WorkOrder list"

definition new_operator_container :: "nat \<Rightarrow> OperatorWorkOrdersContainer" where
  "new_operator_container num_numa_nodes = \<lparr>numa_agnostic_workorders = [],
     single_numa_node_workorders = replicate num_numa_nodes [], multiple_numa_nodes_workorders = []\<rparr>"

abbreviation num_numa_nodes :: "OperatorWorkOrdersContainer \<Rightarrow> nat" where
  "num_numa_nodes c \<equiv> length (single_numa_node_workorders c)"

text \<open>A vector indexed by a signed node number.\<close>

definition numa_index :: "OperatorWorkOrdersContainer \<Rightarrow> cpp_error \<Rightarrow> int \<Rightarrow> nat result" where
  "numa_index c e numa_node =
     and_then (check e (0 \<le> numa_node \<and> nat numa_node < num_numa_nodes c)) (\<lambda>_. Inr (nat numa_node))"

definition op_addWorkOrder :: "OperatorWorkOrdersContainer \<Rightarrow> WorkOrder \<Rightarrow> OperatorWorkOrdersContainer result" where
  "op_addWorkOrder c workorder =
     (case getPreferredNUMANodes workorder of
        [] \<Rightarrow> Inr (c\<lparr>numa_agnostic_workorders := queue_addWorkOrder (numa_agnostic_workorders c) workorder\<rparr>)
      | [numa_node] \<Rightarrow> and_then (numa_index c OutOfRange numa_node) (\<lambda>i.
          Inr (c\<lparr>single_numa_node_workorders := (single_numa_node_workorders c)
                   [i := queue_addWorkOrder (single_numa_node_workorders c ! i) workorder]\<rparr>))
      | _ \<Rightarrow> Inr (c\<lparr>multiple_numa_nodes_workorders :=
                      queue_addWorkOrder (multiple_numa_nodes_workorders c) workorder\<rparr>))"

definition op_hasWorkOrderForNUMANode :: "OperatorWorkOrdersContainer \<Rightarrow> int \<Rightarrow> bool result" where
  "op_hasWorkOrderForNUMANode c numa_node_id =
     and_then (numa_index c CheckFailed numa_node_id) (\<lambda>i.
       Inr (single_numa_node_workorders c ! i \<noteq> []
          \<or> list_hasWorkOrderForNUMANode (multiple_numa_nodes_workorders c) numa_node_id))"

definition op_hasWorkOrder :: "OperatorWorkOrdersContainer \<Rightarrow> bool result" where
  "op_hasWorkOrder c =
     (if \<not> (numa_agnostic_workorders c \<noteq> [] \<or> multiple_numa_nodes_workorders c \<noteq> []) then
        fold_res (\<lambda>found i. if found then Inr True else op_hasWorkOrderForNUMANode c (int i))
          False [0..<num_numa_nodes c]
      else Inr True)"

definition op_getNumWorkOrdersForNUMANode :: "OperatorWorkOrdersContainer \<Rightarrow> int \<Rightarrow> nat result" where
  "op_getNumWorkOrdersForNUMANode c numa_node_id =
     and_then (numa_index c CheckFailed numa_node_id) (\<lambda>i.
       Inr (length (single_numa_node_workorders c ! i)
          + list_getNumWorkOrdersForNUMANode (multiple_numa_nodes_workorders c) numa_node_id))"

definition op_getNumWorkOrders :: "OperatorWorkOrdersContainer \<Rightarrow> nat" where
  "op_getNumWorkOrders c =
     fold (\<lambda>q num_workorders. num_workorders + length q) (single_numa_node_workorders c)
       (length (numa_agnostic_workorders c)) + length (multiple_numa_nodes_workorders c)"

definition op_getWorkOrderForNUMANode ::
    "OperatorWorkOrdersContainer \<Rightarrow> int \<Rightarrow> (WorkOrder option \<times> OperatorWorkOrdersContainer) result" where
  "op_getWorkOrderForNUMANode c numa_node_id =
     and_then (numa_index c CheckFailed numa_node_id) (\<lambda>i.
       (case queue_getWorkOrder (single_numa_node_workorders c ! i) of
          (Some w, q) \<Rightarrow> Inr (Some w, c\<lparr>single_numa_node_workorders := (single_numa_node_workorders c)[i := q]\<rparr>)
        | (None, q) \<Rightarrow>
            (let (r, ws) = list_getWorkOrderForNUMANode (multiple_numa_nodes_workorders c) numa_node_id in
             Inr (r, c\<lparr>multiple_numa_nodes_workorders := ws\<rparr>))))"

fun getSingleNUMANodeWorkOrderHelper :: "WorkOrder list list \<Rightarrow> WorkOrder option \<times> WorkOrder list list" where
  "getSingleNUMANodeWorkOrderHelper [] = (None, [])"
| "getSingleNUMANodeWorkOrderHelper (q # qs) =
     (case queue_getWorkOrder q of
        (Some w, q') \<Rightarrow> (Some w, q' # qs)
      | (None, q') \<Rightarrow> (let (r, qs') = getSingleNUMANodeWorkOrderHelper qs in (r, q' # qs')))"

definition take_single :: "OperatorWorkOrdersContainer \<Rightarrow> WorkOrder option \<times> OperatorWorkOrdersContainer" where
  "take_single c = (let (r, qs) = getSingleNUMANodeWorkOrderHelper (single_numa_node_workorders c) in
     (r, c\<lparr>single_numa_node_workorders := qs\<rparr>))"

definition take_multiple :: "OperatorWorkOrdersContainer \<Rightarrow> WorkOrder option \<times> OperatorWorkOrdersContainer" where
  "take_multiple c = (let (r, ws) = queue_getWorkOrder (multiple_numa_nodes_workorders c) in
     (r, c\<lparr>multiple_numa_nodes_workorders := ws\<rparr>))"

definition op_getWorkOrder ::
    "OperatorWorkOrdersContainer \<Rightarrow> bool \<Rightarrow> WorkOrder option \<times> OperatorWorkOrdersContainer" where
  "op_getWorkOrder c prefer_single_NUMA_node =
     (case queue_getWorkOrder (numa_agnostic_workorders c) of
        (Some w, q) \<Rightarrow> (Some w, c\<lparr>numa_agnostic_workorders := q\<rparr>)
      | (None, q) \<Rightarrow>
          if prefer_single_NUMA_node then
            (case take_single c of (Some w, c') \<Rightarrow> (Some w, c') | (None, c') \<Rightarrow> take_multiple c')
          else
            (case take_multiple c of (Some w, c') \<Rightarrow> (Some w, c') | (None, c') \<Rightarrow> take_single c'))"

section \<open>The container of a query\<close>

record WorkOrdersContainer =
  container_numa_nodes :: nat
  normal_workorders :: "OperatorWorkOrdersContainer list"
  rebuild_workorders :: "OperatorWorkOrdersContainer list"
  normal_work_orders_policy :: LifoWorkOrderSelectionPolicy
  rebuild_work_orders_policy :: FifoWorkOrderSelectionPolicy

definition new_container :: "nat \<Rightarrow> nat \<Rightarrow> WorkOrdersContainer result" where
  "new_container num_operators numa_nodes =
     and_then (check CheckFailed (num_operators \<noteq> 0)) (\<lambda>_.
       Inr \<lparr>container_numa_nodes = numa_nodes,
         normal_workorders = replicate num_operators (new_operator_container numa_nodes),
         rebuild_workorders = replicate num_operators (new_operator_container numa_nodes),
         normal_work_orders_policy = \<lparr>lifo_work_orders = []\<rparr>,
         rebuild_work_orders_policy = \<lparr>fifo_work_orders = []\<rparr>\<rparr>)"

text \<open>The checks at the head of the operations.\<close>

definition operator_container ::
    "OperatorWorkOrdersContainer list \<Rightarrow> nat \<Rightarrow> OperatorWorkOrdersContainer result" where
  "operator_container cs operator_index =
     and_then (check CheckFailed (operator_index < length cs)) (\<lambda>_. vec_at cs operator_index)"

definition check_numa_node :: "WorkOrdersContainer \<Rightarrow> int \<Rightarrow> unit result" where
  "check_numa_node c numa_node_id =
     check CheckFailed (0 \<le> numa_node_id \<and> nat numa_node_id < container_numa_nodes c)"

definition hasNormalWorkOrder :: "WorkOrdersContainer \<Rightarrow> nat \<Rightarrow> bool result" where
  "hasNormalWorkOrder c operator_index =
     and_then (operator_container (normal_workorders c) operator_index) op_hasWorkOrder"

definition hasNormalWorkOrderForNUMANode :: "WorkOrdersContainer \<Rightarrow> nat \<Rightarrow> int \<Rightarrow> bool result" where
  "hasNormalWorkOrderForNUMANode c operator_index numa_node_id =
     and_then (operator_container (normal_workorders c) operator_index) (\<lambda>oc.
     and_then (check_numa_node c numa_node_id) (\<lambda>_. op_hasWorkOrderForNUMANode oc numa_node_id))"

definition hasRebuildWorkOrder :: "WorkOrdersContainer \<Rightarrow> nat \<Rightarrow> bool result" where
  "hasRebuildWorkOrder c operator_index =
     and_then (operator_container (rebuild_workorders c) operator_index) op_hasWorkOrder"

definition hasRebuildWorkOrderForNUMANode :: "WorkOrdersContainer \<Rightarrow> nat \<Rightarrow> int \<Rightarrow> bool result" where
  "hasRebuildWorkOrderForNUMANode c operator_index numa_node_id =
     and_then (operator_container (rebuild_workorders c) operator_index) (\<lambda>oc.
     and_then (check_numa_node c numa_node_id) (\<lambda>_. op_hasWorkOrderForNUMANode oc numa_node_id))"

definition getNormalWorkOrderForNUMANode ::
    "WorkOrdersContainer \<Rightarrow> nat \<Rightarrow> int \<Rightarrow> (WorkOrder option \<times> WorkOrdersContainer) result" where
  "getNormalWorkOrderForNUMANode c operator_index numa_node_id =
     and_then (operator_container (normal_workorders c) operator_index) (\<lambda>oc.
     and_then (check_numa_node c numa_node_id) (\<lambda>_.
     and_then (op_getWorkOrderForNUMANode oc numa_node_id) (\<lambda>(w, oc').
       Inr (w, c\<lparr>normal_workorders := (normal_workorders c)[operator_index := oc']\<rparr>))))"

definition getNormalWorkOrder ::
    "WorkOrdersContainer \<Rightarrow> nat \<Rightarrow> bool \<Rightarrow> (WorkOrder option \<times> WorkOrdersContainer) result" where
  "getNormalWorkOrder c operator_index prefer_single_NUMA_node =
     and_then (operator_container (normal_workorders c) operator_index) (\<lambda>oc.
       (let (w, oc') = op_getWorkOrder oc prefer_single_NUMA_node in
        Inr (w, c\<lparr>normal_workorders := (normal_workorders c)[operator_index := oc']\<rparr>)))"

definition getRebuildWorkOrderForNUMANode ::
    "WorkOrdersContainer \<Rightarrow> nat \<Rightarrow> int \<Rightarrow> (WorkOrder option \<times> WorkOrdersContainer) result" where
  "getRebuildWorkOrderForNUMANode c operator_index numa_node_id =
     and_then (operator_container (rebuild_workorders c) operator_index) (\<lambda>oc.
     and_then (check_numa_node c numa_node_id) (\<lambda>_.
     and_then (op_getWorkOrderForNUMANode oc numa_node_id) (\<lambda>(w, oc').
       Inr (w, c\<lparr>rebuild_workorders := (rebuild_workorders c)[operator_index := oc']\<rparr>))))"

definition getRebuildWorkOrder ::
    "WorkOrdersContainer \<Rightarrow> nat \<Rightarrow> bool \<Rightarrow> (WorkOrder option \<times> WorkOrdersContainer) result" where
  "getRebuildWorkOrder c operator_index prefer_single_NUMA_node =
     and_then (operator_container (rebuild_workorders c) operator_index) (\<lambda>oc.
       (let (w, oc') = op_getWorkOrder oc prefer_single_NUMA_node in
        Inr (w, c\<lparr>rebuild_workorders := (rebuild_workorders c)[operator_index := oc']\<rparr>)))"

text \<open>\<open>getNextWorkOrder\<close>: the work order with the index of its operator and whether it is a rebuild
  work order; \<open>None\<close> when nothing is pending.\<close>

definition getNextWorkOrder ::
    "WorkOrdersContainer \<Rightarrow> ((WorkOrder option \<times> nat \<times> bool) option \<times> WorkOrdersContainer) result" where
  "getNextWorkOrder c =
     (if fifo_hasWorkOrder (rebuild_work_orders_policy c) then
        and_then (fifo_getOperatorIndexForNextWorkOrder (rebuild_work_orders_policy c)) (\<lambda>(operator_index, p).
        and_then (vec_at (rebuild_workorders c) operator_index) (\<lambda>oc.
          (let (w, oc') = op_getWorkOrder oc True in
           Inr (Some (w, operator_index, True),
                c\<lparr>rebuild_work_orders_policy := p,
                  rebuild_workorders := (rebuild_workorders c)[operator_index := oc']\<rparr>))))
      else if lifo_hasWorkOrder (normal_work_orders_policy c) then
        and_then (lifo_getOperatorIndexForNextWorkOrder (normal_work_orders_policy c)) (\<lambda>(operator_index, p).
        and_then (vec_at (normal_workorders c) operator_index) (\<lambda>oc.
          (let (w, oc') = op_getWorkOrder oc True in
           Inr (Some (w, operator_index, False),
                c\<lparr>normal_work_orders_policy := p,
                  normal_workorders := (normal_workorders c)[operator_index := oc']\<rparr>))))
      else Inr (None, c))"

definition addNormalWorkOrder :: "WorkOrdersContainer \<Rightarrow> WorkOrder \<Rightarrow> nat \<Rightarrow> WorkOrdersContainer result" where
  "addNormalWorkOrder c workorder operator_index =
     and_then (operator_container (normal_workorders c) operator_index) (\<lambda>oc.
     and_then (op_addWorkOrder oc workorder) (\<lambda>oc'.
       Inr (c\<lparr>normal_workorders := (normal_workorders c)[operator_index := oc'],
              normal_work_orders_policy := lifo_addWorkOrder (normal_work_orders_policy c) operator_index\<rparr>)))"

definition addRebuildWorkOrder :: "WorkOrdersContainer \<Rightarrow> WorkOrder \<Rightarrow> nat \<Rightarrow> WorkOrdersContainer result" where
  "addRebuildWorkOrder c workorder operator_index =
     and_then (operator_container (rebuild_workorders c) operator_index) (\<lambda>oc.
     and_then (op_addWorkOrder oc workorder) (\<lambda>oc'.
       Inr (c\<lparr>rebuild_workorders := (rebuild_workorders c)[operator_index := oc'],
              rebuild_work_orders_policy := fifo_addWorkOrder (rebuild_work_orders_policy c) operator_index\<rparr>)))"

definition getNumNormalWorkOrdersForNUMANode :: "WorkOrdersContainer \<Rightarrow> nat \<Rightarrow> int \<Rightarrow> nat result" where
  "getNumNormalWorkOrdersForNUMANode c operator_index numa_node_id =
     and_then (operator_container (normal_workorders c) operator_index) (\<lambda>oc.
     and_then (check_numa_node c numa_node_id) (\<lambda>_. op_getNumWorkOrdersForNUMANode oc numa_node_id))"

definition getNumNormalWorkOrders :: "WorkOrdersContainer \<Rightarrow> nat \<Rightarrow> nat result" where
  "getNumNormalWorkOrders c operator_index =
     and_then (operator_container (normal_workorders c) operator_index) (\<lambda>oc. Inr (op_getNumWorkOrders oc))"

definition getNumRebuildWorkOrdersForNUMANode :: "WorkOrdersContainer \<Rightarrow> nat \<Rightarrow> int \<Rightarrow> nat result" where
  "getNumRebuildWorkOrdersForNUMANode c operator_index numa_node_id =
     and_then (operator_container (rebuild_workorders c) operator_index) (\<lambda>oc.
     and_then (check_numa_node c numa_node_id) (\<lambda>_. op_getNumWorkOrdersForNUMANode oc numa_node_id))"

definition getNumRebuildWorkOrders :: "WorkOrdersContainer \<Rightarrow> nat \<Rightarrow> nat result" where
  "getNumRebuildWorkOrders c operator_index =
     and_then (operator_container (rebuild_workorders c) operator_index) (\<lambda>oc. Inr (op_getNumWorkOrders oc))"

definition getNumTotalWorkOrders :: "WorkOrdersContainer \<Rightarrow> nat \<Rightarrow> nat result" where
  "getNumTotalWorkOrders c operator_index =
     and_then (getNumNormalWorkOrders c operator_index) (\<lambda>a.
     and_then (getNumRebuildWorkOrders c operator_index) (\<lambda>b. Inr (a + b)))"

section \<open>The multiset of pending work orders\<close>

definition op_orders :: "OperatorWorkOrdersContainer \<Rightarrow> WorkOrder multiset" where
  "op_orders c = mset (numa_agnostic_workorders c) + mset (concat (single_numa_node_workorders c))
     + mset (multiple_numa_nodes_workorders c)"

text \<open>Work orders wait where their preference puts them.\<close>

definition op_inv :: "OperatorWorkOrdersContainer \<Rightarrow> bool" where
  "op_inv c \<longleftrightarrow> (\<forall>w \<in> set (numa_agnostic_workorders c). getPreferredNUMANodes w = [])
     \<and> (\<forall>i < num_numa_nodes c. \<forall>w \<in> set (single_numa_node_workorders c ! i). getPreferredNUMANodes w = [int i])
     \<and> (\<forall>w \<in> set (multiple_numa_nodes_workorders c). length (getPreferredNUMANodes w) \<ge> 2)"

lemma mset_concat_update:
  "i < length xs \<Longrightarrow> mset (concat (xs[i := ys])) + mset (xs ! i) = mset (concat xs) + mset ys"
proof (induction xs arbitrary: i)
  case (Cons x xs)
  then show ?case by (cases i) (auto simp: ac_simps)
qed simp

lemma op_orders_new [simp]: "op_orders (new_operator_container n) = {#}"
  by (simp add: op_orders_def new_operator_container_def concat_replicate_trivial)

lemma op_addWorkOrder_cases:
  assumes "op_addWorkOrder c w = Inr c'"
  obtains (agnostic) "getPreferredNUMANodes w = []"
      "c' = c\<lparr>numa_agnostic_workorders := numa_agnostic_workorders c @ [w]\<rparr>"
    | (single) i where "getPreferredNUMANodes w = [int i]" "i < num_numa_nodes c"
      "c' = c\<lparr>single_numa_node_workorders := (single_numa_node_workorders c)
                [i := single_numa_node_workorders c ! i @ [w]]\<rparr>"
    | (multiple) "length (getPreferredNUMANodes w) \<ge> 2"
      "c' = c\<lparr>multiple_numa_nodes_workorders := multiple_numa_nodes_workorders c @ [w]\<rparr>"
proof (cases "getPreferredNUMANodes w")
  case Nil
  then show ?thesis using assms agnostic by (simp add: op_addWorkOrder_def queue_addWorkOrder_def)
next
  case (Cons n ns)
  show ?thesis
  proof (cases ns)
    case Nil
    then have "0 \<le> n" "nat n < num_numa_nodes c"
      "c' = c\<lparr>single_numa_node_workorders := (single_numa_node_workorders c)
                [nat n := single_numa_node_workorders c ! nat n @ [w]]\<rparr>"
      using assms Cons by (auto simp: op_addWorkOrder_def numa_index_def queue_addWorkOrder_def res_simps)
    then show ?thesis using single [of "nat n"] Cons Nil by simp
  next
    case (Cons m ms)
    then show ?thesis using assms multiple \<open>getPreferredNUMANodes w = n # ns\<close>
      by (simp add: op_addWorkOrder_def queue_addWorkOrder_def)
  qed
qed

lemma op_addWorkOrder_orders:
  assumes "op_addWorkOrder c w = Inr c'"
  shows "op_orders c' = add_mset w (op_orders c)" and "num_numa_nodes c' = num_numa_nodes c"
    and "op_inv c \<Longrightarrow> op_inv c'"
  using assms
proof (atomize (full), cases rule: op_addWorkOrder_cases)
  case (single i)
  then have "mset (concat (single_numa_node_workorders c')) = mset (concat (single_numa_node_workorders c)) + {#w#}"
    using mset_concat_update [of i "single_numa_node_workorders c" "single_numa_node_workorders c ! i @ [w]"]
    by simp
  then show "op_orders c' = add_mset w (op_orders c) \<and> num_numa_nodes c' = num_numa_nodes c \<and> (op_inv c \<longrightarrow> op_inv c')"
    using single by (auto simp: op_orders_def op_inv_def nth_list_update)
qed (auto simp: op_orders_def op_inv_def)

lemma queue_getWorkOrder_cases:
  obtains "ws = []" "queue_getWorkOrder ws = (None, [])"
    | w ws' where "ws = w # ws'" "queue_getWorkOrder ws = (Some w, ws')"
  by (cases ws) (auto simp: queue_getWorkOrder_def)

text \<open>What taking a work order means for the multiset.\<close>

definition takes :: "WorkOrder multiset \<Rightarrow> WorkOrder option \<Rightarrow> WorkOrder multiset \<Rightarrow> bool" where
  "takes before r after \<longleftrightarrow>
     (case r of None \<Rightarrow> before = {#} \<and> after = {#} | Some w \<Rightarrow> before = add_mset w after)"

lemma single_helper_takes:
  "getSingleNUMANodeWorkOrderHelper qs = (r, qs') \<Longrightarrow>
     takes (mset (concat qs)) r (mset (concat qs')) \<and> length qs' = length qs
     \<and> (\<forall>i < length qs. set (qs' ! i) \<subseteq> set (qs ! i))"
proof (induction qs arbitrary: r qs')
  case (Cons q qs)
  show ?case
  proof (cases rule: queue_getWorkOrder_cases [of q])
    case 1
    obtain r1 qs1 where h: "getSingleNUMANodeWorkOrderHelper qs = (r1, qs1)" by (cases "getSingleNUMANodeWorkOrderHelper qs")
    then have "r = r1" "qs' = [] # qs1" using 1 Cons.prems by auto
    then show ?thesis using Cons.IH [OF h] 1 by (auto simp: nth_Cons split: nat.splits)
  next
    case (2 w q')
    then have "r = Some w" "qs' = q' # qs" using Cons.prems by auto
    then show ?thesis using 2 by (auto simp: takes_def nth_Cons split: nat.splits)
  qed
qed (simp add: takes_def)

lemma take_single_orders:
  assumes "take_single c = (r, c')"
  shows "case r of None \<Rightarrow> op_orders c' = op_orders c \<and> concat (single_numa_node_workorders c) = []
      | Some w \<Rightarrow> op_orders c = add_mset w (op_orders c')"
    and "num_numa_nodes c' = num_numa_nodes c" and "op_inv c \<Longrightarrow> op_inv c'"
    and "multiple_numa_nodes_workorders c' = multiple_numa_nodes_workorders c"
    and "numa_agnostic_workorders c' = numa_agnostic_workorders c"
proof -
  obtain qs where h: "getSingleNUMANodeWorkOrderHelper (single_numa_node_workorders c) = (r, qs)"
    and c': "c' = c\<lparr>single_numa_node_workorders := qs\<rparr>"
    using assms by (auto simp: take_single_def split: prod.splits)
  note S = single_helper_takes [OF h]
  show "case r of None \<Rightarrow> op_orders c' = op_orders c \<and> concat (single_numa_node_workorders c) = []
      | Some w \<Rightarrow> op_orders c = add_mset w (op_orders c')"
    using S by (auto simp: takes_def c' op_orders_def simp del: concat_eq_Nil_conv split: option.splits)
  show "num_numa_nodes c' = num_numa_nodes c" using S by (simp add: c')
  show "op_inv c \<Longrightarrow> op_inv c'" using S unfolding op_inv_def c' by (simp add: subset_iff)
qed (use assms in \<open>auto simp: take_single_def split: prod.splits\<close>)

lemma take_multiple_orders:
  assumes "take_multiple c = (r, c')"
  shows "case r of None \<Rightarrow> op_orders c' = op_orders c \<and> multiple_numa_nodes_workorders c = []
      | Some w \<Rightarrow> op_orders c = add_mset w (op_orders c')"
    and "num_numa_nodes c' = num_numa_nodes c" and "op_inv c \<Longrightarrow> op_inv c'"
    and "single_numa_node_workorders c' = single_numa_node_workorders c"
    and "numa_agnostic_workorders c' = numa_agnostic_workorders c"
  using assms
  by (cases rule: queue_getWorkOrder_cases [of "multiple_numa_nodes_workorders c"];
      auto simp: take_multiple_def op_orders_def op_inv_def)+

lemma op_getWorkOrder_takes:
  assumes "op_getWorkOrder c b = (r, c')"
  shows "takes (op_orders c) r (op_orders c')" and "num_numa_nodes c' = num_numa_nodes c"
    and "op_inv c \<Longrightarrow> op_inv c'"
proof -
  have "takes (op_orders c) r (op_orders c') \<and> num_numa_nodes c' = num_numa_nodes c \<and> (op_inv c \<longrightarrow> op_inv c')"
  proof (cases rule: queue_getWorkOrder_cases [of "numa_agnostic_workorders c"])
    case 1
    obtain r1 c1 where s: "take_single c = (r1, c1)" by (cases "take_single c")
    obtain r2 c2 where m: "take_multiple c = (r2, c2)" by (cases "take_multiple c")
    obtain r3 c3 where sm: "take_multiple c1 = (r3, c3)" by (cases "take_multiple c1")
    obtain r4 c4 where ms: "take_single c2 = (r4, c4)" by (cases "take_single c2")
    note facts = take_single_orders [OF s] take_multiple_orders [OF m] take_multiple_orders [OF sm] take_single_orders [OF ms]
    show ?thesis using assms 1 s m sm ms facts
      by (auto simp: op_getWorkOrder_def takes_def op_orders_def simp del: concat_eq_Nil_conv
          split: if_splits option.splits)
  next
    case (2 w ws)
    then show ?thesis using assms by (auto simp: op_getWorkOrder_def takes_def op_orders_def op_inv_def)
  qed
  then show "takes (op_orders c) r (op_orders c')" "num_numa_nodes c' = num_numa_nodes c" "op_inv c \<Longrightarrow> op_inv c'"
    by auto
qed

lemma op_getNumWorkOrders_size: "op_getNumWorkOrders c = size (op_orders c)"
proof -
  have "fold (\<lambda>q n. n + length q) qs k = k + length (concat qs)" for qs :: "WorkOrder list list" and k
    by (induction qs arbitrary: k) auto
  then show ?thesis by (simp add: op_getNumWorkOrders_def op_orders_def)
qed

text \<open>The orders of a container that prefer a node: under the placement invariant they wait in the queue
  of the node or in the list of orders with several preferences.\<close>

lemma filter_prefers_single:
  assumes "\<And>i w. i < length qs \<Longrightarrow> w \<in> set (qs ! i) \<Longrightarrow> getPreferredNUMANodes w = [int (i + k)]" and "n < length qs"
  shows "filter_mset (prefers (int (n + k))) (mset (concat qs)) = mset (qs ! n)"
  using assms
proof (induction qs arbitrary: n k)
  case (Cons q qs)
  have q: "getPreferredNUMANodes w = [int k]" if "w \<in> set q" for w using Cons.prems(1) [of 0] that by simp
  have qs: "getPreferredNUMANodes w = [int (i + Suc k)]" if "i < length qs" "w \<in> set (qs ! i)" for i w
    using Cons.prems(1) [of "Suc i"] that by simp
  show ?case
  proof (cases n)
    case 0
    have "\<not> prefers (int k) w" if "w \<in> set (concat qs)" for w
      using that qs by (fastforce simp: prefers_def in_set_conv_nth)
    then have "filter (prefers (int k)) (concat qs) = []" by (simp add: filter_empty_conv)
    moreover have "filter (prefers (int k)) q = q" using q by (simp add: prefers_def filter_id_conv)
    ultimately show ?thesis using 0 by (simp flip: mset_filter)
  next
    case (Suc m)
    have "filter (prefers (int (n + k))) q = []" using q Suc by (auto simp: prefers_def filter_empty_conv)
    moreover have "filter_mset (prefers (int (m + Suc k))) (mset (concat qs)) = mset (qs ! m)"
      using Cons.IH [of "Suc k" m] qs Cons.prems(2) Suc by simp
    ultimately show ?thesis using Suc by (simp flip: mset_filter)
  qed
qed simp

lemma filter_prefers_orders:
  assumes "op_inv c" and "n < num_numa_nodes c"
  shows "filter_mset (prefers (int n)) (op_orders c) =
    mset (single_numa_node_workorders c ! n) + mset (filter (prefers (int n)) (multiple_numa_nodes_workorders c))"
proof -
  have "filter (prefers (int n)) (numa_agnostic_workorders c) = []"
    using assms(1) by (auto simp: op_inv_def prefers_def filter_empty_conv)
  moreover have "filter_mset (prefers (int n)) (mset (concat (single_numa_node_workorders c))) =
      mset (single_numa_node_workorders c ! n)"
    using filter_prefers_single [of "single_numa_node_workorders c" 0 n] assms by (auto simp: op_inv_def)
  ultimately show ?thesis by (simp add: op_orders_def flip: mset_filter)
qed

lemma list_get_for_numa:
  "list_getWorkOrderForNUMANode ws n = (r, ws') \<Longrightarrow>
     (case r of None \<Rightarrow> ws' = ws \<and> \<not> list_ex (prefers n) ws
      | Some w \<Rightarrow> prefers n w \<and> mset ws = add_mset w (mset ws'))"
  by (induction ws arbitrary: r ws') (auto split: if_splits prod.splits option.splits)

text \<open>The NUMA views of a container describe its pending work orders: for every node of the machine
  the number of orders for the node, the test for one and the attempt to take one agree with the
  orders that list the node as preferred; an order is taken whenever there is one.\<close>

theorem numa_views_correct:
  assumes "op_inv c" and "n < num_numa_nodes c"
  shows "op_getNumWorkOrdersForNUMANode c (int n) = Inr (size (filter_mset (prefers (int n)) (op_orders c)))
    \<and> op_hasWorkOrderForNUMANode c (int n) = Inr (filter_mset (prefers (int n)) (op_orders c) \<noteq> {#})
    \<and> (\<exists>r c'. op_getWorkOrderForNUMANode c (int n) = Inr (r, c') \<and>
         (case r of None \<Rightarrow> filter_mset (prefers (int n)) (op_orders c) = {#} \<and> op_orders c' = op_orders c
          | Some w \<Rightarrow> prefers (int n) w \<and> op_orders c = add_mset w (op_orders c')))"
proof -
  let ?q = "single_numa_node_workorders c ! n" and ?ws = "multiple_numa_nodes_workorders c"
  note F = filter_prefers_orders [OF assms]
  have i: "numa_index c e (int n) = Inr n" for e using assms(2) by (simp add: numa_index_def)
  have "\<exists>r c'. op_getWorkOrderForNUMANode c (int n) = Inr (r, c') \<and>
         (case r of None \<Rightarrow> filter_mset (prefers (int n)) (op_orders c) = {#} \<and> op_orders c' = op_orders c
          | Some w \<Rightarrow> prefers (int n) w \<and> op_orders c = add_mset w (op_orders c'))"
  proof (cases rule: queue_getWorkOrder_cases [of ?q])
    case 1
    obtain r ws where h: "list_getWorkOrderForNUMANode ?ws (int n) = (r, ws)"
      by (cases "list_getWorkOrderForNUMANode ?ws (int n)")
    then have "op_getWorkOrderForNUMANode c (int n) = Inr (r, c\<lparr>multiple_numa_nodes_workorders := ws\<rparr>)"
      using 1 i by (simp add: op_getWorkOrderForNUMANode_def)
    moreover have "filter_mset (prefers (int n)) (op_orders c) = {#}" if "\<not> list_ex (prefers (int n)) ?ws"
      using that 1(1) unfolding F by (auto simp: list_ex_iff filter_empty_conv)
    moreover have "op_orders c = add_mset w (op_orders (c\<lparr>multiple_numa_nodes_workorders := ws\<rparr>))"
      if "mset ?ws = add_mset w (mset ws)" for w using that by (simp add: op_orders_def)
    ultimately show ?thesis using list_get_for_numa [OF h] by (auto split: option.splits)
  next
    case (2 w q)
    have "mset (concat ((single_numa_node_workorders c)[n := q])) + {#w#} = mset (concat (single_numa_node_workorders c))"
      using mset_concat_update [OF assms(2), of q] 2(1) by simp
    moreover have "prefers (int n) w" using assms 2(1) by (simp add: op_inv_def prefers_def)
    ultimately show ?thesis using 2 i by (simp add: op_getWorkOrderForNUMANode_def op_orders_def)
  qed
  moreover have "op_getNumWorkOrdersForNUMANode c (int n) = Inr (size (filter_mset (prefers (int n)) (op_orders c)))"
    unfolding F by (simp add: op_getNumWorkOrdersForNUMANode_def i list_getNumWorkOrdersForNUMANode_def flip: mset_filter)
  moreover have "op_hasWorkOrderForNUMANode c (int n) = Inr (filter_mset (prefers (int n)) (op_orders c) \<noteq> {#})"
    unfolding F by (auto simp: op_hasWorkOrderForNUMANode_def i list_hasWorkOrderForNUMANode_def list_ex_iff
        filter_empty_conv)
  ultimately show ?thesis by blast
qed

section \<open>The policy agrees with the containers\<close>

definition policy_sync :: "nat multiset \<Rightarrow> OperatorWorkOrdersContainer list \<Rightarrow> bool" where
  "policy_sync h cs \<longleftrightarrow> (\<forall>i. count h i = (if i < length cs then size (op_orders (cs ! i)) else 0))"

lemma policy_sync_update:
  assumes "policy_sync h cs" and "i < length cs"
    and "\<And>j. count h' j = (if j = i then size (op_orders oc) else count h j)"
  shows "policy_sync h' (cs[i := oc])"
  using assms by (auto simp: policy_sync_def nth_list_update)

context selection_policy
begin

lemma sync_add:
  assumes "policy_sync (held p) cs" and "i < length cs" and "op_orders oc = add_mset w (op_orders (cs ! i))"
  shows "policy_sync (held (add p i)) (cs[i := oc])"
  by (rule policy_sync_update [OF assms(1,2)]) (use assms in \<open>simp add: held_add policy_sync_def\<close>)

text \<open>The operator that the policy names has a pending work order; taking it keeps the agreement.\<close>

lemma sync_next:
  assumes sync: "policy_sync (held p) cs" and "next_index p = Inr (i, p')" and has: "has p"
  obtains w oc where "i < length cs" and "op_getWorkOrder (cs ! i) True = (Some w, oc)"
    and "op_orders (cs ! i) = add_mset w (op_orders oc)" and "policy_sync (held p') (cs[i := oc])"
proof -
  have h: "held p = add_mset i (held p')" using next_ok [OF has] assms(2) by auto
  then have "count (held p) i > 0" by simp
  then have i: "i < length cs" and ne: "op_orders (cs ! i) \<noteq> {#}"
    using sync unfolding policy_sync_def by (auto split: if_splits)
  obtain r oc where g: "op_getWorkOrder (cs ! i) True = (r, oc)" by (cases "op_getWorkOrder (cs ! i) True")
  with op_getWorkOrder_takes(1) [OF g] ne obtain w where r: "r = Some w"
    and w: "op_orders (cs ! i) = add_mset w (op_orders oc)" by (auto simp: takes_def split: option.splits)
  have "count (held p) i = size (op_orders (cs ! i))" using sync i by (simp add: policy_sync_def)
  then have "policy_sync (held p') (cs[i := oc])"
    by (intro policy_sync_update [OF sync i]) (auto simp: h w)
  with that i g r w show ?thesis by blast
qed

lemma sync_empty:
  assumes "policy_sync (held p) cs" and "\<not> has p" and "i < length cs"
  shows "op_orders (cs ! i) = {#}"
proof -
  have "count (held p) i = size (op_orders (cs ! i))" using assms(1,3) by (simp add: policy_sync_def)
  moreover have "held p = {#}" using assms(2) has_iff by blast
  ultimately show ?thesis by simp
qed

end

definition container_inv :: "WorkOrdersContainer \<Rightarrow> bool" where
  "container_inv c \<longleftrightarrow> length (rebuild_workorders c) = length (normal_workorders c)
     \<and> (\<forall>oc \<in> set (normal_workorders c) \<union> set (rebuild_workorders c).
          op_inv oc \<and> num_numa_nodes oc = container_numa_nodes c)
     \<and> policy_sync (mset (lifo_work_orders (normal_work_orders_policy c))) (normal_workorders c)
     \<and> policy_sync (mset (fifo_work_orders (rebuild_work_orders_policy c))) (rebuild_workorders c)"

lemma container_invD:
  assumes "container_inv c"
  shows "length (rebuild_workorders c) = length (normal_workorders c)"
    and "oc \<in> set (normal_workorders c) \<Longrightarrow> op_inv oc \<and> num_numa_nodes oc = container_numa_nodes c"
    and "oc \<in> set (rebuild_workorders c) \<Longrightarrow> op_inv oc \<and> num_numa_nodes oc = container_numa_nodes c"
    and "policy_sync (mset (lifo_work_orders (normal_work_orders_policy c))) (normal_workorders c)"
    and "policy_sync (mset (fifo_work_orders (rebuild_work_orders_policy c))) (rebuild_workorders c)"
  using assms by (auto simp: container_inv_def)

lemma new_container_inv: "new_container n k = Inr c \<Longrightarrow> container_inv c"
  by (auto simp: new_container_def res_simps container_inv_def policy_sync_def new_operator_container_def
      op_inv_def op_orders_def concat_replicate_trivial)

lemma set_update_cases: "y \<in> set (xs[i := x]) \<Longrightarrow> y = x \<or> y \<in> set xs"
  using set_update_subset_insert [of xs i x] by blast

lemma addNormalWorkOrder_spec:
  assumes inv: "container_inv c" and i: "i < length (normal_workorders c)"
    and numa: "\<And>n. getPreferredNUMANodes w = [n] \<Longrightarrow> 0 \<le> n \<and> nat n < container_numa_nodes c"
  shows "\<exists>c'. addNormalWorkOrder c w i = Inr c' \<and> container_inv c'
    \<and> op_orders (normal_workorders c' ! i) = add_mset w (op_orders (normal_workorders c ! i))
    \<and> (\<forall>j. j \<noteq> i \<longrightarrow> normal_workorders c' ! j = normal_workorders c ! j)
    \<and> rebuild_workorders c' = rebuild_workorders c"
proof -
  let ?oc = "normal_workorders c ! i"
  note D = container_invD [OF inv]
  have oc: "op_inv ?oc" "num_numa_nodes ?oc = container_numa_nodes c" using D(2) i by auto
  obtain oc' where a: "op_addWorkOrder ?oc w = Inr oc'"
  proof (cases "getPreferredNUMANodes w")
    case (Cons n ns)
    then show ?thesis using that numa oc(2)
      by (cases ns) (auto simp: op_addWorkOrder_def numa_index_def)
  qed (simp add: op_addWorkOrder_def that)
  let ?c = "c\<lparr>normal_workorders := (normal_workorders c)[i := oc'],
      normal_work_orders_policy := lifo_addWorkOrder (normal_work_orders_policy c) i\<rparr>"
  note A = op_addWorkOrder_orders [OF a]
  have "policy_sync (mset (lifo_work_orders (lifo_addWorkOrder (normal_work_orders_policy c) i)))
      ((normal_workorders c)[i := oc'])"
    using lifo.sync_add [OF D(4) i A(1)] .
  then have "container_inv ?c"
    using D A oc by (auto simp: container_inv_def dest: set_update_cases)
  moreover have "addNormalWorkOrder c w i = Inr ?c"
    using i a by (simp add: addNormalWorkOrder_def operator_container_def)
  ultimately show ?thesis using i A(1) by (intro exI [of _ ?c]) auto
qed

lemma addRebuildWorkOrder_spec:
  assumes inv: "container_inv c" and i: "i < length (rebuild_workorders c)"
    and numa: "\<And>n. getPreferredNUMANodes w = [n] \<Longrightarrow> 0 \<le> n \<and> nat n < container_numa_nodes c"
  shows "\<exists>c'. addRebuildWorkOrder c w i = Inr c' \<and> container_inv c'
    \<and> op_orders (rebuild_workorders c' ! i) = add_mset w (op_orders (rebuild_workorders c ! i))
    \<and> (\<forall>j. j \<noteq> i \<longrightarrow> rebuild_workorders c' ! j = rebuild_workorders c ! j)
    \<and> normal_workorders c' = normal_workorders c"
proof -
  let ?oc = "rebuild_workorders c ! i"
  note D = container_invD [OF inv]
  have oc: "op_inv ?oc" "num_numa_nodes ?oc = container_numa_nodes c" using D(3) i by auto
  obtain oc' where a: "op_addWorkOrder ?oc w = Inr oc'"
  proof (cases "getPreferredNUMANodes w")
    case (Cons n ns)
    then show ?thesis using that numa oc(2)
      by (cases ns) (auto simp: op_addWorkOrder_def numa_index_def)
  qed (simp add: op_addWorkOrder_def that)
  let ?c = "c\<lparr>rebuild_workorders := (rebuild_workorders c)[i := oc'],
      rebuild_work_orders_policy := fifo_addWorkOrder (rebuild_work_orders_policy c) i\<rparr>"
  note A = op_addWorkOrder_orders [OF a]
  have "policy_sync (mset (fifo_work_orders (fifo_addWorkOrder (rebuild_work_orders_policy c) i)))
      ((rebuild_workorders c)[i := oc'])"
    using fifo.sync_add [OF D(5) i A(1)] .
  then have "container_inv ?c"
    using D A oc by (auto simp: container_inv_def dest: set_update_cases)
  moreover have "addRebuildWorkOrder c w i = Inr ?c"
    using i a by (simp add: addRebuildWorkOrder_def operator_container_def)
  ultimately show ?thesis using i A(1) by (intro exI [of _ ?c]) auto
qed

text \<open>Adding a work order succeeds for every operator of the query unless the order prefers a
  single NUMA node that does not exist, adds exactly this order to the pending ones of the
  operator, and keeps the policy in agreement with the containers.\<close>

theorem addNormalWorkOrder_correct:
  assumes "container_inv c" and "i < length (normal_workorders c)"
    and "\<And>n. getPreferredNUMANodes w = [n] \<Longrightarrow> 0 \<le> n \<and> nat n < container_numa_nodes c"
  shows "\<exists>c'. addNormalWorkOrder c w i = Inr c' \<and> container_inv c'
    \<and> op_orders (normal_workorders c' ! i) = add_mset w (op_orders (normal_workorders c ! i))
    \<and> (\<forall>j. j \<noteq> i \<longrightarrow> normal_workorders c' ! j = normal_workorders c ! j)
    \<and> rebuild_workorders c' = rebuild_workorders c"
  using assms by (rule addNormalWorkOrder_spec)

lemma getNextWorkOrder_spec:
  assumes inv: "container_inv c"
  shows "\<exists>r c'. getNextWorkOrder c = Inr (r, c') \<and> container_inv c' \<and>
    (case r of
       None \<Rightarrow> c' = c \<and> (\<forall>i < length (normal_workorders c).
          op_orders (normal_workorders c ! i) = {#} \<and> op_orders (rebuild_workorders c ! i) = {#})
     | Some (w, i, is_rebuild) \<Rightarrow> \<exists>wo oc. w = Some wo \<and> i < length (normal_workorders c)
        \<and> is_rebuild = (\<exists>j < length (rebuild_workorders c). op_orders (rebuild_workorders c ! j) \<noteq> {#})
        \<and> (if is_rebuild
           then rebuild_workorders c' = (rebuild_workorders c)[i := oc] \<and> normal_workorders c' = normal_workorders c
             \<and> op_orders (rebuild_workorders c ! i) = add_mset wo (op_orders oc)
           else normal_workorders c' = (normal_workorders c)[i := oc] \<and> rebuild_workorders c' = rebuild_workorders c
             \<and> op_orders (normal_workorders c ! i) = add_mset wo (op_orders oc)))"
proof -
  note D = container_invD [OF inv]
  let ?R = "rebuild_work_orders_policy c" and ?N = "normal_work_orders_policy c"
  show ?thesis
  proof (cases "fifo_hasWorkOrder ?R")
    case True
    then obtain i p where n: "fifo_getOperatorIndexForNextWorkOrder ?R = Inr (i, p)" using fifo.next_ok by blast
    obtain w oc where s: "i < length (rebuild_workorders c)" "op_getWorkOrder (rebuild_workorders c ! i) True = (Some w, oc)"
      "op_orders (rebuild_workorders c ! i) = add_mset w (op_orders oc)"
      "policy_sync (mset (fifo_work_orders p)) ((rebuild_workorders c)[i := oc])"
      using fifo.sync_next [OF D(5) n True] by blast
    let ?c = "c\<lparr>rebuild_work_orders_policy := p, rebuild_workorders := (rebuild_workorders c)[i := oc]\<rparr>"
    have "getNextWorkOrder c = Inr (Some (Some w, i, True), ?c)"
      using True n s(1,2) by (simp add: getNextWorkOrder_def)
    moreover have "container_inv ?c"
      using D s(1,4) op_getWorkOrder_takes(2,3) [OF s(2)] by (auto simp: container_inv_def dest: set_update_cases)
    ultimately show ?thesis using s(1,3) D(1)
      by (intro exI [of _ "Some (Some w, i, True)"] exI [of _ ?c]) auto
  next
    case noR: False
    have nr: "op_orders (rebuild_workorders c ! j) = {#}" if "j < length (rebuild_workorders c)" for j
      using fifo.sync_empty [OF D(5) noR that] .
    show ?thesis
    proof (cases "lifo_hasWorkOrder ?N")
      case True
      then obtain i p where n: "lifo_getOperatorIndexForNextWorkOrder ?N = Inr (i, p)" using lifo.next_ok by blast
      obtain w oc where s: "i < length (normal_workorders c)" "op_getWorkOrder (normal_workorders c ! i) True = (Some w, oc)"
        "op_orders (normal_workorders c ! i) = add_mset w (op_orders oc)"
        "policy_sync (mset (lifo_work_orders p)) ((normal_workorders c)[i := oc])"
        using lifo.sync_next [OF D(4) n True] by blast
      let ?c = "c\<lparr>normal_work_orders_policy := p, normal_workorders := (normal_workorders c)[i := oc]\<rparr>"
      have "getNextWorkOrder c = Inr (Some (Some w, i, False), ?c)"
        using True noR n s(1,2) by (simp add: getNextWorkOrder_def)
      moreover have "container_inv ?c"
        using D s(1,4) op_getWorkOrder_takes(2,3) [OF s(2)] by (auto simp: container_inv_def dest: set_update_cases)
      ultimately show ?thesis using s(1,3) nr
        by (intro exI [of _ "Some (Some w, i, False)"] exI [of _ ?c]) auto
    next
      case False
      then have "getNextWorkOrder c = Inr (None, c)" using noR by (simp add: getNextWorkOrder_def)
      then show ?thesis using lifo.sync_empty [OF D(4) False] nr D(1) inv
        by (intro exI [of _ None] exI [of _ c]) simp
    qed
  qed
qed

text \<open>C9. No work order is lost, duplicated or invented, and the scheduler never gets a null work order
  for an operator it was told to serve: in a container in which orders were only added and fetched
  through \<^verbatim>\<open>getNextWorkOrder\<close>, that operation returns; it reports nothing exactly if nothing is pending;
  otherwise it returns a pending order of the operator it names, a rebuild order whenever there is
  one, and removes just this order.\<close>

theorem getNextWorkOrder_correct:
  assumes "container_inv c"
  shows "\<exists>r c'. getNextWorkOrder c = Inr (r, c') \<and> container_inv c' \<and>
    (case r of
       None \<Rightarrow> c' = c \<and> (\<forall>i < length (normal_workorders c).
          op_orders (normal_workorders c ! i) = {#} \<and> op_orders (rebuild_workorders c ! i) = {#})
     | Some (w, i, is_rebuild) \<Rightarrow> \<exists>wo oc. w = Some wo \<and> i < length (normal_workorders c)
        \<and> is_rebuild = (\<exists>j < length (rebuild_workorders c). op_orders (rebuild_workorders c ! j) \<noteq> {#})
        \<and> (if is_rebuild
           then rebuild_workorders c' = (rebuild_workorders c)[i := oc] \<and> normal_workorders c' = normal_workorders c
             \<and> op_orders (rebuild_workorders c ! i) = add_mset wo (op_orders oc)
           else normal_workorders c' = (normal_workorders c)[i := oc] \<and> rebuild_workorders c' = rebuild_workorders c
             \<and> op_orders (normal_workorders c ! i) = add_mset wo (op_orders oc)))"
  using assms by (rule getNextWorkOrder_spec)

lemma pending_counts:
  assumes "container_inv c" and "i < length (normal_workorders c)"
  shows "getNumTotalWorkOrders c i =
    Inr (size (op_orders (normal_workorders c ! i)) + size (op_orders (rebuild_workorders c ! i)))"
  using assms container_invD(1) [OF assms(1)]
  by (simp add: getNumTotalWorkOrders_def getNumNormalWorkOrders_def getNumRebuildWorkOrders_def
      operator_container_def op_getNumWorkOrders_size)

section \<open>Witnesses and limits\<close>

definition example_order :: WorkOrder where
  "example_order = \<lparr>work_order_id = 5, getPreferredNUMANodes = [1]\<rparr>"

definition example_container :: WorkOrdersContainer where
  "example_container = projr (and_then (new_container 2 2) (\<lambda>c. addNormalWorkOrder c example_order 1))"

lemma example_new: "new_container 2 2 = Inr (projr (new_container 2 2))"
  by (simp add: new_container_def)

lemma example_container_inv: "container_inv example_container"
proof -
  have "container_inv (projr (new_container 2 2))" using new_container_inv [OF example_new] .
  moreover have "1 < length (normal_workorders (projr (new_container 2 2)))" by (simp add: new_container_def)
  moreover have "0 \<le> n \<and> nat n < container_numa_nodes (projr (new_container 2 2))"
    if "getPreferredNUMANodes example_order = [n]" for n
    using that by (simp add: example_order_def new_container_def)
  ultimately obtain c where "addNormalWorkOrder (projr (new_container 2 2)) example_order 1 = Inr c" "container_inv c"
    using addNormalWorkOrder_spec by blast
  then show ?thesis unfolding example_container_def by (subst example_new) simp
qed

theorem numa_views_correct_witness:
  "op_inv (new_operator_container 2) \<and> op_getNumWorkOrdersForNUMANode (new_operator_container 2) 1 = Inr 0"
proof -
  have a: "op_inv (new_operator_container 2)" "1 < num_numa_nodes (new_operator_container 2)"
    by (auto simp: op_inv_def new_operator_container_def)
  show ?thesis using a numa_views_correct [OF a] by simp
qed

theorem addNormalWorkOrder_correct_witness:
  "container_inv example_container \<and> (\<exists>c'. addNormalWorkOrder example_container example_order 0 = Inr c')"
proof -
  have l: "0 < length (normal_workorders example_container)" by code_simp
  have n: "0 \<le> n \<and> nat n < container_numa_nodes example_container" if "getPreferredNUMANodes example_order = [n]" for n
  proof -
    have "n = 1" using that by (simp add: example_order_def)
    moreover have "container_numa_nodes example_container = 2" by code_simp
    ultimately show ?thesis by simp
  qed
  show ?thesis using example_container_inv addNormalWorkOrder_correct [OF example_container_inv l n] by blast
qed

theorem getNextWorkOrder_correct_witness:
  "container_inv example_container
   \<and> (\<exists>r c'. getNextWorkOrder example_container = Inr (r, c') \<and> container_inv c')"
  using example_container_inv getNextWorkOrder_correct [OF example_container_inv] by blast

text \<open>The operations that fetch from a given operator bypass the policy: after
  \<^verbatim>\<open>getNormalWorkOrder\<close> has taken the only pending order, \<^verbatim>\<open>getNextWorkOrder\<close> still names the operator and
  returns a null work order for it.\<close>

theorem bypassed_policy_null_order:
  "\<exists>c. getNormalWorkOrder example_container 1 True = Inr (Some example_order, c)
     \<and> op_orders (normal_workorders c ! 1) = {#}
     \<and> (\<exists>c'. getNextWorkOrder c = Inr (Some (None, 1, False), c'))"
proof -
  let ?c = "snd (projr (getNormalWorkOrder example_container 1 True))"
  have "getNormalWorkOrder example_container 1 True = Inr (Some example_order, ?c)" by code_simp
  moreover have "op_orders (normal_workorders ?c ! 1) = {#}" by code_simp
  moreover have "getNextWorkOrder ?c = Inr (Some (None, 1, False), snd (projr (getNextWorkOrder ?c)))" by code_simp
  ultimately show ?thesis by blast
qed

end
