(* ===== verification/ExecutionStates.thy ===== *)
theory ExecutionStates
  imports Prelude
begin

text \<open>
  The bookkeeping of a running query (\<^verbatim>\<open>QueryExecutionState\<close>): per operator the number of work orders in
  execution, whether generation and execution are over, and the progress of the rebuild of
  partially filled blocks.
\<close>

section \<open>State and operations\<close>

record RebuildStatus =
  has_initiated :: bool
  num_pending_workorders :: nat
  rebuilt_shiftboss_indexes :: "nat set"

record QueryExecutionState =
  num_operators_finished :: nat
  queued_workorders_per_op :: "nat list"
  rebuild_required :: "bool list"
  done_gen :: "bool list"
  execution_finished :: "bool list"
  rebuild_status :: "nat \<rightharpoonup> RebuildStatus"

abbreviation num_operators :: "QueryExecutionState \<Rightarrow> nat" where
  "num_operators s \<equiv> length (queued_workorders_per_op s)"

definition new_execution_state :: "nat \<Rightarrow> QueryExecutionState" where
  "new_execution_state n = \<lparr>num_operators_finished = 0, queued_workorders_per_op = replicate n 0,
     rebuild_required = replicate n False, done_gen = replicate n False,
     execution_finished = replicate n False, rebuild_status = Map.empty\<rparr>"

definition check_operator :: "QueryExecutionState \<Rightarrow> nat \<Rightarrow> unit result" where
  "check_operator s operator_index = check CheckFailed (operator_index < num_operators s)"

definition find_rebuild_status :: "QueryExecutionState \<Rightarrow> nat \<Rightarrow> RebuildStatus result" where
  "find_rebuild_status s operator_index =
     (case rebuild_status s operator_index of None \<Rightarrow> Inl CheckFailed | Some r \<Rightarrow> Inr r)"

definition hasQueryExecutionFinished :: "QueryExecutionState \<Rightarrow> bool" where
  "hasQueryExecutionFinished s \<longleftrightarrow> num_operators_finished s = num_operators s"

definition setRebuildStatus :: "QueryExecutionState \<Rightarrow> nat \<Rightarrow> nat \<Rightarrow> bool \<Rightarrow> QueryExecutionState result" where
  "setRebuildStatus s operator_index num_rebuild_workorders rebuild_initiated =
     and_then (check_operator s operator_index) (\<lambda>_.
     and_then (find_rebuild_status s operator_index) (\<lambda>r.
       Inr (s\<lparr>rebuild_status := (rebuild_status s)(operator_index \<mapsto>
              r\<lparr>has_initiated := rebuild_initiated, num_pending_workorders := num_rebuild_workorders\<rparr>)\<rparr>)))"

definition updateRebuildStatus :: "QueryExecutionState \<Rightarrow> nat \<Rightarrow> nat \<Rightarrow> nat \<Rightarrow> QueryExecutionState result" where
  "updateRebuildStatus s operator_index num_rebuild_workorders shiftboss_index =
     and_then (check_operator s operator_index) (\<lambda>_.
     and_then (find_rebuild_status s operator_index) (\<lambda>r.
     and_then (check CheckFailed (has_initiated r)) (\<lambda>_.
       Inr (s\<lparr>rebuild_status := (rebuild_status s)(operator_index \<mapsto>
              r\<lparr>num_pending_workorders := num_pending_workorders r + num_rebuild_workorders,
                rebuilt_shiftboss_indexes := insert shiftboss_index (rebuilt_shiftboss_indexes r)\<rparr>)\<rparr>))))"

definition hasRebuildFinished :: "QueryExecutionState \<Rightarrow> nat \<Rightarrow> nat \<Rightarrow> bool result" where
  "hasRebuildFinished s operator_index num_shiftbosses =
     and_then (check_operator s operator_index) (\<lambda>_.
     and_then (find_rebuild_status s operator_index) (\<lambda>r.
     and_then (check CheckFailed (has_initiated r)) (\<lambda>_.
       Inr (card (rebuilt_shiftboss_indexes r) = num_shiftbosses \<and> num_pending_workorders r = 0))))"

definition hasRebuildInitiated :: "QueryExecutionState \<Rightarrow> nat \<Rightarrow> bool result" where
  "hasRebuildInitiated s operator_index =
     and_then (check_operator s operator_index) (\<lambda>_.
       Inr (case rebuild_status s operator_index of None \<Rightarrow> False | Some r \<Rightarrow> has_initiated r))"

definition qes_getNumRebuildWorkOrders :: "QueryExecutionState \<Rightarrow> nat \<Rightarrow> nat result" where
  "qes_getNumRebuildWorkOrders s operator_index =
     and_then (check_operator s operator_index) (\<lambda>_.
       Inr (case rebuild_status s operator_index of None \<Rightarrow> 0 | Some r \<Rightarrow> num_pending_workorders r))"

definition incrementNumRebuildWorkOrders :: "QueryExecutionState \<Rightarrow> nat \<Rightarrow> nat \<Rightarrow> QueryExecutionState result" where
  "incrementNumRebuildWorkOrders s operator_index num_rebuild_workorders =
     and_then (check_operator s operator_index) (\<lambda>_.
     and_then (find_rebuild_status s operator_index) (\<lambda>r.
     and_then (check CheckFailed (has_initiated r)) (\<lambda>_.
       Inr (s\<lparr>rebuild_status := (rebuild_status s)(operator_index \<mapsto>
              r\<lparr>num_pending_workorders := num_pending_workorders r + num_rebuild_workorders\<rparr>)\<rparr>))))"

definition decrementNumRebuildWorkOrders :: "QueryExecutionState \<Rightarrow> nat \<Rightarrow> QueryExecutionState result" where
  "decrementNumRebuildWorkOrders s operator_index =
     and_then (check_operator s operator_index) (\<lambda>_.
     and_then (find_rebuild_status s operator_index) (\<lambda>r.
     and_then (check CheckFailed (has_initiated r \<and> num_pending_workorders r \<ge> 1)) (\<lambda>_.
       Inr (s\<lparr>rebuild_status := (rebuild_status s)(operator_index \<mapsto>
              r\<lparr>num_pending_workorders := num_pending_workorders r - 1\<rparr>)\<rparr>))))"

definition incrementNumQueuedWorkOrders :: "QueryExecutionState \<Rightarrow> nat \<Rightarrow> QueryExecutionState result" where
  "incrementNumQueuedWorkOrders s operator_index =
     and_then (check_operator s operator_index) (\<lambda>_.
       Inr (s\<lparr>queued_workorders_per_op := (queued_workorders_per_op s)
              [operator_index := queued_workorders_per_op s ! operator_index + 1]\<rparr>))"

definition decrementNumQueuedWorkOrders :: "QueryExecutionState \<Rightarrow> nat \<Rightarrow> QueryExecutionState result" where
  "decrementNumQueuedWorkOrders s operator_index =
     and_then (check_operator s operator_index) (\<lambda>_.
     and_then (check CheckFailed (queued_workorders_per_op s ! operator_index > 0)) (\<lambda>_.
       Inr (s\<lparr>queued_workorders_per_op := (queued_workorders_per_op s)
              [operator_index := queued_workorders_per_op s ! operator_index - 1]\<rparr>)))"

definition getNumQueuedWorkOrders :: "QueryExecutionState \<Rightarrow> nat \<Rightarrow> nat result" where
  "getNumQueuedWorkOrders s operator_index =
     and_then (check_operator s operator_index) (\<lambda>_. vec_at (queued_workorders_per_op s) operator_index)"

text \<open>\<^verbatim>\<open>emplace\<close> keeps an existing entry.\<close>

definition setRebuildRequired :: "QueryExecutionState \<Rightarrow> nat \<Rightarrow> QueryExecutionState result" where
  "setRebuildRequired s operator_index =
     and_then (check_operator s operator_index) (\<lambda>_.
     and_then (vec_set (rebuild_required s) operator_index True) (\<lambda>bs.
       Inr (s\<lparr>rebuild_required := bs,
              rebuild_status := (if rebuild_status s operator_index = None
                then (rebuild_status s)(operator_index \<mapsto>
                       \<lparr>has_initiated = False, num_pending_workorders = 0, rebuilt_shiftboss_indexes = {}\<rparr>)
                else rebuild_status s)\<rparr>)))"

definition isRebuildRequired :: "QueryExecutionState \<Rightarrow> nat \<Rightarrow> bool result" where
  "isRebuildRequired s operator_index =
     and_then (check_operator s operator_index) (\<lambda>_. vec_at (rebuild_required s) operator_index)"

definition setExecutionFinished :: "QueryExecutionState \<Rightarrow> nat \<Rightarrow> QueryExecutionState result" where
  "setExecutionFinished s operator_index =
     and_then (check_operator s operator_index) (\<lambda>_.
     and_then (vec_set (execution_finished s) operator_index True) (\<lambda>bs.
       Inr (s\<lparr>execution_finished := bs, num_operators_finished := num_operators_finished s + 1\<rparr>)))"

definition hasExecutionFinished :: "QueryExecutionState \<Rightarrow> nat \<Rightarrow> bool result" where
  "hasExecutionFinished s operator_index =
     and_then (check_operator s operator_index) (\<lambda>_. vec_at (execution_finished s) operator_index)"

definition setDoneGenerationWorkOrders :: "QueryExecutionState \<Rightarrow> nat \<Rightarrow> QueryExecutionState result" where
  "setDoneGenerationWorkOrders s operator_index =
     and_then (check_operator s operator_index) (\<lambda>_.
     and_then (vec_set (done_gen s) operator_index True) (\<lambda>bs. Inr (s\<lparr>done_gen := bs\<rparr>)))"

definition hasDoneGenerationWorkOrders :: "QueryExecutionState \<Rightarrow> nat \<Rightarrow> bool result" where
  "hasDoneGenerationWorkOrders s operator_index =
     and_then (check_operator s operator_index) (\<lambda>_. vec_at (done_gen s) operator_index)"

section \<open>Well-formedness\<close>

definition state_wf :: "QueryExecutionState \<Rightarrow> bool" where
  "state_wf s \<longleftrightarrow> length (rebuild_required s) = num_operators s \<and> length (done_gen s) = num_operators s
     \<and> length (execution_finished s) = num_operators s
     \<and> (\<forall>i. (rebuild_status s i \<noteq> None) = (i < num_operators s \<and> rebuild_required s ! i))"

lemma state_wf_new: "state_wf (new_execution_state n)"
  by (simp add: state_wf_def new_execution_state_def)

lemma state_wf_setRebuildRequired:
  "state_wf s \<Longrightarrow> setRebuildRequired s i = Inr s' \<Longrightarrow> state_wf s' \<and> num_operators s' = num_operators s"
  by (auto simp: state_wf_def setRebuildRequired_def check_operator_def res_simps nth_list_update split: if_splits)

lemmas query_state_defs = setRebuildStatus_def hasRebuildInitiated_def qes_getNumRebuildWorkOrders_def
  decrementNumRebuildWorkOrders_def incrementNumQueuedWorkOrders_def decrementNumQueuedWorkOrders_def
  getNumQueuedWorkOrders_def isRebuildRequired_def setExecutionFinished_def hasExecutionFinished_def
  setDoneGenerationWorkOrders_def hasDoneGenerationWorkOrders_def check_operator_def find_rebuild_status_def

end
