(* ===== verification/QueryManagers.thy ===== *)
theory QueryManagers
  imports Dags WorkOrders ExecutionStates
begin

text \<open>
  The manager of one query (\<^verbatim>\<open>QueryManagerBase\<close> and \<^verbatim>\<open>QueryManagerSingleNode\<close>): it asks the operators of the
  plan for work orders once their blocking dependencies are met, hands the work orders out and
  reacts to the messages of the workers until every operator has finished.

  A relational operator is an object with virtual methods; the manager sees only the interface
  \<^verbatim>\<open>RelationalOperator\<close>.  It is a parameter of the model, the record \<open>operator_interface\<close> over an
  arbitrary type \<open>'o\<close> of operator states: \<open>getAllWorkOrders\<close> returns the work orders it adds for its own
  operator index and whether it has finished generating; \<open>getPartiallyFilledBlocks\<close> stands for the
  rebuild work orders made from the partially filled blocks of the insert destination of the
  operator.
\<close>

section \<open>State\<close>

record 'o operator_interface =
  getAllWorkOrders :: "'o \<Rightarrow> WorkOrder list \<times> bool \<times> 'o"
  hasInsertDestination :: "'o \<Rightarrow> bool"
  getOutputRelationID :: "'o \<Rightarrow> int"
  feedInputBlock :: "'o \<Rightarrow> nat \<Rightarrow> int \<Rightarrow> nat \<Rightarrow> 'o"
  doneFeedingInputBlocks :: "'o \<Rightarrow> int \<Rightarrow> 'o"
  updateCatalogOnCompletion :: "'o \<Rightarrow> 'o"
  receiveFeedbackMessage :: "'o \<Rightarrow> nat \<Rightarrow> 'o"
  getPartiallyFilledBlocks :: "'o \<Rightarrow> WorkOrder list"

datatype QueryStatusCode = kOperatorExecuted | kQueryExecuted | kNone

record 'o QueryManager =
  query_dag :: "('o, bool) DAG"
  output_consumers :: "nat list list"
  blocking_dependencies :: "nat set list"
  non_dependent_operators :: "nat list"
  query_exec_state :: QueryExecutionState
  blocking_dependents :: "nat list list"
  non_blocking_dependencies :: "nat set list"
  workorders_container :: WorkOrdersContainer

section \<open>Operations\<close>

definition getNodePayloadMutable :: "'o QueryManager \<Rightarrow> nat \<Rightarrow> 'o result" where
  "getNodePayloadMutable m index = getNodePayload (query_dag m) index"

definition set_payload :: "'o QueryManager \<Rightarrow> nat \<Rightarrow> 'o \<Rightarrow> 'o QueryManager" where
  "set_payload m index op = m\<lparr>query_dag := (query_dag m)\<lparr>dag_nodes := (dag_nodes (query_dag m))
     [index := (dag_nodes (query_dag m) ! index)\<lparr>node_payload := op\<rparr>]\<rparr>\<rparr>"

text \<open>The constructor of the base class: the loop body for the outgoing links of a node, and for a
  node.\<close>

definition add_dependent_link :: "nat \<Rightarrow> 'o QueryManager \<Rightarrow> nat \<Rightarrow> 'o QueryManager result" where
  "add_dependent_link node_index m dependent_op_index =
     and_then (getLinkMetadata (query_dag m) node_index dependent_op_index) (\<lambda>breaker.
       if breaker then
         and_then (vec_at (blocking_dependencies m) dependent_op_index) (\<lambda>s.
         and_then (vec_at (blocking_dependents m) node_index) (\<lambda>l.
           Inr (m\<lparr>blocking_dependencies := (blocking_dependencies m)[dependent_op_index := insert node_index s],
                  blocking_dependents := (blocking_dependents m)[node_index := l @ [dependent_op_index]]\<rparr>)))
       else
         and_then (vec_at (non_blocking_dependencies m) dependent_op_index) (\<lambda>s.
         and_then (vec_at (output_consumers m) node_index) (\<lambda>l.
           Inr (m\<lparr>non_blocking_dependencies := (non_blocking_dependencies m)[dependent_op_index := insert node_index s],
                  output_consumers := (output_consumers m)[node_index := l @ [dependent_op_index]]\<rparr>))))"

definition add_operator :: "'o operator_interface \<Rightarrow> 'o QueryManager \<Rightarrow> nat \<Rightarrow> 'o QueryManager result" where
  "add_operator I m node_index =
     and_then (getNodePayload (query_dag m) node_index) (\<lambda>op.
     and_then (if hasInsertDestination I op then setRebuildRequired (query_exec_state m) node_index
               else Inr (query_exec_state m)) (\<lambda>st.
     and_then (getDependencies (query_dag m) node_index) (\<lambda>deps.
     and_then (getDependents (query_dag m) node_index) (\<lambda>links.
       fold_res (add_dependent_link node_index)
         (m\<lparr>query_exec_state := st,
            non_dependent_operators := (if deps = [] then non_dependent_operators m @ [node_index]
                                        else non_dependent_operators m)\<rparr>)
         (map fst links)))))"

definition new_query_manager :: "'o operator_interface \<Rightarrow> ('o, bool) DAG \<Rightarrow> nat \<Rightarrow> 'o QueryManager result" where
  "new_query_manager I dag numa_nodes =
     and_then (new_container (dag_size dag) numa_nodes) (\<lambda>c.
       fold_res (add_operator I)
         \<lparr>query_dag = dag, output_consumers = replicate (dag_size dag) [],
          blocking_dependencies = replicate (dag_size dag) {}, non_dependent_operators = [],
          query_exec_state = new_execution_state (dag_size dag),
          blocking_dependents = replicate (dag_size dag) [],
          non_blocking_dependencies = replicate (dag_size dag) {}, workorders_container = c\<rparr>
         [0..<dag_size dag])"

definition queryStatus :: "'o QueryManager \<Rightarrow> nat \<Rightarrow> QueryStatusCode result" where
  "queryStatus m op_index =
     (if hasQueryExecutionFinished (query_exec_state m) then Inr kQueryExecuted
      else and_then (hasExecutionFinished (query_exec_state m) op_index) (\<lambda>finished.
        if finished then Inr kOperatorExecuted else Inr kNone))"

definition checkAllBlockingDependenciesMet :: "'o QueryManager \<Rightarrow> nat \<Rightarrow> bool result" where
  "checkAllBlockingDependenciesMet m node_index =
     and_then (vec_at (blocking_dependencies m) node_index) (\<lambda>s. Inr (s = {}))"

definition checkNormalExecutionOver :: "'o QueryManager \<Rightarrow> nat \<Rightarrow> bool result" where
  "checkNormalExecutionOver m index =
     and_then (hasNormalWorkOrder (workorders_container m) index) (\<lambda>has.
       if has then Inr False
       else and_then (getNumQueuedWorkOrders (query_exec_state m) index) (\<lambda>n.
         if n \<noteq> 0 then Inr False else hasDoneGenerationWorkOrders (query_exec_state m) index))"

definition checkRebuildOver :: "'o QueryManager \<Rightarrow> nat \<Rightarrow> bool result" where
  "checkRebuildOver m index =
     and_then (hasRebuildInitiated (query_exec_state m) index) (\<lambda>initiated.
     and_then (check CheckFailed initiated) (\<lambda>_.
     and_then (hasRebuildWorkOrder (workorders_container m) index) (\<lambda>has.
       if has then Inr False
       else and_then (qes_getNumRebuildWorkOrders (query_exec_state m) index) (\<lambda>n. Inr (n = 0)))))"

definition fetchNormalWorkOrders ::
    "'o operator_interface \<Rightarrow> 'o QueryManager \<Rightarrow> nat \<Rightarrow> (bool \<times> 'o QueryManager) result" where
  "fetchNormalWorkOrders I m index =
     and_then (checkAllBlockingDependenciesMet m index) (\<lambda>met.
     and_then (check CheckFailed met) (\<lambda>_.
     and_then (hasDoneGenerationWorkOrders (query_exec_state m) index) (\<lambda>done.
     and_then (check CheckFailed (\<not> done)) (\<lambda>_.
     and_then (getNumNormalWorkOrders (workorders_container m) index) (\<lambda>num_pending_workorders_before.
     and_then (getNodePayloadMutable m index) (\<lambda>op.
       (let (orders, done_generation, op') = getAllWorkOrders I op; m1 = set_payload m index op' in
        and_then (fold_res (\<lambda>c w. addNormalWorkOrder c w index) (workorders_container m1) orders) (\<lambda>c.
        and_then (if done_generation then setDoneGenerationWorkOrders (query_exec_state m1) index
                  else Inr (query_exec_state m1)) (\<lambda>st.
        and_then (getNumNormalWorkOrders c index) (\<lambda>num_pending_workorders_after.
          Inr (num_pending_workorders_before < num_pending_workorders_after,
               m1\<lparr>workorders_container := c, query_exec_state := st\<rparr>)))))))))))"

text \<open>\<open>getRebuildWorkOrders\<close> and \<open>initiateRebuild\<close>; the result tells whether there is nothing to rebuild.\<close>

definition getRebuildWorkOrders ::
    "'o operator_interface \<Rightarrow> 'o QueryManager \<Rightarrow> nat \<Rightarrow> (nat \<times> 'o QueryManager) result" where
  "getRebuildWorkOrders I m index =
     and_then (getNodePayload (query_dag m) index) (\<lambda>op.
     and_then (check CheckFailed (hasInsertDestination I op)) (\<lambda>_.
       (let refs = getPartiallyFilledBlocks I op in
        and_then (fold_res (\<lambda>c w. addRebuildWorkOrder c w index) (workorders_container m) refs) (\<lambda>c.
          Inr (length refs, m\<lparr>workorders_container := c\<rparr>)))))"

definition initiateRebuild ::
    "'o operator_interface \<Rightarrow> 'o QueryManager \<Rightarrow> nat \<Rightarrow> (bool \<times> 'o QueryManager) result" where
  "initiateRebuild I m index =
     and_then (hasRebuildWorkOrder (workorders_container m) index) (\<lambda>has.
     and_then (check CheckFailed (\<not> has)) (\<lambda>_.
     and_then (isRebuildRequired (query_exec_state m) index) (\<lambda>required.
     and_then (check CheckFailed required) (\<lambda>_.
     and_then (hasRebuildInitiated (query_exec_state m) index) (\<lambda>initiated.
     and_then (check CheckFailed (\<not> initiated)) (\<lambda>_.
     and_then (getRebuildWorkOrders I m index) (\<lambda>(num_rebuild_work_orders, m1).
     and_then (getNumRebuildWorkOrders (workorders_container m1) index) (\<lambda>n.
     and_then (check CheckFailed (n = num_rebuild_work_orders)) (\<lambda>_.
     and_then (setRebuildStatus (query_exec_state m1) index num_rebuild_work_orders True) (\<lambda>st.
       Inr (num_rebuild_work_orders = 0, m1\<lparr>query_exec_state := st\<rparr>)))))))))))"

text \<open>The condition under which \<open>markOperatorFinished\<close> goes on with a dependent, with the short circuits
  of \<^verbatim>\<open>&&\<close> and \<^verbatim>\<open>||\<close>.\<close>

definition dependent_over ::
    "'o operator_interface \<Rightarrow> 'o QueryManager \<Rightarrow> nat \<Rightarrow> (bool \<times> 'o QueryManager) result" where
  "dependent_over I m dependent_op_index =
     and_then (fetchNormalWorkOrders I m dependent_op_index) (\<lambda>(fetched, m1).
       if fetched then Inr (False, m1)
       else and_then (vec_at (non_blocking_dependencies m1) dependent_op_index) (\<lambda>s.
         if s \<noteq> {} then Inr (False, m1)
         else and_then (checkNormalExecutionOver m1 dependent_op_index) (\<lambda>over.
           if \<not> over then Inr (False, m1)
           else and_then (isRebuildRequired (query_exec_state m1) dependent_op_index) (\<lambda>required.
             if \<not> required then Inr (True, m1) else initiateRebuild I m1 dependent_op_index))))"

definition erase_dependency :: "nat \<Rightarrow> nat set list \<Rightarrow> nat \<Rightarrow> nat set list result" where
  "erase_dependency index ss dependent_op_index =
     and_then (vec_at ss dependent_op_index) (\<lambda>s. vec_set ss dependent_op_index (s - {index}))"

text \<open>The first part of \<open>markOperatorFinished\<close>, up to the loop over the dependents.\<close>

definition finish_operator :: "'o operator_interface \<Rightarrow> 'o QueryManager \<Rightarrow> nat \<Rightarrow> 'o QueryManager result" where
  "finish_operator I m index =
     and_then (setExecutionFinished (query_exec_state m) index) (\<lambda>st.
     and_then (vec_at (blocking_dependents m) index) (\<lambda>bd.
     and_then (fold_res (erase_dependency index) (blocking_dependencies m) bd) (\<lambda>bs.
     and_then (vec_at (output_consumers m) index) (\<lambda>oc.
     and_then (fold_res (erase_dependency index) (non_blocking_dependencies m) oc) (\<lambda>ns.
     and_then (getNodePayloadMutable m index) (\<lambda>op.
       Inr (set_payload (m\<lparr>query_exec_state := st, blocking_dependencies := bs, non_blocking_dependencies := ns\<rparr>)
              index (updateCatalogOnCompletion I op))))))))"

definition done_feeding ::
    "'o operator_interface \<Rightarrow> int \<Rightarrow> 'o QueryManager \<Rightarrow> nat \<Rightarrow> 'o QueryManager result" where
  "done_feeding I output_rel m dependent_op_index =
     (if output_rel \<ge> 0 then
        and_then (getNodePayloadMutable m dependent_op_index) (\<lambda>op.
          Inr (set_payload m dependent_op_index (doneFeedingInputBlocks I op output_rel)))
      else Inr m)"

fun markOperatorFinished :: "nat \<Rightarrow> 'o operator_interface \<Rightarrow> 'o QueryManager \<Rightarrow> nat \<Rightarrow> 'o QueryManager result"
  and process_dependents ::
    "nat \<Rightarrow> 'o operator_interface \<Rightarrow> int \<Rightarrow> 'o QueryManager \<Rightarrow> nat list \<Rightarrow> 'o QueryManager result"
where
  "markOperatorFinished 0 I m index = Inl OutOfFuel"
| "markOperatorFinished (Suc fuel) I m index =
     and_then (finish_operator I m index) (\<lambda>m1.
     and_then (getNodePayloadMutable m1 index) (\<lambda>op.
     and_then (getDependents (query_dag m1) index) (\<lambda>links.
       process_dependents fuel I (getOutputRelationID I op) m1 (map fst links))))"
| "process_dependents fuel I output_rel m [] = Inr m"
| "process_dependents fuel I output_rel m (dependent_op_index # rest) =
     and_then (done_feeding I output_rel m dependent_op_index) (\<lambda>m1.
     and_then (checkAllBlockingDependenciesMet m1 dependent_op_index) (\<lambda>met.
     and_then (if met then
                 and_then (dependent_over I m1 dependent_op_index) (\<lambda>(over, m2).
                   if over then markOperatorFinished fuel I m2 dependent_op_index else Inr m2)
               else Inr m1)
       (\<lambda>m3. process_dependents fuel I output_rel m3 rest)))"

text \<open>The recursion follows links of the plan: the number of operators bounds its depth.\<close>

definition mark_finished :: "'o operator_interface \<Rightarrow> 'o QueryManager \<Rightarrow> nat \<Rightarrow> 'o QueryManager result" where
  "mark_finished I m index = markOperatorFinished (dag_size (query_dag m)) I m index"

text \<open>The constructor of the single-node manager.  The call of \<^verbatim>\<open>initiateRebuild\<close> is the argument of a
  \<^verbatim>\<open>DCHECK\<close>, and so takes place in the debug build only, which is the one modelled.\<close>

definition start_operator :: "'o operator_interface \<Rightarrow> 'o QueryManager \<Rightarrow> nat \<Rightarrow> 'o QueryManager result" where
  "start_operator I m index =
     and_then (fetchNormalWorkOrders I m index) (\<lambda>(fetched, m1).
       if fetched then Inr m1
       else and_then (isRebuildRequired (query_exec_state m1) index) (\<lambda>required.
         and_then (if \<not> required then Inr (True, m1) else initiateRebuild I m1 index) (\<lambda>(ok, m2).
         and_then (check CheckFailed ok) (\<lambda>_. mark_finished I m2 index))))"

definition QueryManagerSingleNode :: "'o operator_interface \<Rightarrow> ('o, bool) DAG \<Rightarrow> nat \<Rightarrow> 'o QueryManager result" where
  "QueryManagerSingleNode I dag numa_nodes =
     and_then (new_query_manager I dag numa_nodes) (\<lambda>m.
       fold_res (start_operator I) m (non_dependent_operators m))"

datatype WorkerMessage = WorkOrderMessage WorkOrder nat | RebuildWorkOrderMessage WorkOrder nat

definition getNextWorkerMessage :: "'o QueryManager \<Rightarrow> (WorkerMessage option \<times> 'o QueryManager) result" where
  "getNextWorkerMessage m =
     and_then (getNextWorkOrder (workorders_container m)) (\<lambda>(r, c).
       (let m1 = m\<lparr>workorders_container := c\<rparr> in
        case r of
          None \<Rightarrow> Inr (None, m1)
        | Some (None, operator_index, is_rebuild) \<Rightarrow> Inr (None, m1)
        | Some (Some work_order, operator_index, is_rebuild) \<Rightarrow>
            if is_rebuild then Inr (Some (RebuildWorkOrderMessage work_order operator_index), m1)
            else and_then (incrementNumQueuedWorkOrders (query_exec_state m1) operator_index) (\<lambda>st.
              Inr (Some (WorkOrderMessage work_order operator_index), m1\<lparr>query_exec_state := st\<rparr>))))"

definition processFeedbackMessage ::
    "'o operator_interface \<Rightarrow> 'o QueryManager \<Rightarrow> nat \<Rightarrow> nat \<Rightarrow> 'o QueryManager result" where
  "processFeedbackMessage I m op_index msg =
     and_then (getNodePayloadMutable m op_index) (\<lambda>op.
       (let m1 = set_payload m op_index (receiveFeedbackMessage I op msg) in
        and_then (hasDoneGenerationWorkOrders (query_exec_state m1) op_index) (\<lambda>done.
          if done then Inr m1
          else and_then (fetchNormalWorkOrders I m1 op_index) (\<lambda>(fetched, m2). Inr m2))))"

definition processWorkOrderCompleteMessage ::
    "'o operator_interface \<Rightarrow> 'o QueryManager \<Rightarrow> nat \<Rightarrow> 'o QueryManager result" where
  "processWorkOrderCompleteMessage I m op_index =
     and_then (decrementNumQueuedWorkOrders (query_exec_state m) op_index) (\<lambda>st.
       (let m1 = m\<lparr>query_exec_state := st\<rparr> in
        and_then (checkNormalExecutionOver m1 op_index) (\<lambda>over.
          if \<not> over then Inr m1
          else and_then (isRebuildRequired (query_exec_state m1) op_index) (\<lambda>required.
            if required then
              and_then (hasRebuildInitiated (query_exec_state m1) op_index) (\<lambda>initiated.
              and_then (check CheckFailed (\<not> initiated)) (\<lambda>_.
              and_then (initiateRebuild I m1 op_index) (\<lambda>(completed, m2).
                if \<not> completed then Inr m2 else mark_finished I m2 op_index)))
            else mark_finished I m1 op_index))))"

definition processRebuildWorkOrderCompleteMessage ::
    "'o operator_interface \<Rightarrow> 'o QueryManager \<Rightarrow> nat \<Rightarrow> 'o QueryManager result" where
  "processRebuildWorkOrderCompleteMessage I m op_index =
     and_then (decrementNumRebuildWorkOrders (query_exec_state m) op_index) (\<lambda>st.
       (let m1 = m\<lparr>query_exec_state := st\<rparr> in
        and_then (checkRebuildOver m1 op_index) (\<lambda>over.
          if \<not> over then Inr m1 else mark_finished I m1 op_index)))"

definition feed_consumer ::
    "'o operator_interface \<Rightarrow> nat \<Rightarrow> int \<Rightarrow> nat \<Rightarrow> 'o QueryManager \<Rightarrow> nat \<Rightarrow> 'o QueryManager result" where
  "feed_consumer I block rel_id part_id m consumer_index =
     and_then (getNodePayloadMutable m consumer_index) (\<lambda>op.
       (let m1 = set_payload m consumer_index (feedInputBlock I op block rel_id part_id) in
        and_then (checkAllBlockingDependenciesMet m1 consumer_index) (\<lambda>met.
          if met then and_then (fetchNormalWorkOrders I m1 consumer_index) (\<lambda>(fetched, m2). Inr m2)
          else Inr m1)))"

definition processDataPipelineMessage ::
    "'o operator_interface \<Rightarrow> 'o QueryManager \<Rightarrow> nat \<Rightarrow> nat \<Rightarrow> int \<Rightarrow> nat \<Rightarrow> 'o QueryManager result" where
  "processDataPipelineMessage I m op_index block rel_id part_id =
     and_then (vec_at (output_consumers m) op_index) (\<lambda>consumers.
       fold_res (feed_consumer I block rel_id part_id) m consumers)"

end
