(* ===== verification/QueryExecutions.thy ===== *)
theory QueryExecutions
  imports QueryManagers
begin

text \<open>
  What holds in every state of the manager of a query: the sets of open dependencies are exactly the
  unfinished dependencies of the plan, the number of finished operators is counted correctly, work
  orders exist only for operators whose blocking dependencies have finished, and a finished operator has
  no work left.  The operators of the plan are arbitrary (the record \<open>operator_interface\<close>).
\<close>

section \<open>Views of the state\<close>

abbreviation finished :: "'o QueryManager \<Rightarrow> nat \<Rightarrow> bool" where
  "finished m i \<equiv> execution_finished (query_exec_state m) ! i"

abbreviation generated :: "'o QueryManager \<Rightarrow> nat \<Rightarrow> bool" where
  "generated m i \<equiv> done_gen (query_exec_state m) ! i"

abbreviation queued :: "'o QueryManager \<Rightarrow> nat \<Rightarrow> nat" where
  "queued m i \<equiv> queued_workorders_per_op (query_exec_state m) ! i"

abbreviation normal_pending :: "'o QueryManager \<Rightarrow> nat \<Rightarrow> WorkOrder multiset" where
  "normal_pending m i \<equiv> op_orders (normal_workorders (workorders_container m) ! i)"

abbreviation rebuild_pending :: "'o QueryManager \<Rightarrow> nat \<Rightarrow> WorkOrder multiset" where
  "rebuild_pending m i \<equiv> op_orders (rebuild_workorders (workorders_container m) ! i)"

definition initiated :: "'o QueryManager \<Rightarrow> nat \<Rightarrow> bool" where
  "initiated m i = (case rebuild_status (query_exec_state m) i of None \<Rightarrow> False | Some r \<Rightarrow> has_initiated r)"

definition outstanding :: "'o QueryManager \<Rightarrow> nat \<Rightarrow> nat" where
  "outstanding m i = (case rebuild_status (query_exec_state m) i of None \<Rightarrow> 0 | Some r \<Rightarrow> num_pending_workorders r)"

text \<open>The number of rebuild work orders in execution.\<close>

definition rebuilding :: "'o QueryManager \<Rightarrow> nat \<Rightarrow> int" where
  "rebuilding m i = int (outstanding m i) - int (size (rebuild_pending m i))"

text \<open>The plan without the payloads: dependencies and outgoing links of every operator.\<close>

type_synonym plan = "(nat list \<times> (nat \<times> bool) list) list"

definition plan_of :: "('o, bool) DAG \<Rightarrow> plan" where
  "plan_of g = map (\<lambda>x. (dependencies x, dependents_with_metadata x)) (dag_nodes g)"

abbreviation inputs :: "plan \<Rightarrow> nat \<Rightarrow> nat list" where
  "inputs p i \<equiv> fst (p ! i)"

abbreviation outputs :: "plan \<Rightarrow> nat \<Rightarrow> (nat \<times> bool) list" where
  "outputs p i \<equiv> snd (p ! i)"

definition plan_wf :: "plan \<Rightarrow> bool" where
  "plan_wf p \<longleftrightarrow> (\<forall>j < length p. distinct (map fst (outputs p j))
     \<and> (\<forall>(i, b) \<in> set (outputs p j). i < length p \<and> inputs p i \<noteq> []))"

lemma length_plan [simp]: "length (plan_of g) = dag_size g"
  by (simp add: plan_of_def dag_size_def)

lemma plan_nth [simp]:
  "i < dag_size g \<Longrightarrow> plan_of g ! i = (dependencies (dag_nodes g ! i), dependents_with_metadata (dag_nodes g ! i))"
  by (simp add: plan_of_def dag_size_def)

lemma plan_wfD: "plan_wf p \<Longrightarrow> j < length p \<Longrightarrow> (i, b) \<in> set (outputs p j) \<Longrightarrow> i < length p \<and> inputs p i \<noteq> []"
  by (fastforce simp: plan_wf_def)

lemma plan_wf_of: "dag_wf g \<Longrightarrow> plan_wf (plan_of g)"
proof -
  assume wf: "dag_wf g"
  have "i < dag_size g \<and> dependencies (dag_nodes g ! i) \<noteq> []"
    if "j < dag_size g" "(i, b) \<in> set (dependents_with_metadata (dag_nodes g ! j))" for i j b
  proof -
    have l: "(j, i) \<in> links g" using that by (force simp: links_def)
    then have "i < dag_size g" using dag_wfD(4) [OF wf] by blast
    then show ?thesis using l dag_wfD(3) [OF wf] by force
  qed
  then show ?thesis using dag_wfD(1) [OF wf] by (auto simp: plan_wf_def)
qed

lemma plan_set_payload [simp]: "plan_of (query_dag (set_payload m i op)) = plan_of (query_dag m)"
proof -
  let ?ns = "dag_nodes (query_dag m)" and ?f = "\<lambda>x. (dependencies x, dependents_with_metadata x)"
  have "map ?f (?ns[i := (?ns ! i)\<lparr>node_payload := op\<rparr>]) = (map ?f ?ns)[i := ?f (?ns ! i)]"
    by (simp add: map_update)
  also have "\<dots> = map ?f ?ns" by (cases "i < length ?ns") (simp_all add: list_update_same_conv list_update_beyond)
  finally show ?thesis by (simp add: plan_of_def set_payload_def)
qed

lemma set_payload_simps [simp]:
  "output_consumers (set_payload m i op) = output_consumers m"
  "blocking_dependencies (set_payload m i op) = blocking_dependencies m"
  "non_dependent_operators (set_payload m i op) = non_dependent_operators m"
  "query_exec_state (set_payload m i op) = query_exec_state m"
  "blocking_dependents (set_payload m i op) = blocking_dependents m"
  "non_blocking_dependencies (set_payload m i op) = non_blocking_dependencies m"
  "workorders_container (set_payload m i op) = workorders_container m"
  by (simp_all add: set_payload_def)

section \<open>The invariant\<close>

text \<open>The fixed part: sizes, and the lists derived from the links.\<close>

definition qm_shape :: "plan \<Rightarrow> 'o QueryManager \<Rightarrow> bool" where
  "qm_shape p m \<longleftrightarrow> plan_wf p \<and> plan_of (query_dag m) = p
     \<and> state_wf (query_exec_state m) \<and> num_operators (query_exec_state m) = length p
     \<and> container_inv (workorders_container m) \<and> length (normal_workorders (workorders_container m)) = length p
     \<and> length (blocking_dependencies m) = length p \<and> length (non_blocking_dependencies m) = length p
     \<and> length (output_consumers m) = length p \<and> length (blocking_dependents m) = length p
     \<and> (\<forall>j < length p. set (blocking_dependents m ! j) = {i. (i, True) \<in> set (outputs p j)}
          \<and> set (output_consumers m ! j) = {i. (i, False) \<in> set (outputs p j)})"

text \<open>The open dependencies are the unfinished ones, and finished operators are counted.\<close>

definition open_inputs :: "plan \<Rightarrow> 'o QueryManager \<Rightarrow> bool \<Rightarrow> nat \<Rightarrow> nat set" where
  "open_inputs p m b i = {j. j < length p \<and> (i, b) \<in> set (outputs p j) \<and> \<not> finished m j}"

definition qm_deps :: "plan \<Rightarrow> 'o QueryManager \<Rightarrow> bool" where
  "qm_deps p m \<longleftrightarrow> (\<forall>i < length p. blocking_dependencies m ! i = open_inputs p m True i
       \<and> non_blocking_dependencies m ! i = open_inputs p m False i)
     \<and> num_operators_finished (query_exec_state m) = card {i. i < length p \<and> finished m i}"

text \<open>No normal work is left, and none at all.\<close>

definition normal_over :: "'o QueryManager \<Rightarrow> nat \<Rightarrow> bool" where
  "normal_over m i \<longleftrightarrow> queued m i = 0 \<and> normal_pending m i = {#}"

definition idle :: "'o QueryManager \<Rightarrow> nat \<Rightarrow> bool" where
  "idle m i \<longleftrightarrow> normal_over m i \<and> rebuild_pending m i = {#} \<and> outstanding m i = 0"

text \<open>An operator whose rebuild has begun, or that has finished, generates no more work orders.  (An
  operator without dependencies that has nothing to do at the start is finished at once, even if it
  did not report the end of its generation.)\<close>

definition operator_ok :: "plan \<Rightarrow> 'o QueryManager \<Rightarrow> nat \<Rightarrow> bool" where
  "operator_ok p m i \<longleftrightarrow>
     (finished m i \<longrightarrow> idle m i)
   \<and> (finished m i \<or> initiated m i \<longrightarrow> normal_over m i \<and> (inputs p i \<noteq> [] \<longrightarrow> generated m i))
   \<and> (finished m i \<or> generated m i \<or> initiated m i \<or> \<not> normal_over m i \<longrightarrow> blocking_dependencies m ! i = {})
   \<and> (rebuild_pending m i \<noteq> {#} \<or> outstanding m i \<noteq> 0 \<longrightarrow> initiated m i)"

definition qm_inv :: "plan \<Rightarrow> 'o QueryManager \<Rightarrow> bool" where
  "qm_inv p m \<longleftrightarrow> qm_shape p m \<and> qm_deps p m \<and> (\<forall>i < length p. operator_ok p m i)"

section \<open>Work orders of one operator\<close>

lemma has_fold:
  "fold_res (\<lambda>found i. if found then Inr True else op_hasWorkOrderForNUMANode c (int i)) b [i..<k]
     = Inr (b \<or> (\<exists>j \<in> {i..<k}. single_numa_node_workorders c ! j \<noteq> []))"
  if "k \<le> num_numa_nodes c" "multiple_numa_nodes_workorders c = []"
proof (cases "i \<le> k")
  case True
  then show ?thesis
    using that(1)
  proof (induction k rule: dec_induct)
    case base
    then show ?case by simp
  next
    case (step k)
    have "op_hasWorkOrderForNUMANode c (int k) = Inr (single_numa_node_workorders c ! k \<noteq> [])"
      using step that(2)
      by (simp add: op_hasWorkOrderForNUMANode_def numa_index_def list_hasWorkOrderForNUMANode_def)
    then show ?case using step by (auto simp: fold_res_append atLeastLessThanSuc)
  qed
qed simp

lemma op_hasWorkOrder_orders: "op_hasWorkOrder c = Inr (op_orders c \<noteq> {#})"
proof (cases "numa_agnostic_workorders c = [] \<and> multiple_numa_nodes_workorders c = []")
  case True
  have "concat (single_numa_node_workorders c) = [] \<longleftrightarrow> \<not> (\<exists>j \<in> {0..<num_numa_nodes c}. single_numa_node_workorders c ! j \<noteq> [])"
    by (auto simp: all_set_conv_all_nth)
  then show ?thesis using True has_fold [of "num_numa_nodes c" c False 0] by (simp add: op_hasWorkOrder_def op_orders_def)
next
  case False
  then show ?thesis by (auto simp: op_hasWorkOrder_def op_orders_def)
qed

lemma op_addWorkOrder_numa:
  "op_addWorkOrder oc w = Inr oc' \<Longrightarrow> getPreferredNUMANodes w = [n] \<Longrightarrow> 0 \<le> n \<and> nat n < num_numa_nodes oc"
  by (auto simp: op_addWorkOrder_def numa_index_def res_simps)

lemma add_normal:
  assumes inv: "container_inv c" and a: "addNormalWorkOrder c w i = Inr c'"
  shows "container_inv c' \<and> length (normal_workorders c') = length (normal_workorders c)
    \<and> op_orders (normal_workorders c' ! i) = add_mset w (op_orders (normal_workorders c ! i))
    \<and> (\<forall>j. j \<noteq> i \<longrightarrow> normal_workorders c' ! j = normal_workorders c ! j)
    \<and> rebuild_workorders c' = rebuild_workorders c"
proof -
  obtain oc' where oc: "i < length (normal_workorders c)" "op_addWorkOrder (normal_workorders c ! i) w = Inr oc'"
    and len: "length (normal_workorders c') = length (normal_workorders c)"
    using a by (auto simp: addNormalWorkOrder_def operator_container_def res_simps)
  have "num_numa_nodes (normal_workorders c ! i) = container_numa_nodes c" using container_invD(2) [OF inv] oc(1) by simp
  then show ?thesis using addNormalWorkOrder_spec [OF inv oc(1), of w] op_addWorkOrder_numa [OF oc(2)] a len by auto
qed

lemma add_rebuild:
  assumes inv: "container_inv c" and a: "addRebuildWorkOrder c w i = Inr c'"
  shows "container_inv c' \<and> length (normal_workorders c') = length (normal_workorders c)
    \<and> op_orders (rebuild_workorders c' ! i) = add_mset w (op_orders (rebuild_workorders c ! i))
    \<and> (\<forall>j. j \<noteq> i \<longrightarrow> rebuild_workorders c' ! j = rebuild_workorders c ! j)
    \<and> normal_workorders c' = normal_workorders c"
proof -
  obtain oc' where oc: "i < length (rebuild_workorders c)" "op_addWorkOrder (rebuild_workorders c ! i) w = Inr oc'"
    using a by (auto simp: addRebuildWorkOrder_def operator_container_def res_simps)
  have "num_numa_nodes (rebuild_workorders c ! i) = container_numa_nodes c" using container_invD(3) [OF inv] oc(1) by simp
  then show ?thesis using addRebuildWorkOrder_spec [OF inv oc(1), of w] op_addWorkOrder_numa [OF oc(2)] a by auto
qed

lemma add_normals:
  assumes "container_inv c" and "fold_res (\<lambda>c w. addNormalWorkOrder c w i) c ws = Inr c'"
  shows "container_inv c' \<and> length (normal_workorders c') = length (normal_workorders c)
    \<and> op_orders (normal_workorders c' ! i) = op_orders (normal_workorders c ! i) + mset ws
    \<and> (\<forall>j. j \<noteq> i \<longrightarrow> normal_workorders c' ! j = normal_workorders c ! j)
    \<and> rebuild_workorders c' = rebuild_workorders c"
  using assms
proof (induction ws arbitrary: c)
  case (Cons w ws)
  from Cons.prems(2) obtain c1 where c1: "addNormalWorkOrder c w i = Inr c1"
    "fold_res (\<lambda>c w. addNormalWorkOrder c w i) c1 ws = Inr c'" by (auto simp: res_simps)
  from add_normal [OF Cons.prems(1) c1(1)] Cons.IH [OF _ c1(2)] show ?case by simp
qed simp

lemma add_rebuilds:
  assumes "container_inv c" and "fold_res (\<lambda>c w. addRebuildWorkOrder c w i) c ws = Inr c'"
  shows "container_inv c' \<and> length (normal_workorders c') = length (normal_workorders c)
    \<and> op_orders (rebuild_workorders c' ! i) = op_orders (rebuild_workorders c ! i) + mset ws
    \<and> (\<forall>j. j \<noteq> i \<longrightarrow> rebuild_workorders c' ! j = rebuild_workorders c ! j)
    \<and> normal_workorders c' = normal_workorders c"
  using assms
proof (induction ws arbitrary: c)
  case (Cons w ws)
  from Cons.prems(2) obtain c1 where c1: "addRebuildWorkOrder c w i = Inr c1"
    "fold_res (\<lambda>c w. addRebuildWorkOrder c w i) c1 ws = Inr c'" by (auto simp: res_simps)
  from add_rebuild [OF Cons.prems(1) c1(1)] Cons.IH [OF _ c1(2)] show ?case by simp
qed simp

section \<open>Reading the state\<close>

lemma qm_shapeD:
  assumes "qm_shape p m"
  shows "plan_wf p" "plan_of (query_dag m) = p" "dag_size (query_dag m) = length p"
    and "length (queued_workorders_per_op (query_exec_state m)) = length p"
    and "length (rebuild_required (query_exec_state m)) = length p"
    and "length (done_gen (query_exec_state m)) = length p"
    and "length (execution_finished (query_exec_state m)) = length p"
    and "container_inv (workorders_container m)"
    and "length (normal_workorders (workorders_container m)) = length p"
    and "length (rebuild_workorders (workorders_container m)) = length p"
    and "length (blocking_dependencies m) = length p" "length (non_blocking_dependencies m) = length p"
    and "length (output_consumers m) = length p" "length (blocking_dependents m) = length p"
    and "i < length p \<Longrightarrow> (rebuild_status (query_exec_state m) i \<noteq> None) = rebuild_required (query_exec_state m) ! i"
  using assms container_invD(1) [of "workorders_container m"]
  by (auto simp: qm_shape_def state_wf_def)

lemma qm_invD:
  assumes "qm_inv p m"
  shows "qm_shape p m" "qm_deps p m" "i < length p \<Longrightarrow> operator_ok p m i"
  using assms by (auto simp: qm_inv_def)

lemma met_eq: "checkAllBlockingDependenciesMet m i = Inr met \<longleftrightarrow> i < length (blocking_dependencies m) \<and> met = (blocking_dependencies m ! i = {})"
  by (auto simp: checkAllBlockingDependenciesMet_def res_simps)

lemma over_eq:
  "checkNormalExecutionOver m i = Inr over \<Longrightarrow> over \<Longrightarrow> normal_over m i \<and> generated m i"
  by (auto simp: checkNormalExecutionOver_def hasNormalWorkOrder_def operator_container_def op_hasWorkOrder_orders
      query_state_defs res_simps normal_over_def split: if_splits)

lemma rebuild_over_eq:
  "checkRebuildOver m i = Inr over \<Longrightarrow> over \<Longrightarrow> initiated m i \<and> rebuild_pending m i = {#} \<and> outstanding m i = 0"
  by (auto simp: checkRebuildOver_def hasRebuildWorkOrder_def operator_container_def op_hasWorkOrder_orders
      query_state_defs res_simps initiated_def outstanding_def split: if_splits)

text \<open>The dependents of an operator have dependencies.\<close>

lemma dependents_inputs:
  assumes "qm_shape p m" and "j < length p" and "i \<in> set (blocking_dependents m ! j) \<union> set (output_consumers m ! j)"
  shows "i < length p \<and> inputs p i \<noteq> []"
  using assms by (auto simp: qm_shape_def plan_wf_def)

lemma getDependents_outputs:
  assumes "qm_shape p m" and "getDependents (query_dag m) j = Inr l"
  shows "j < length p \<and> l = outputs p j"
proof -
  note p = qm_shapeD(2) [OF assms(1), symmetric]
  show ?thesis unfolding p using assms(2) by (auto simp: getDependents_def checked_node_def res_simps)
qed

section \<open>Generating work orders\<close>

text \<open>An operator that may generate: it is not finished and not in its rebuild phase, or the check of
  \<open>fetchNormalWorkOrders\<close> fails.\<close>

definition may_generate :: "plan \<Rightarrow> 'o QueryManager \<Rightarrow> nat \<Rightarrow> bool" where
  "may_generate p m i \<longleftrightarrow> (inputs p i = [] \<longrightarrow> \<not> finished m i \<and> \<not> initiated m i)"

lemma fetch_cases:
  assumes inv: "qm_inv p m" and f: "fetchNormalWorkOrders I m i = Inr (fetched, m')"
  obtains orders st op c where
    "i < length p" "blocking_dependencies m ! i = {}" "\<not> generated m i"
    "m' = (set_payload m i op)\<lparr>workorders_container := c, query_exec_state := st\<rparr>"
    "st = query_exec_state m \<or> st = (query_exec_state m)\<lparr>done_gen := (done_gen (query_exec_state m))[i := True]\<rparr>"
    "container_inv c" "length (normal_workorders c) = length p"
    "op_orders (normal_workorders c ! i) = normal_pending m i + mset orders"
    "\<And>j. j \<noteq> i \<Longrightarrow> normal_workorders c ! j = normal_workorders (workorders_container m) ! j"
    "rebuild_workorders c = rebuild_workorders (workorders_container m)"
    "fetched = (orders \<noteq> [])"
proof -
  note sh = qm_shapeD [OF qm_invD(1) [OF inv]]
  obtain orders dn op where g: "getAllWorkOrders I (node_payload (dag_nodes (query_dag m) ! i)) = (orders, dn, op)"
    using prod_cases3 by blast
  from f obtain c st where c: "fold_res (\<lambda>c w. addNormalWorkOrder c w i) (workorders_container m) orders = Inr c"
    and st: "(if dn then setDoneGenerationWorkOrders (query_exec_state (set_payload m i op)) i
       else Inr (query_exec_state (set_payload m i op))) = Inr st"
    and r: "i < length p" "blocking_dependencies m ! i = {}" "\<not> generated m i"
    and m': "m' = (set_payload m i op)\<lparr>workorders_container := c, query_exec_state := st\<rparr>"
    and fe: "fetched = (size (normal_pending m i) < size (op_orders (normal_workorders c ! i)))"
    by (auto simp: fetchNormalWorkOrders_def Let_def met_eq hasDoneGenerationWorkOrders_def check_operator_def getNumNormalWorkOrders_def operator_container_def
        op_getNumWorkOrders_size getNodePayloadMutable_def getNodePayload_def checked_node_def g sh res_simps)
  note a = add_normals [OF sh(8) c]
  have st': "st = query_exec_state m \<or> st = (query_exec_state m)\<lparr>done_gen := (done_gen (query_exec_state m))[i := True]\<rparr>"
    using st by (auto simp: query_state_defs res_simps split: if_splits)
  show ?thesis
    by (rule that [OF r m' st', of orders]) (use a fe sh(9) in auto)
qed

lemma still_true: "xs ! j \<Longrightarrow> j < length xs \<Longrightarrow> xs[i := True] ! j"
  by (cases "i = j") simp_all

lemma views_fetch:
  assumes "m' = (set_payload m i op)\<lparr>workorders_container := c, query_exec_state := st\<rparr>"
    and "st = query_exec_state m \<or> st = (query_exec_state m)\<lparr>done_gen := (done_gen (query_exec_state m))[i := True]\<rparr>"
  shows "finished m' = finished m" "queued m' = queued m" "initiated m' = initiated m" "outstanding m' = outstanding m"
    "blocking_dependencies m' = blocking_dependencies m" "non_blocking_dependencies m' = non_blocking_dependencies m"
    "num_operators_finished (query_exec_state m') = num_operators_finished (query_exec_state m)"
    "j \<noteq> i \<Longrightarrow> generated m' j = generated m j" "generated m j \<Longrightarrow> j < length (done_gen (query_exec_state m)) \<Longrightarrow> generated m' j"
    "open_inputs p m' b j = open_inputs p m b j"
  using assms(2) still_true by (auto simp: assms(1) fun_eq_iff initiated_def outstanding_def open_inputs_def)

lemma fetch_spec:
  assumes inv: "qm_inv p m" and f: "fetchNormalWorkOrders I m i = Inr (fetched, m')" and gen: "may_generate p m i"
  shows "qm_inv p m' \<and> i < length p \<and> \<not> finished m i \<and> \<not> initiated m i \<and> blocking_dependencies m ! i = {}
    \<and> finished m' = finished m \<and> queued m' = queued m \<and> initiated m' = initiated m \<and> outstanding m' = outstanding m
    \<and> (\<forall>j. j \<noteq> i \<longrightarrow> normal_pending m' j = normal_pending m j) \<and> (\<forall>j. rebuild_pending m' j = rebuild_pending m j)
    \<and> blocking_dependencies m' = blocking_dependencies m
    \<and> (\<not> fetched \<longrightarrow> normal_pending m' i = normal_pending m i)"
proof -
  note sh = qm_shapeD [OF qm_invD(1) [OF inv]]
  obtain orders st op c where r: "i < length p" "blocking_dependencies m ! i = {}" "\<not> generated m i"
    and m': "m' = (set_payload m i op)\<lparr>workorders_container := c, query_exec_state := st\<rparr>"
    and st: "st = query_exec_state m \<or> st = (query_exec_state m)\<lparr>done_gen := (done_gen (query_exec_state m))[i := True]\<rparr>"
    and c: "container_inv c" "length (normal_workorders c) = length p"
    "op_orders (normal_workorders c ! i) = normal_pending m i + mset orders"
    "\<And>j. j \<noteq> i \<Longrightarrow> normal_workorders c ! j = normal_workorders (workorders_container m) ! j"
    "rebuild_workorders c = rebuild_workorders (workorders_container m)" "fetched = (orders \<noteq> [])"
    by (rule fetch_cases [OF inv f], rule that)
  note v = views_fetch [OF m' st]
  have ok: "operator_ok p m j" if "j < length p" for j using qm_invD(3) [OF inv that] .
  have new: "\<not> finished m i" "\<not> initiated m i" using ok [OF r(1)] r(3) gen
    unfolding operator_ok_def may_generate_def by blast+
  have pend: "normal_pending m' j = (if j = i then normal_pending m i + mset orders else normal_pending m j)"
    "rebuild_pending m' j = rebuild_pending m j" for j using c(3-5) by (auto simp: m')
  have over: "normal_over m' j = (if j = i then normal_over m i \<and> orders = [] else normal_over m j)"
    "idle m' j = (if j = i then idle m i \<and> orders = [] else idle m j)" for j
    by (auto simp: normal_over_def idle_def pend v)
  have "operator_ok p m' j" if "j < length p" for j
  proof (cases "j = i")
    case True
    then show ?thesis using ok [OF that] new r(2) by (simp add: operator_ok_def over pend v)
  next
    case False
    then show ?thesis using ok [OF that] by (simp add: operator_ok_def over pend v)
  qed
  moreover have "qm_shape p m'"
    using qm_invD(1) [OF inv] st c(1,2) by (auto simp: qm_shape_def m' state_wf_def)
  moreover have "qm_deps p m'" using qm_invD(2) [OF inv] by (simp add: qm_deps_def v)
  ultimately have "qm_inv p m'" by (simp add: qm_inv_def)
  with r(1,2) new v pend c(6) show ?thesis by simp
qed

section \<open>Rebuilding\<close>

lemma rebuild_cases:
  assumes inv: "qm_inv p m" and f: "initiateRebuild I m i = Inr (completed, m')"
  obtains refs r c where
    "i < length p" "rebuild_pending m i = {#}" "\<not> initiated m i" "rebuild_status (query_exec_state m) i = Some r"
    "m' = m\<lparr>workorders_container := c, query_exec_state := (query_exec_state m)\<lparr>rebuild_status :=
       (rebuild_status (query_exec_state m))(i \<mapsto> r\<lparr>has_initiated := True, num_pending_workorders := length refs\<rparr>)\<rparr>\<rparr>"
    "container_inv c" "length (normal_workorders c) = length p"
    "op_orders (rebuild_workorders c ! i) = mset refs"
    "\<And>j. j \<noteq> i \<Longrightarrow> rebuild_workorders c ! j = rebuild_workorders (workorders_container m) ! j"
    "normal_workorders c = normal_workorders (workorders_container m)"
    "completed = (refs = [])"
proof -
  note sh = qm_shapeD [OF qm_invD(1) [OF inv]]
  let ?refs = "getPartiallyFilledBlocks I (node_payload (dag_nodes (query_dag m) ! i))"
  from f obtain c r where c: "fold_res (\<lambda>c w. addRebuildWorkOrder c w i) (workorders_container m) ?refs = Inr c"
    and pre: "i < length p" "rebuild_pending m i = {#}" "\<not> initiated m i" "rebuild_status (query_exec_state m) i = Some r"
    and m': "m' = m\<lparr>workorders_container := c, query_exec_state := (query_exec_state m)\<lparr>rebuild_status :=
       (rebuild_status (query_exec_state m))(i \<mapsto> r\<lparr>has_initiated := True, num_pending_workorders := length ?refs\<rparr>)\<rparr>\<rparr>"
    and d: "completed = (?refs = [])"
    by (auto simp: initiateRebuild_def getRebuildWorkOrders_def Let_def hasRebuildWorkOrder_def operator_container_def
        op_hasWorkOrder_orders query_state_defs getNodePayload_def checked_node_def initiated_def sh res_simps
        split: option.splits)
  note a = add_rebuilds [OF sh(8) c]
  show ?thesis by (rule that [OF pre m']) (use a pre(2) sh(9) d in auto)
qed

text \<open>What an operation on one operator in its rebuild phase leaves alone.\<close>

definition same_but_rebuild :: "'o QueryManager \<Rightarrow> 'o QueryManager \<Rightarrow> nat \<Rightarrow> bool" where
  "same_but_rebuild m m' i \<longleftrightarrow> finished m' = finished m \<and> generated m' = generated m \<and> queued m' = queued m
     \<and> (\<forall>j. normal_pending m' j = normal_pending m j) \<and> blocking_dependencies m' = blocking_dependencies m
     \<and> non_blocking_dependencies m' = non_blocking_dependencies m
     \<and> num_operators_finished (query_exec_state m') = num_operators_finished (query_exec_state m)
     \<and> (\<forall>j. j \<noteq> i \<longrightarrow> initiated m' j = initiated m j \<and> outstanding m' j = outstanding m j
          \<and> rebuild_pending m' j = rebuild_pending m j)"

lemma same_but_rebuild_inv:
  assumes inv: "qm_inv p m" and same: "same_but_rebuild m m' i" and sh: "qm_shape p m'" and ok: "operator_ok p m' i"
  shows "qm_inv p m'"
proof -
  note s = same [unfolded same_but_rebuild_def]
  have "operator_ok p m' j" if "j < length p" for j
  proof (cases "j = i")
    case False
    then show ?thesis using qm_invD(3) [OF inv that] s by (simp add: operator_ok_def idle_def normal_over_def)
  qed (use ok in simp)
  moreover have "qm_deps p m'" using qm_invD(2) [OF inv] s by (simp add: qm_deps_def open_inputs_def)
  ultimately show ?thesis using sh by (simp add: qm_inv_def)
qed

lemma rebuild_spec:
  assumes inv: "qm_inv p m" and f: "initiateRebuild I m i = Inr (completed, m')"
    and over: "normal_over m i" "inputs p i \<noteq> [] \<Longrightarrow> generated m i" and met: "blocking_dependencies m ! i = {}"
    and new: "\<not> finished m i"
  shows "qm_inv p m' \<and> same_but_rebuild m m' i \<and> (\<forall>j. rebuilding m' j = rebuilding m j)
    \<and> (completed \<longrightarrow> rebuild_pending m' i = {#} \<and> outstanding m' i = 0)"
proof -
  obtain refs r c where pre: "i < length p" "rebuild_pending m i = {#}" "\<not> initiated m i" "rebuild_status (query_exec_state m) i = Some r"
    and m': "m' = m\<lparr>workorders_container := c, query_exec_state := (query_exec_state m)\<lparr>rebuild_status :=
       (rebuild_status (query_exec_state m))(i \<mapsto> r\<lparr>has_initiated := True, num_pending_workorders := length refs\<rparr>)\<rparr>\<rparr>"
    and c: "container_inv c" "length (normal_workorders c) = length p" "op_orders (rebuild_workorders c ! i) = mset refs"
    "\<And>j. j \<noteq> i \<Longrightarrow> rebuild_workorders c ! j = rebuild_workorders (workorders_container m) ! j"
    "normal_workorders c = normal_workorders (workorders_container m)" "completed = (refs = [])"
    by (rule rebuild_cases [OF inv f], rule that)
  have same: "same_but_rebuild m m' i"
    using c(4,5) by (auto simp: same_but_rebuild_def m' initiated_def outstanding_def)
  have "qm_shape p m'" using qm_invD(1) [OF inv] c(1,2) pre(4) by (auto simp: qm_shape_def m' state_wf_def)
  moreover have views: "initiated m' i" "outstanding m' i = length refs" "rebuild_pending m' i = mset refs"
    using c(3) by (simp_all add: m' initiated_def outstanding_def)
  moreover have "operator_ok p m' i"
    using same over met new views(1) by (simp add: same_but_rebuild_def operator_ok_def normal_over_def)
  moreover have "outstanding m i = 0" using qm_invD(3) [OF inv pre(1)] pre(3) by (auto simp: operator_ok_def)
  then have "rebuilding m' j = rebuilding m j" for j
    using same views pre(2) by (cases "j = i") (simp_all add: rebuilding_def same_but_rebuild_def)
  ultimately show ?thesis using same_but_rebuild_inv [OF inv same] same c(6) by simp
qed

section \<open>Finishing an operator\<close>

lemma erase_fold:
  assumes "fold_res (erase_dependency index) ss ds = Inr ss'"
  shows "length ss' = length ss \<and> (\<forall>i < length ss. ss' ! i = (if i \<in> set ds then ss ! i - {index} else ss ! i))"
  using assms
proof (induction ds arbitrary: ss)
  case (Cons d ds)
  from Cons.prems obtain ss1 where ss1: "erase_dependency index ss d = Inr ss1" "fold_res (erase_dependency index) ss1 ds = Inr ss'"
    by (auto simp: res_simps)
  then have "d < length ss" "ss1 = ss[d := ss ! d - {index}]" by (auto simp: erase_dependency_def res_simps)
  then show ?case using Cons.IH [OF ss1(2)] by (auto simp: nth_list_update)
qed simp

lemma finish_cases:
  assumes inv: "qm_inv p m" and f: "finish_operator I m i = Inr m'"
  obtains op bs ns where "i < length p"
    "m' = set_payload (m\<lparr>query_exec_state := (query_exec_state m)\<lparr>execution_finished := (execution_finished (query_exec_state m))[i := True],
        num_operators_finished := num_operators_finished (query_exec_state m) + 1\<rparr>,
        blocking_dependencies := bs, non_blocking_dependencies := ns\<rparr>) i op"
    "length bs = length p" "length ns = length p"
    "\<And>j. j < length p \<Longrightarrow> bs ! j = (if (j, True) \<in> set (outputs p i) then blocking_dependencies m ! j - {i} else blocking_dependencies m ! j)"
    "\<And>j. j < length p \<Longrightarrow> ns ! j = (if (j, False) \<in> set (outputs p i) then non_blocking_dependencies m ! j - {i} else non_blocking_dependencies m ! j)"
proof -
  note sh = qm_shapeD [OF qm_invD(1) [OF inv]]
  from f obtain op bs ns where i: "i < length p"
    and m': "m' = set_payload (m\<lparr>query_exec_state := (query_exec_state m)\<lparr>execution_finished := (execution_finished (query_exec_state m))[i := True],
        num_operators_finished := num_operators_finished (query_exec_state m) + 1\<rparr>,
        blocking_dependencies := bs, non_blocking_dependencies := ns\<rparr>) i op"
    and b: "fold_res (erase_dependency i) (blocking_dependencies m) (blocking_dependents m ! i) = Inr bs"
    and n: "fold_res (erase_dependency i) (non_blocking_dependencies m) (output_consumers m ! i) = Inr ns"
    by (auto simp: finish_operator_def setExecutionFinished_def check_operator_def getNodePayloadMutable_def
        getNodePayload_def checked_node_def sh res_simps)
  have sets: "j \<in> set (blocking_dependents m ! i) \<longleftrightarrow> (j, True) \<in> set (outputs p i)"
    "j \<in> set (output_consumers m ! i) \<longleftrightarrow> (j, False) \<in> set (outputs p i)" for j
    using qm_invD(1) [OF inv] i by (auto simp: qm_shape_def)
  show ?thesis by (rule that [OF i m']) (use erase_fold [OF b] erase_fold [OF n] sh(11,12) sets in auto)
qed

text \<open>When an operator may be marked as finished.\<close>

definition can_finish :: "plan \<Rightarrow> 'o QueryManager \<Rightarrow> nat \<Rightarrow> bool" where
  "can_finish p m i \<longleftrightarrow> i < length p \<and> idle m i \<and> \<not> finished m i \<and> (inputs p i \<noteq> [] \<longrightarrow> generated m i)
     \<and> blocking_dependencies m ! i = {}"

lemma finish_spec:
  assumes inv: "qm_inv p m" and f: "finish_operator I m i = Inr m'" and can: "can_finish p m i"
  shows "qm_inv p m' \<and> (\<forall>j < length p. finished m' j = (finished m j \<or> j = i)) \<and> queued m' = queued m
    \<and> (\<forall>j. normal_pending m' j = normal_pending m j) \<and> initiated m' = initiated m
    \<and> (\<forall>j. rebuilding m' j = rebuilding m j)"
proof -
  note sh = qm_shapeD [OF qm_invD(1) [OF inv]] and i = can [unfolded can_finish_def]
  obtain op bs ns where i': "i < length p" and m': "m' = set_payload (m\<lparr>query_exec_state := (query_exec_state m)\<lparr>execution_finished := (execution_finished (query_exec_state m))[i := True],
        num_operators_finished := num_operators_finished (query_exec_state m) + 1\<rparr>,
        blocking_dependencies := bs, non_blocking_dependencies := ns\<rparr>) i op"
    and len: "length bs = length p" "length ns = length p"
    and bs: "\<And>j. j < length p \<Longrightarrow> bs ! j = (if (j, True) \<in> set (outputs p i) then blocking_dependencies m ! j - {i} else blocking_dependencies m ! j)"
    and ns: "\<And>j. j < length p \<Longrightarrow> ns ! j = (if (j, False) \<in> set (outputs p i) then non_blocking_dependencies m ! j - {i} else non_blocking_dependencies m ! j)"
    by (rule finish_cases [OF inv f], rule that)
  have fin: "finished m' j = (finished m j \<or> j = i)" if "j < length p" for j
    using that sh(7) i' by (auto simp: m' nth_list_update)
  have v: "queued m' = queued m" "generated m' = generated m" "initiated m' = initiated m" "outstanding m' = outstanding m"
    "normal_pending m' j = normal_pending m j" "rebuild_pending m' j = rebuild_pending m j"
    "blocking_dependencies m' = bs" "non_blocking_dependencies m' = ns"
    "num_operators_finished (query_exec_state m') = num_operators_finished (query_exec_state m) + 1" for j
    by (auto simp: m' initiated_def outstanding_def fun_eq_iff)
  have deps: "blocking_dependencies m ! j = open_inputs p m True j" "non_blocking_dependencies m ! j = open_inputs p m False j"
    if "j < length p" for j using qm_invD(2) [OF inv] that by (auto simp: qm_deps_def)
  have op': "open_inputs p m' b j = open_inputs p m b j - {i}" for b j by (auto simp: open_inputs_def fin)
  have open_: "bs ! j = open_inputs p m' True j" "ns ! j = open_inputs p m' False j" if "j < length p" for j
    unfolding op' bs [OF that] ns [OF that] deps [OF that] by (auto simp: open_inputs_def)
  have "{j. j < length p \<and> finished m' j} = insert i {j. j < length p \<and> finished m j}" using fin i' by auto
  moreover have "i \<notin> {j. j < length p \<and> finished m j}" using i by simp
  ultimately have "card {j. j < length p \<and> finished m' j} = card {j. j < length p \<and> finished m j} + 1" by simp
  then have "qm_deps p m'" using qm_invD(2) [OF inv] open_ by (simp add: qm_deps_def v)
  moreover have "qm_shape p m'" using qm_invD(1) [OF inv] len by (auto simp: qm_shape_def m' state_wf_def)
  moreover have "operator_ok p m' j" if j: "j < length p" for j
  proof -
    have "idle m' j = idle m j" "normal_over m' j = normal_over m j" by (simp_all add: idle_def normal_over_def v)
    moreover have "bs ! j = {}" if "blocking_dependencies m ! j = {}" using bs [OF j] that by simp
    ultimately show ?thesis using qm_invD(3) [OF inv j] i fin [OF j]
      by (cases "j = i") (simp_all add: operator_ok_def v idle_def)
  qed
  ultimately show ?thesis using fin v by (simp add: qm_inv_def rebuilding_def)
qed

text \<open>What happens to the other operators while an operator is marked as finished: nobody is taken back,
  nothing is handed out, and operators without dependencies are not touched.\<close>

definition evolves :: "plan \<Rightarrow> 'o QueryManager \<Rightarrow> 'o QueryManager \<Rightarrow> bool" where
  "evolves p m m' \<longleftrightarrow> (\<forall>j < length p. (finished m j \<longrightarrow> finished m' j) \<and> queued m' j = queued m j
     \<and> rebuilding m' j = rebuilding m j
     \<and> (inputs p j = [] \<longrightarrow> finished m' j = finished m j \<and> normal_pending m' j = normal_pending m j
          \<and> initiated m' j = initiated m j))"

lemma evolves_refl [simp]: "evolves p m m"
  by (simp add: evolves_def)

lemma evolves_trans: "evolves p m m1 \<Longrightarrow> evolves p m1 m2 \<Longrightarrow> evolves p m m2"
  by (simp add: evolves_def)

lemma finish_evolves:
  "qm_inv p m \<Longrightarrow> finish_operator I m i = Inr m' \<Longrightarrow> can_finish p m i \<Longrightarrow> inputs p i \<noteq> [] \<Longrightarrow> evolves p m m'"
  using finish_spec [of p m I i m'] by (auto simp: evolves_def)

lemma payload_inv: "qm_inv p (set_payload m i op) \<longleftrightarrow> qm_inv p m"
  by (simp add: qm_inv_def qm_shape_def qm_deps_def open_inputs_def operator_ok_def idle_def normal_over_def
      initiated_def outstanding_def)

lemma payload_evolves: "evolves p m (set_payload m i op)"
  by (simp add: evolves_def initiated_def rebuilding_def outstanding_def)

lemma not_required_idle:
  assumes inv: "qm_inv p m" and "isRebuildRequired (query_exec_state m) i = Inr False" and "normal_over m i"
  shows "idle m i"
proof -
  have i: "i < length p" "\<not> rebuild_required (query_exec_state m) ! i"
    using assms(2) qm_shapeD(4) [OF qm_invD(1) [OF inv]] by (auto simp: query_state_defs res_simps)
  then have "rebuild_status (query_exec_state m) i = None" using qm_shapeD(15) [OF qm_invD(1) [OF inv]] by blast
  then have "\<not> initiated m i" "outstanding m i = 0" by (simp_all add: initiated_def outstanding_def)
  then show ?thesis using qm_invD(3) [OF inv i(1)] assms(3) by (auto simp: operator_ok_def idle_def)
qed

lemma rebuild_evolves: "same_but_rebuild m m' i \<Longrightarrow> \<forall>j. rebuilding m' j = rebuilding m j \<Longrightarrow> inputs p i \<noteq> [] \<Longrightarrow> evolves p m m'"
  by (auto simp: same_but_rebuild_def evolves_def)

lemma rebuild_can_finish:
  assumes inv: "qm_inv p m" and f: "initiateRebuild I m i = Inr (completed, m')" and i: "i < length p"
    and over: "normal_over m i" "inputs p i \<noteq> [] \<Longrightarrow> generated m i" and met: "blocking_dependencies m ! i = {}"
    and new: "\<not> finished m i"
  shows "qm_inv p m' \<and> same_but_rebuild m m' i \<and> (\<forall>j. rebuilding m' j = rebuilding m j) \<and> (completed \<longrightarrow> can_finish p m' i)"
proof -
  note R = rebuild_spec [OF inv f over met new]
  then have "same_but_rebuild m m' i" "completed \<Longrightarrow> rebuild_pending m' i = {#} \<and> outstanding m' i = 0" by simp_all
  then have "completed \<longrightarrow> can_finish p m' i" using i over met new
    by (auto simp: same_but_rebuild_def can_finish_def idle_def normal_over_def)
  with R show ?thesis by simp
qed

lemma dependent_over_spec:
  assumes inv: "qm_inv p m" and d: "inputs p d \<noteq> []" and f: "dependent_over I m d = Inr (over, m')"
  shows "qm_inv p m' \<and> evolves p m m' \<and> (over \<longrightarrow> can_finish p m' d)"
proof -
  obtain fetched m1 where fe: "fetchNormalWorkOrders I m d = Inr (fetched, m1)"
    using f by (auto simp: dependent_over_def res_simps)
  have "may_generate p m d" using d by (simp add: may_generate_def)
  note F = fetch_spec [OF inv fe this]
  have ev: "evolves p m m1" using F d by (auto simp: evolves_def rebuilding_def)
  have inv1: "qm_inv p m1" using F by simp
  show ?thesis
  proof (cases "over \<or> m' \<noteq> m1")
    case False
    then show ?thesis using ev inv1 by simp
  next
    case True
    obtain b where o: "\<not> fetched" "checkNormalExecutionOver m1 d = Inr True"
      "isRebuildRequired (query_exec_state m1) d = Inr b" "if b then initiateRebuild I m1 d = Inr (over, m') else m' = m1"
      using f True by (auto simp: dependent_over_def fe res_simps split: if_splits)
    note n = over_eq [OF o(2) TrueI]
    have pre: "d < length p" "\<not> finished m1 d" "blocking_dependencies m1 ! d = {}" using F by simp_all
    show ?thesis
    proof (cases b)
      case True
      then have r: "initiateRebuild I m1 d = Inr (over, m')" using o(4) by simp
      have "qm_inv p m' \<and> same_but_rebuild m1 m' d \<and> (\<forall>j. rebuilding m' j = rebuilding m1 j) \<and> (over \<longrightarrow> can_finish p m' d)"
        by (rule rebuild_can_finish [OF inv1 r pre(1)]) (use n pre in simp_all)
      then show ?thesis using evolves_trans [OF ev] rebuild_evolves d by blast
    next
      case False
      then have "idle m1 d" using not_required_idle [OF inv1] o(3) n by simp
      then show ?thesis using False o(4) inv1 ev pre n by (simp add: can_finish_def)
    qed
  qed
qed

lemma mark_process_spec:
  "qm_inv p m \<Longrightarrow> can_finish p m i \<Longrightarrow> markOperatorFinished fuel I m i = Inr m' \<Longrightarrow>
     qm_inv p m' \<and> (\<exists>m1. finish_operator I m i = Inr m1 \<and> evolves p m1 m')"
  "qm_inv p m \<Longrightarrow> (\<And>d. d \<in> set ds \<Longrightarrow> inputs p d \<noteq> []) \<Longrightarrow> process_dependents fuel I rel m ds = Inr m' \<Longrightarrow>
     qm_inv p m' \<and> evolves p m m'"
proof (induction fuel I m i and fuel I rel m ds arbitrary: m' and m' rule: markOperatorFinished_process_dependents.induct)
  case (1 I m i)
  then show ?case by simp
next
  case (2 fuel I m i)
  from "2.prems"(3) obtain m1 op l where f: "finish_operator I m i = Inr m1"
    "getNodePayloadMutable m1 i = Inr op" "getDependents (query_dag m1) i = Inr l"
    "process_dependents fuel I (getOutputRelationID I op) m1 (map fst l) = Inr m'" by (auto simp: res_simps)
  have inv1: "qm_inv p m1" using finish_spec [OF "2.prems"(1) f(1) "2.prems"(2)] by simp
  note l = getDependents_outputs [OF qm_invD(1) [OF inv1] f(3)]
  have "inputs p d \<noteq> []" if "d \<in> set (map fst l)" for d
    using that l plan_wfD [OF qm_shapeD(1) [OF qm_invD(1) [OF inv1]]] by force
  from "2.IH" [OF f(1-3) inv1 this f(4)] f(1) show ?case by blast
next
  case (3 fuel I rel m)
  then show ?case by simp
next
  case (4 fuel I rel m d ds)
  from "4.prems"(3) obtain m1 met m3 where f: "done_feeding I rel m d = Inr m1" "checkAllBlockingDependenciesMet m1 d = Inr met"
    "(if met then and_then (dependent_over I m1 d) (\<lambda>(over, m2). if over then markOperatorFinished fuel I m2 d else Inr m2)
      else Inr m1) = Inr m3" "process_dependents fuel I rel m3 ds = Inr m'" by (auto simp: res_simps)
  have m1: "qm_inv p m1" "evolves p m m1"
    using f(1) "4.prems"(1) by (auto simp: done_feeding_def payload_inv payload_evolves res_simps split: if_splits)
  have d: "inputs p d \<noteq> []" using "4.prems"(2) by simp
  have m3: "qm_inv p m3 \<and> evolves p m1 m3"
  proof (cases met)
    case True
    then obtain over m2 where o: "dependent_over I m1 d = Inr (over, m2)"
      "(if over then markOperatorFinished fuel I m2 d else Inr m2) = Inr m3" using f(3) by (auto simp: res_simps)
    note O = dependent_over_spec [OF m1(1) d o(1)]
    show ?thesis
    proof (cases over)
      case over: True
      then have c: "qm_inv p m2" "can_finish p m2 d" "markOperatorFinished fuel I m2 d = Inr m3" using O o(2) by simp_all
      obtain m4 where m4: "qm_inv p m3" "finish_operator I m2 d = Inr m4" "evolves p m4 m3"
        using "4.IH"(1) [OF f(1,2) True o(1) refl over c] by blast
      have "evolves p m2 m4" by (rule finish_evolves [OF c(1) m4(2) c(2) d])
      then show ?thesis using m4 O evolves_trans by blast
    qed (use O o(2) in simp)
  qed (use f(3) m1 in simp)
  have "inputs p d' \<noteq> []" if "d' \<in> set ds" for d' using "4.prems"(2) that by simp
  from "4.IH"(2) [OF f(1,2,3) _ this f(4)] m3 show ?case using m1(2) evolves_trans by blast
qed

text \<open>The work orders in execution, as the manager counts them, are not touched.\<close>

definition same_executing :: "plan \<Rightarrow> 'o QueryManager \<Rightarrow> 'o QueryManager \<Rightarrow> bool" where
  "same_executing p m m' \<longleftrightarrow> (\<forall>j < length p. queued m' j = queued m j \<and> rebuilding m' j = rebuilding m j)"

lemma same_executing_refl [simp]: "same_executing p m m"
  by (simp add: same_executing_def)

lemma same_executing_trans: "same_executing p m m1 \<Longrightarrow> same_executing p m1 m2 \<Longrightarrow> same_executing p m m2"
  by (simp add: same_executing_def)

lemma same_executing_payload [simp]: "same_executing p m (set_payload m i op)"
  by (simp add: same_executing_def rebuilding_def outstanding_def)

lemma same_executing_rebuild:
  "same_but_rebuild m m' i \<Longrightarrow> \<forall>j. rebuilding m' j = rebuilding m j \<Longrightarrow> same_executing p m m'"
  by (simp add: same_executing_def same_but_rebuild_def)

lemma mark_finished_spec:
  assumes inv: "qm_inv p m" and can: "can_finish p m i" and f: "mark_finished I m i = Inr m'"
  shows "qm_inv p m' \<and> same_executing p m m'"
proof -
  obtain m1 where m1: "qm_inv p m'" "finish_operator I m i = Inr m1" "evolves p m1 m'"
    using mark_process_spec(1) [OF inv can] f unfolding mark_finished_def by blast
  have "same_executing p m m1" using finish_spec [OF inv m1(2) can] by (simp add: same_executing_def)
  moreover have "same_executing p m1 m'" using m1(3) by (simp add: same_executing_def evolves_def)
  ultimately show ?thesis using m1(1) same_executing_trans by blast
qed

section \<open>Messages\<close>

text \<open>A change of the bookkeeping of one operator that keeps this operator in order keeps the invariant.\<close>

lemma one_operator_inv:
  assumes inv: "qm_inv p m" and sh: "qm_shape p m'" and ok: "operator_ok p m' i"
    and same: "finished m' = finished m" "generated m' = generated m" "blocking_dependencies m' = blocking_dependencies m"
      "non_blocking_dependencies m' = non_blocking_dependencies m"
      "num_operators_finished (query_exec_state m') = num_operators_finished (query_exec_state m)"
    and other: "\<And>j. j \<noteq> i \<Longrightarrow> queued m' j = queued m j \<and> normal_pending m' j = normal_pending m j
      \<and> rebuild_pending m' j = rebuild_pending m j \<and> initiated m' j = initiated m j \<and> outstanding m' j = outstanding m j"
  shows "qm_inv p m'"
proof -
  have "operator_ok p m' j" if "j < length p" for j
  proof (cases "j = i")
    case False
    then show ?thesis using qm_invD(3) [OF inv that] other [OF False] same by (simp add: operator_ok_def idle_def normal_over_def)
  qed (use ok in simp)
  moreover have "qm_deps p m'" using qm_invD(2) [OF inv] same by (simp add: qm_deps_def open_inputs_def)
  ultimately show ?thesis using sh by (simp add: qm_inv_def)
qed

lemma next_message_spec:
  assumes inv: "qm_inv p m" and f: "getNextWorkerMessage m = Inr (r, m')"
  shows "qm_inv p m' \<and> (case r of
      None \<Rightarrow> m' = m \<and> (\<forall>i < length p. normal_pending m i = {#} \<and> rebuild_pending m i = {#})
    | Some (WorkOrderMessage w i) \<Rightarrow> i < length p \<and> normal_pending m i = add_mset w (normal_pending m' i)
        \<and> (\<forall>j < length p. queued m' j = queued m j + (if j = i then 1 else 0) \<and> rebuilding m' j = rebuilding m j)
    | Some (RebuildWorkOrderMessage w i) \<Rightarrow> i < length p \<and> rebuild_pending m i = add_mset w (rebuild_pending m' i)
        \<and> (\<forall>j < length p. queued m' j = queued m j \<and> rebuilding m' j = rebuilding m j + (if j = i then 1 else 0)))"
proof -
  note sh = qm_shapeD [OF qm_invD(1) [OF inv]]
  obtain r1 c where g: "getNextWorkOrder (workorders_container m) = Inr (r1, c)" "container_inv c"
    and spec: "case r1 of
       None \<Rightarrow> c = workorders_container m \<and> (\<forall>i < length p. normal_pending m i = {#} \<and> rebuild_pending m i = {#})
     | Some (w, i, is_rebuild) \<Rightarrow> \<exists>wo oc. w = Some wo \<and> i < length p
        \<and> (if is_rebuild
           then rebuild_workorders c = (rebuild_workorders (workorders_container m))[i := oc]
             \<and> normal_workorders c = normal_workorders (workorders_container m) \<and> rebuild_pending m i = add_mset wo (op_orders oc)
           else normal_workorders c = (normal_workorders (workorders_container m))[i := oc]
             \<and> rebuild_workorders c = rebuild_workorders (workorders_container m) \<and> normal_pending m i = add_mset wo (op_orders oc))"
    using getNextWorkOrder_spec [OF sh(8)] sh(9) by (fastforce split: option.splits if_splits)
  show ?thesis
  proof (cases r1)
    case None
    then show ?thesis using f g spec inv by (auto simp: getNextWorkerMessage_def Let_def)
  next
    case (Some x)
    obtain w0 i b where "x = (w0, i, b)" using prod_cases3 by blast
    then obtain w oc where x: "x = (Some w, i, b)" "i < length p" and c: "if b
           then rebuild_workorders c = (rebuild_workorders (workorders_container m))[i := oc]
             \<and> normal_workorders c = normal_workorders (workorders_container m) \<and> rebuild_pending m i = add_mset w (op_orders oc)
           else normal_workorders c = (normal_workorders (workorders_container m))[i := oc]
             \<and> rebuild_workorders c = rebuild_workorders (workorders_container m) \<and> normal_pending m i = add_mset w (op_orders oc)"
      using spec Some by auto
    note ok = qm_invD(3) [OF inv x(2)]
    show ?thesis
    proof (cases b)
      case True
      have m': "m' = m\<lparr>workorders_container := c\<rparr>" "r = Some (RebuildWorkOrderMessage w i)"
        using f g Some x True by (auto simp: getNextWorkerMessage_def Let_def)
      have "qm_inv p m'"
      proof (rule one_operator_inv [OF inv, of m' i])
        show "qm_shape p m'" using qm_invD(1) [OF inv] g(2) c True by (simp add: qm_shape_def m')
        have "\<not> finished m i" "initiated m i" using ok c True by (auto simp: operator_ok_def idle_def)
        then show "operator_ok p m' i" using ok c True
          by (simp add: operator_ok_def normal_over_def idle_def m' initiated_def outstanding_def)
      qed (use c True in \<open>auto simp: m' initiated_def outstanding_def\<close>)
      moreover have "rebuilding m' j = rebuilding m j + (if j = i then 1 else 0)" if "j < length p" for j
        using c True x(2) sh(10) that by (auto simp: m' rebuilding_def outstanding_def nth_list_update)
      ultimately show ?thesis using m' c True x(2) sh(10) by simp
    next
      case False
      have m': "m' = m\<lparr>workorders_container := c, query_exec_state := (query_exec_state m)\<lparr>queued_workorders_per_op :=
          (queued_workorders_per_op (query_exec_state m))[i := queued m i + 1]\<rparr>\<rparr>" "r = Some (WorkOrderMessage w i)"
        using f g Some x False by (auto simp: getNextWorkerMessage_def Let_def query_state_defs res_simps)
      have "qm_inv p m'"
      proof (rule one_operator_inv [OF inv, of m' i])
        show "qm_shape p m'" using qm_invD(1) [OF inv] g(2) c False by (simp add: qm_shape_def m' state_wf_def)
        have "\<not> finished m i" "\<not> initiated m i" "blocking_dependencies m ! i = {}" "rebuild_pending m i = {#}" "outstanding m i = 0"
          using ok c False by (auto simp: operator_ok_def idle_def normal_over_def)
        then show "operator_ok p m' i" using c False
          by (simp add: operator_ok_def m' initiated_def outstanding_def)
      qed (use c False in \<open>auto simp: m' initiated_def outstanding_def\<close>)
      moreover have "queued m' j = queued m j + (if j = i then 1 else 0)" "rebuilding m' j = rebuilding m j" if "j < length p" for j
        using c False x(2) sh(4) that by (auto simp: m' rebuilding_def outstanding_def nth_list_update)
      ultimately show ?thesis using m' c False x(2) sh(9) by simp
    qed
  qed
qed

lemma completion_cases:
  assumes "and_then a (\<lambda>over. if \<not> over then Inr m1
      else and_then b (\<lambda>required. if required then
          and_then c (\<lambda>initiated. and_then (check e (\<not> initiated)) (\<lambda>_.
          and_then d (\<lambda>(completed, m2). if \<not> completed then Inr m2 else f m2)))
        else g)) = Inr m'"
  shows "m' = m1 \<or> a = Inr True \<and> (b = Inr True \<and> (\<exists>completed m2. d = Inr (completed, m2)
      \<and> (if \<not> completed then Inr m2 else f m2) = Inr m') \<or> b = Inr False \<and> g = Inr m')"
  using assms by (cases a; cases b; cases c; cases d) (auto simp: res_simps split: if_splits)

lemma complete_spec:
  assumes inv: "qm_inv p m" and f: "processWorkOrderCompleteMessage I m i = Inr m'"
  shows "qm_inv p m' \<and> i < length p \<and> 0 < queued m i
    \<and> (\<forall>j < length p. queued m' j = queued m j - (if j = i then 1 else 0) \<and> rebuilding m' j = rebuilding m j)"
proof -
  note sh = qm_shapeD [OF qm_invD(1) [OF inv]]
  let ?m = "m\<lparr>query_exec_state := (query_exec_state m)\<lparr>queued_workorders_per_op :=
      (queued_workorders_per_op (query_exec_state m))[i := queued m i - 1]\<rparr>\<rparr>"
  have i: "i < length p" "0 < queued m i" using f sh(4)
    by (auto simp: processWorkOrderCompleteMessage_def query_state_defs Let_def res_simps)
  note ok = qm_invD(3) [OF inv i(1)]
  have pre: "\<not> finished m i" "\<not> initiated m i" "blocking_dependencies m ! i = {}" "rebuild_pending m i = {#}" "outstanding m i = 0"
    using ok i(2) by (auto simp: operator_ok_def idle_def normal_over_def)
  have inv1: "qm_inv p ?m"
  proof (rule one_operator_inv [OF inv, of ?m i])
    show "qm_shape p ?m" using qm_invD(1) [OF inv] by (simp add: qm_shape_def state_wf_def)
    show "operator_ok p ?m i" using pre by (simp add: operator_ok_def initiated_def outstanding_def)
  qed (auto simp: initiated_def outstanding_def)
  have dec: "decrementNumQueuedWorkOrders (query_exec_state m) i = Inr ((query_exec_state m)\<lparr>queued_workorders_per_op :=
      (queued_workorders_per_op (query_exec_state m))[i := queued m i - 1]\<rparr>)"
    using i sh(4) by (simp add: decrementNumQueuedWorkOrders_def check_operator_def)
  have run: "and_then (checkNormalExecutionOver ?m i) (\<lambda>over.
          if \<not> over then Inr ?m
          else and_then (isRebuildRequired (query_exec_state ?m) i) (\<lambda>required.
            if required then
              and_then (hasRebuildInitiated (query_exec_state ?m) i) (\<lambda>initiated.
              and_then (check CheckFailed (\<not> initiated)) (\<lambda>_.
              and_then (initiateRebuild I ?m i) (\<lambda>(completed, m2).
                if \<not> completed then Inr m2 else mark_finished I m2 i)))
            else mark_finished I ?m i)) = Inr m'"
    using f unfolding processWorkOrderCompleteMessage_def dec and_then.simps Let_def .
  consider "m' = ?m"
    | (rebuild) completed m2 where "checkNormalExecutionOver ?m i = Inr True" "initiateRebuild I ?m i = Inr (completed, m2)"
        "(if \<not> completed then Inr m2 else mark_finished I m2 i) = Inr m'"
    | (finish) "checkNormalExecutionOver ?m i = Inr True" "isRebuildRequired (query_exec_state ?m) i = Inr False"
        "mark_finished I ?m i = Inr m'"
    using completion_cases [OF run] by blast
  then have "qm_inv p m' \<and> same_executing p ?m m'"
  proof cases
    case rebuild
    note n = over_eq [OF rebuild(1) TrueI]
    have "qm_inv p m2 \<and> same_but_rebuild ?m m2 i \<and> (\<forall>j. rebuilding m2 j = rebuilding ?m j) \<and> (completed \<longrightarrow> can_finish p m2 i)"
      by (rule rebuild_can_finish [OF inv1 rebuild(2) i(1)]) (use n pre in simp_all)
    then show ?thesis using rebuild(3) mark_finished_spec [of p m2 i I m'] same_executing_rebuild [of ?m m2 i p]
        same_executing_trans [of p ?m m2 m'] by (cases completed) auto
  next
    case finish
    note n = over_eq [OF finish(1) TrueI]
    then have "idle ?m i" using not_required_idle [OF inv1 finish(2)] by simp
    then have "can_finish p ?m i" using i(1) n pre by (simp add: can_finish_def)
    then show ?thesis using mark_finished_spec [OF inv1 _ finish(3)] by simp
  qed (use inv1 in simp)
  moreover have "queued ?m j = queued m j - (if j = i then 1 else 0)" "rebuilding ?m j = rebuilding m j" if "j < length p" for j
    using that i(1) sh(4) by (auto simp: nth_list_update rebuilding_def outstanding_def)
  ultimately show ?thesis using i by (simp add: same_executing_def)
qed

lemma rebuild_complete_spec:
  assumes inv: "qm_inv p m" and f: "processRebuildWorkOrderCompleteMessage I m i = Inr m'"
  shows "qm_inv p m' \<and> i < length p
    \<and> (\<forall>j < length p. queued m' j = queued m j \<and> rebuilding m' j = rebuilding m j - (if j = i then 1 else 0))"
proof -
  note sh = qm_shapeD [OF qm_invD(1) [OF inv]]
  obtain r where i: "i < length p" "rebuild_status (query_exec_state m) i = Some r" "has_initiated r" "1 \<le> num_pending_workorders r"
    using f sh(4) by (auto simp: processRebuildWorkOrderCompleteMessage_def query_state_defs Let_def res_simps split: option.splits)
  let ?m = "m\<lparr>query_exec_state := (query_exec_state m)\<lparr>rebuild_status := (rebuild_status (query_exec_state m))
      (i \<mapsto> r\<lparr>num_pending_workorders := num_pending_workorders r - 1\<rparr>)\<rparr>\<rparr>"
  note ok = qm_invD(3) [OF inv i(1)]
  have pre: "initiated m i" "outstanding m i \<noteq> 0" using i by (simp_all add: initiated_def outstanding_def)
  then have pre': "\<not> finished m i" "blocking_dependencies m ! i = {}" "normal_over m i" "inputs p i \<noteq> [] \<longrightarrow> generated m i"
    using ok by (auto simp: operator_ok_def idle_def)
  have inv1: "qm_inv p ?m"
  proof (rule one_operator_inv [OF inv, of ?m i])
    show "qm_shape p ?m" using qm_invD(1) [OF inv] i(2) by (auto simp: qm_shape_def state_wf_def)
    show "operator_ok p ?m i" using pre pre' i(3) by (simp add: operator_ok_def initiated_def normal_over_def)
  qed (auto simp: initiated_def outstanding_def)
  have dec: "decrementNumRebuildWorkOrders (query_exec_state m) i = Inr ((query_exec_state m)\<lparr>rebuild_status :=
      (rebuild_status (query_exec_state m))(i \<mapsto> r\<lparr>num_pending_workorders := num_pending_workorders r - 1\<rparr>)\<rparr>)"
    using i sh(4) by (simp add: decrementNumRebuildWorkOrders_def find_rebuild_status_def check_operator_def)
  have run: "and_then (checkRebuildOver ?m i) (\<lambda>over. if \<not> over then Inr ?m else mark_finished I ?m i) = Inr m'"
    using f unfolding processRebuildWorkOrderCompleteMessage_def dec and_then.simps Let_def .
  have "qm_inv p m' \<and> same_executing p ?m m'"
  proof (cases "m' = ?m")
    case False
    then have o: "checkRebuildOver ?m i = Inr True" "mark_finished I ?m i = Inr m'"
      using run by (auto simp: res_simps split: if_splits)
    note n = rebuild_over_eq [OF o(1) TrueI]
    have "can_finish p ?m i" using i(1) n pre' by (simp add: can_finish_def idle_def normal_over_def)
    then show ?thesis using mark_finished_spec [OF inv1] o(2) by simp
  qed (use inv1 in simp)
  moreover have "queued ?m j = queued m j" "rebuilding ?m j = rebuilding m j - (if j = i then 1 else 0)" for j
    using i by (auto simp: rebuilding_def outstanding_def)
  ultimately show ?thesis using i(1) by (simp add: same_executing_def)
qed

lemma fetch_inv: "qm_inv p m \<Longrightarrow> may_generate p m i \<Longrightarrow> fetchNormalWorkOrders I m i = Inr (b, m') \<Longrightarrow>
    qm_inv p m' \<and> same_executing p m m'"
  using fetch_spec [of p m I i b m'] by (simp add: same_executing_def rebuilding_def)

lemma payload_may_generate: "may_generate p (set_payload m i op) j = may_generate p m j"
  by (simp add: may_generate_def initiated_def)

lemma fetch_payload_inv:
  "qm_inv p m \<Longrightarrow> may_generate p m i \<Longrightarrow> fetchNormalWorkOrders I (set_payload m j op) i = Inr (b, m') \<Longrightarrow>
    qm_inv p m' \<and> same_executing p m m'"
  using fetch_inv [of p "set_payload m j op"] same_executing_trans [OF same_executing_payload]
  by (metis payload_inv payload_may_generate)

lemma feedback_inv:
  assumes inv: "qm_inv p m" and f: "processFeedbackMessage I m i msg = Inr m'" and q: "i < length p" "0 < queued m i"
  shows "qm_inv p m' \<and> same_executing p m m'"
proof -
  have "may_generate p m i" using qm_invD(3) [OF inv q(1)] q(2) by (auto simp: may_generate_def operator_ok_def normal_over_def)
  then show ?thesis
    using f inv by (auto simp: processFeedbackMessage_def Let_def res_simps payload_inv
        dest: fetch_payload_inv split: if_splits)
qed

lemma data_pipeline_inv:
  assumes inv: "qm_inv p m" and f: "processDataPipelineMessage I m i block rel part = Inr m'"
  shows "qm_inv p m' \<and> same_executing p m m'"
proof -
  note sh = qm_shapeD [OF qm_invD(1) [OF inv]]
  have i: "i < length p" "fold_res (feed_consumer I block rel part) m (output_consumers m ! i) = Inr m'"
    using f sh(13) by (auto simp: processDataPipelineMessage_def res_simps)
  have step_ok: "qm_inv p m2 \<and> same_executing p m m2" if c: "c \<in> set (output_consumers m ! i)" and m1: "qm_inv p m1 \<and> same_executing p m m1"
    and step: "feed_consumer I block rel part m1 c = Inr m2" for c m1 m2
  proof -
    have "inputs p c \<noteq> []" using dependents_inputs [OF qm_invD(1) [OF inv] i(1)] c by blast
    then have "may_generate p m1 c" by (simp add: may_generate_def)
    then have "qm_inv p m2 \<and> same_executing p m1 m2" using step m1
      by (auto simp: feed_consumer_def Let_def res_simps payload_inv dest: fetch_payload_inv split: if_splits)
    then show ?thesis using m1 same_executing_trans by blast
  qed
  have "qm_inv p m \<and> same_executing p m m" using inv by simp
  from fold_res_invariant [where P = "\<lambda>m1. qm_inv p m1 \<and> same_executing p m m1", OF step_ok this i(2)] show ?thesis .
qed

end
