(* ===== verification/QueryRuns.thy ===== *)
theory QueryRuns
  imports QueryExecutions
begin

text \<open>
  Runs of the manager of a query: its constructor establishes the invariant, every message keeps it, and
  the recursion that marks operators as finished ends.  The theorems state what this means for the
  execution of a plan.
\<close>

section \<open>Construction\<close>

text \<open>The loop over the outgoing links of one operator.\<close>

definition links_added :: "'o QueryManager \<Rightarrow> 'o QueryManager \<Rightarrow> nat \<Rightarrow> (nat \<times> bool) set \<Rightarrow> bool" where
  "links_added m m' j L \<longleftrightarrow> query_dag m' = query_dag m \<and> non_dependent_operators m' = non_dependent_operators m
     \<and> query_exec_state m' = query_exec_state m \<and> workorders_container m' = workorders_container m
     \<and> length (blocking_dependencies m') = length (blocking_dependencies m)
     \<and> length (non_blocking_dependencies m') = length (non_blocking_dependencies m)
     \<and> length (blocking_dependents m') = length (blocking_dependents m)
     \<and> length (output_consumers m') = length (output_consumers m)
     \<and> (\<forall>i < length (blocking_dependencies m). blocking_dependencies m' ! i
          = blocking_dependencies m ! i \<union> {k. k = j \<and> (i, True) \<in> L})
     \<and> (\<forall>i < length (non_blocking_dependencies m). non_blocking_dependencies m' ! i
          = non_blocking_dependencies m ! i \<union> {k. k = j \<and> (i, False) \<in> L})
     \<and> (\<forall>i < length (blocking_dependents m). set (blocking_dependents m' ! i)
          = set (blocking_dependents m ! i) \<union> {k. i = j \<and> (k, True) \<in> L})
     \<and> (\<forall>i < length (output_consumers m). set (output_consumers m' ! i)
          = set (output_consumers m ! i) \<union> {k. i = j \<and> (k, False) \<in> L})"

lemma links_added_none: "links_added m m j {}"
  by (simp add: links_added_def)

lemma links_added_step:
  assumes "add_dependent_link j m d = Inr m1" and "getLinkMetadata (query_dag m) j d = Inr b"
  shows "links_added m m1 j {(d, b)}"
  using assms by (cases b) (auto simp: add_dependent_link_def res_simps links_added_def nth_list_update split: if_splits)

lemma links_added_trans:
  assumes "links_added m m1 j L" and "links_added m1 m2 j L'"
  shows "links_added m m2 j (L \<union> L')"
  using assms unfolding links_added_def by (auto simp: Un_assoc)

lemma add_links:
  assumes "fold_res (add_dependent_link j) m (map fst ls) = Inr m'"
    and "\<And>d b. (d, b) \<in> set ls \<Longrightarrow> getLinkMetadata (query_dag m) j d = Inr b"
  shows "links_added m m' j (set ls)"
  using assms
proof (induction ls arbitrary: m)
  case Nil
  then show ?case by (simp add: links_added_none)
next
  case (Cons l ls)
  obtain d b where l: "l = (d, b)" by (cases l)
  from Cons.prems(1) obtain m1 where m1: "add_dependent_link j m d = Inr m1"
    "fold_res (add_dependent_link j) m1 (map fst ls) = Inr m'" by (auto simp: l res_simps)
  have step: "links_added m m1 j {(d, b)}" using links_added_step [OF m1(1)] Cons.prems(2) l by simp
  then have "query_dag m1 = query_dag m" by (simp add: links_added_def)
  then have "links_added m1 m' j (set ls)" using Cons.IH [OF m1(2)] Cons.prems(2) by simp
  then show ?case using links_added_trans [OF step] l by simp
qed

text \<open>Nothing has happened yet.\<close>

definition fresh_state :: "nat \<Rightarrow> QueryExecutionState \<Rightarrow> bool" where
  "fresh_state n st \<longleftrightarrow> state_wf st \<and> num_operators st = n \<and> num_operators_finished st = 0
     \<and> (\<forall>i < n. \<not> execution_finished st ! i \<and> \<not> done_gen st ! i \<and> queued_workorders_per_op st ! i = 0)
     \<and> (\<forall>i r. rebuild_status st i = Some r \<longrightarrow> \<not> has_initiated r \<and> num_pending_workorders r = 0)"

lemma fresh_state_new: "fresh_state n (new_execution_state n)"
  using state_wf_new by (simp add: fresh_state_def) (simp add: new_execution_state_def)

lemma fresh_state_required:
  assumes "fresh_state n st" and "setRebuildRequired st i = Inr st'"
  shows "fresh_state n st'"
  using assms state_wf_setRebuildRequired [OF _ assms(2)] unfolding fresh_state_def
  by (auto simp: setRebuildRequired_def res_simps split: if_splits)

definition fresh_container :: "nat \<Rightarrow> WorkOrdersContainer \<Rightarrow> bool" where
  "fresh_container n c \<longleftrightarrow> container_inv c \<and> length (normal_workorders c) = n
     \<and> (\<forall>i < n. op_orders (normal_workorders c ! i) = {#} \<and> op_orders (rebuild_workorders c ! i) = {#})"

lemma fresh_container_new: "new_container n k = Inr c \<Longrightarrow> fresh_container n c"
  using new_container_inv [of n k c] by (auto simp: fresh_container_def new_container_def res_simps)

text \<open>The state after the first \<open>k\<close> operators.\<close>

definition built :: "('o, bool) DAG \<Rightarrow> nat \<Rightarrow> 'o QueryManager \<Rightarrow> bool" where
  "built g k m \<longleftrightarrow> (let p = plan_of g; n = length p in
     query_dag m = g \<and> fresh_state n (query_exec_state m) \<and> fresh_container n (workorders_container m)
     \<and> non_dependent_operators m = filter (\<lambda>i. inputs p i = []) [0..<k]
     \<and> length (blocking_dependencies m) = n \<and> length (non_blocking_dependencies m) = n
     \<and> length (blocking_dependents m) = n \<and> length (output_consumers m) = n
     \<and> (\<forall>i < n. blocking_dependencies m ! i = {j. j < k \<and> (i, True) \<in> set (outputs p j)}
          \<and> non_blocking_dependencies m ! i = {j. j < k \<and> (i, False) \<in> set (outputs p j)})
     \<and> (\<forall>j < n. set (blocking_dependents m ! j) = {i. j < k \<and> (i, True) \<in> set (outputs p j)}
          \<and> set (output_consumers m ! j) = {i. j < k \<and> (i, False) \<in> set (outputs p j)}))"

lemma add_operator_built:
  assumes wf: "dag_wf g" and b: "built g k m" and a: "add_operator I m k = Inr m'"
  shows "built g (Suc k) m'"
proof -
  let ?p = "plan_of g" let ?n = "length ?p"
  note B = b [unfolded built_def Let_def]
  have k: "k < dag_size g" using a B by (auto simp: add_operator_def getNodePayload_def checked_node_def res_simps)
  have g: "query_dag m = g" using B by simp
  obtain st where st: "(if hasInsertDestination I (node_payload (dag_nodes g ! k)) then setRebuildRequired (query_exec_state m) k
      else Inr (query_exec_state m)) = Inr st"
    and f: "fold_res (add_dependent_link k) (m\<lparr>query_exec_state := st, non_dependent_operators :=
         (if inputs ?p k = [] then non_dependent_operators m @ [k] else non_dependent_operators m)\<rparr>) (map fst (outputs ?p k)) = Inr m'"
    using a k by (auto simp: g add_operator_def getNodePayload_def getDependencies_def getDependents_def checked_node_def
        dag_size_def res_simps)
  have meta: "getLinkMetadata g k d = Inr c" if "(d, c) \<in> set (outputs ?p k)" for d c
    using that k map_of_is_SomeI [OF dag_wfD(1) [OF wf k]] by (simp add: getLinkMetadata_def dag_size_def)
  have added: "links_added (m\<lparr>query_exec_state := st, non_dependent_operators :=
         (if inputs ?p k = [] then non_dependent_operators m @ [k] else non_dependent_operators m)\<rparr>) m' k (set (outputs ?p k))"
    by (rule add_links [OF f]) (use meta g in simp)
  have "fresh_state ?n st" using st B fresh_state_required by (auto split: if_splits)
  then show ?thesis using B added unfolding built_def links_added_def Let_def
    by (auto simp: less_Suc_eq)
qed

lemma new_query_manager_built:
  assumes wf: "dag_wf g" and m: "new_query_manager I g numa = Inr m"
  shows "built g (dag_size g) m"
proof -
  obtain c where c: "new_container (dag_size g) numa = Inr c"
    and f: "fold_res (add_operator I)
         \<lparr>query_dag = g, output_consumers = replicate (dag_size g) [],
          blocking_dependencies = replicate (dag_size g) {}, non_dependent_operators = [],
          query_exec_state = new_execution_state (dag_size g),
          blocking_dependents = replicate (dag_size g) [],
          non_blocking_dependencies = replicate (dag_size g) {}, workorders_container = c\<rparr>
         [0..<dag_size g] = Inr m" (is "fold_res _ ?m0 _ = _")
    using m by (auto simp: new_query_manager_def res_simps)
  have "built g 0 ?m0" using fresh_state_new fresh_container_new [OF c] by (simp add: built_def)
  moreover have "built g k m'" if "built g 0 ?m0" "fold_res (add_operator I) ?m0 [0..<k] = Inr m'" for k m'
    using that
  proof (induction k arbitrary: m')
    case (Suc k)
    then show ?case using add_operator_built [OF wf] by (auto simp: fold_res_append res_simps)
  qed simp
  ultimately show ?thesis using f by blast
qed

text \<open>An operator the constructor has not started yet.\<close>

definition not_started :: "plan \<Rightarrow> 'o QueryManager \<Rightarrow> nat \<Rightarrow> bool" where
  "not_started p m i \<longleftrightarrow> i < length p \<and> inputs p i = [] \<and> \<not> finished m i \<and> \<not> initiated m i \<and> normal_pending m i = {#}"

lemma built_inv:
  assumes wf: "dag_wf g" and b: "built g (dag_size g) m"
  shows "qm_inv (plan_of g) m" and "\<And>i. i < dag_size g \<Longrightarrow> queued m i = 0"
    and "\<And>i. i < dag_size g \<Longrightarrow> rebuilding m i = 0"
    and "distinct (non_dependent_operators m)" and "\<And>i. i \<in> set (non_dependent_operators m) \<Longrightarrow> not_started (plan_of g) m i"
proof -
  note B = b [unfolded built_def Let_def length_plan fresh_state_def fresh_container_def]
  have no: "\<not> initiated m i" "outstanding m i = 0" for i
    using B by (auto simp: initiated_def outstanding_def split: option.splits)
  have "qm_shape (plan_of g) m" using B plan_wf_of [OF wf] by (simp add: qm_shape_def)
  moreover have "qm_deps (plan_of g) m" using B by (auto simp: qm_deps_def open_inputs_def)
  moreover have "operator_ok (plan_of g) m i" if "i < dag_size g" for i
    using B no that by (simp add: operator_ok_def normal_over_def)
  ultimately show "qm_inv (plan_of g) m" by (simp add: qm_inv_def)
  show "queued m i = 0" if "i < dag_size g" for i using B that by simp
  show "rebuilding m i = 0" if "i < dag_size g" for i using B no that by (simp add: rebuilding_def)
  show "distinct (non_dependent_operators m)" using B by simp
  show "not_started (plan_of g) m i" if "i \<in> set (non_dependent_operators m)" for i
    using B that no by (auto simp: not_started_def)
qed

text \<open>Starting an operator leaves the other ones that are to be started alone.\<close>

definition starts :: "plan \<Rightarrow> nat \<Rightarrow> 'o QueryManager \<Rightarrow> 'o QueryManager \<Rightarrow> bool" where
  "starts p i m m' \<longleftrightarrow> same_executing p m m' \<and> (\<forall>j. j \<noteq> i \<longrightarrow> not_started p m j \<longrightarrow> not_started p m' j)"

lemma starts_trans: "starts p i m m1 \<Longrightarrow> starts p i m1 m2 \<Longrightarrow> starts p i m m2"
  using same_executing_trans by (auto simp: starts_def)

lemma start_finish:
  assumes inv: "qm_inv p m" and can: "can_finish p m i" and f: "mark_finished I m i = Inr m'"
  shows "qm_inv p m' \<and> starts p i m m'"
proof -
  obtain m1 where m1: "qm_inv p m'" "finish_operator I m i = Inr m1" "evolves p m1 m'"
    using mark_process_spec(1) [OF inv can] f unfolding mark_finished_def by blast
  have "starts p i m m1" using finish_spec [OF inv m1(2) can] by (auto simp: starts_def not_started_def same_executing_def)
  moreover have "starts p i m1 m'" using m1(3) by (auto simp: starts_def not_started_def evolves_def same_executing_def)
  ultimately show ?thesis using m1(1) starts_trans by blast
qed

lemma start_operator_spec:
  assumes inv: "qm_inv p m" and new: "not_started p m i" and q: "queued m i = 0" and f: "start_operator I m i = Inr m'"
  shows "qm_inv p m' \<and> starts p i m m'"
proof -
  obtain fetched m1 where fe: "fetchNormalWorkOrders I m i = Inr (fetched, m1)" using f by (auto simp: start_operator_def res_simps)
  have "may_generate p m i" using new by (simp add: may_generate_def not_started_def)
  note F = fetch_spec [OF inv fe this]
  have inv1: "qm_inv p m1" and st1: "starts p i m m1" using F by (auto simp: starts_def not_started_def same_executing_def rebuilding_def)
  show ?thesis
  proof (cases fetched)
    case True
    then show ?thesis using f inv1 st1 by (simp add: start_operator_def fe)
  next
    case False
    have over: "normal_over m1 i" using F False new q by (simp add: normal_over_def not_started_def)
    have pre: "i < length p" "inputs p i = []" "\<not> finished m1 i" "blocking_dependencies m1 ! i = {}"
      using F new by (simp_all add: not_started_def)
    obtain b m2 where r: "isRebuildRequired (query_exec_state m1) i = Inr b"
      "(if \<not> b then Inr (True, m1) else initiateRebuild I m1 i) = Inr (True, m2)" "mark_finished I m2 i = Inr m'"
      using f False by (auto simp: start_operator_def fe res_simps)
    have "qm_inv p m2 \<and> starts p i m1 m2 \<and> can_finish p m2 i"
    proof (cases b)
      case True
      have "qm_inv p m2 \<and> same_but_rebuild m1 m2 i \<and> (\<forall>j. rebuilding m2 j = rebuilding m1 j) \<and> (True \<longrightarrow> can_finish p m2 i)"
        by (rule rebuild_can_finish [OF inv1 _ pre(1)]) (use r True over pre in simp_all)
      then show ?thesis using same_executing_rebuild [of m1 m2 i p] by (auto simp: same_but_rebuild_def starts_def not_started_def)
    next
      case False
      then have "m2 = m1" "idle m1 i" using r not_required_idle [OF inv1 _ over] by simp_all
      then show ?thesis using inv1 pre by (simp add: can_finish_def starts_def)
    qed
    then show ?thesis using start_finish [OF _ _ r(3)] st1 starts_trans by blast
  qed
qed

lemma start_operators_inv:
  assumes "fold_res (start_operator I) m ops = Inr m'" and "qm_inv p m" and "distinct ops"
    and "\<And>i. i \<in> set ops \<Longrightarrow> not_started p m i" and "\<And>i. i < length p \<Longrightarrow> queued m i = 0"
  shows "qm_inv p m' \<and> same_executing p m m'"
  using assms
proof (induction ops arbitrary: m)
  case (Cons i ops)
  from Cons.prems(1) obtain m1 where m1: "start_operator I m i = Inr m1" "fold_res (start_operator I) m1 ops = Inr m'"
    by (auto simp: res_simps)
  have "not_started p m i" "queued m i = 0" using Cons.prems(4,5) by (auto simp: not_started_def)
  from start_operator_spec [OF Cons.prems(2) this m1(1)] have S: "qm_inv p m1" "starts p i m m1" by simp_all
  have "not_started p m1 j" if "j \<in> set ops" for j
    using that S(2) Cons.prems(3) Cons.prems(4) [of j] by (auto simp: starts_def)
  moreover have "queued m1 j = 0" if "j < length p" for j using that S(2) Cons.prems(5) by (simp add: starts_def same_executing_def)
  ultimately have "qm_inv p m' \<and> same_executing p m1 m'" using Cons.IH [OF m1(2) S(1)] Cons.prems(3) by simp
  then show ?case using S(2) same_executing_trans [of p m m1 m'] by (simp add: starts_def)
qed simp

lemma constructor_spec:
  assumes wf: "dag_wf g" and m: "QueryManagerSingleNode I g numa = Inr m"
  shows "qm_inv (plan_of g) m \<and> (\<forall>i < dag_size g. queued m i = 0 \<and> rebuilding m i = 0)"
proof -
  obtain m0 where m0: "new_query_manager I g numa = Inr m0" "fold_res (start_operator I) m0 (non_dependent_operators m0) = Inr m"
    using m by (auto simp: QueryManagerSingleNode_def res_simps)
  note B = built_inv [OF wf new_query_manager_built [OF wf m0(1)]]
  have "qm_inv (plan_of g) m \<and> same_executing (plan_of g) m0 m"
    by (rule start_operators_inv [OF m0(2) B(1,4)]) (use B(2,5) in simp_all)
  then show ?thesis using B(2,3) by (simp add: same_executing_def)
qed

section \<open>Runs\<close>

text \<open>A run: the constructor, then any sequence of handed out work orders and messages of the workers.
  Feedback is sent by a work order while it is executed, so that the number of queued work orders of
  its operator is positive; the other messages are arbitrary.\<close>

inductive qm_reachable :: "'o operator_interface \<Rightarrow> ('o, bool) DAG \<Rightarrow> 'o QueryManager \<Rightarrow> bool"
  for I :: "'o operator_interface" and g :: "('o, bool) DAG" where
  construct: "QueryManagerSingleNode I g numa = Inr m \<Longrightarrow> qm_reachable I g m"
| hand_out: "qm_reachable I g m \<Longrightarrow> getNextWorkerMessage m = Inr (r, m') \<Longrightarrow> qm_reachable I g m'"
| feedback: "qm_reachable I g m \<Longrightarrow> i < dag_size g \<Longrightarrow> 0 < queued m i \<Longrightarrow> processFeedbackMessage I m i msg = Inr m' \<Longrightarrow>
    qm_reachable I g m'"
| complete: "qm_reachable I g m \<Longrightarrow> processWorkOrderCompleteMessage I m i = Inr m' \<Longrightarrow> qm_reachable I g m'"
| rebuild_complete: "qm_reachable I g m \<Longrightarrow> processRebuildWorkOrderCompleteMessage I m i = Inr m' \<Longrightarrow> qm_reachable I g m'"
| data_pipeline: "qm_reachable I g m \<Longrightarrow> processDataPipelineMessage I m i block rel part = Inr m' \<Longrightarrow> qm_reachable I g m'"

lemma run_inv:
  assumes "qm_reachable I g m" and "dag_wf g"
  shows "qm_inv (plan_of g) m"
  using assms
proof (induction rule: qm_reachable.induct)
  case (construct numa m)
  then show ?case by (simp add: constructor_spec)
next
  case (hand_out m r m')
  then show ?case using next_message_spec by blast
next
  case (feedback m i msg m')
  then show ?case using feedback_inv by fastforce
next
  case (complete m i m')
  then show ?case using complete_spec by blast
next
  case (rebuild_complete m i m')
  then show ?case using rebuild_complete_spec by blast
next
  case (data_pipeline m i block rel part m')
  then show ?case using data_pipeline_inv by blast
qed

text \<open>The counter of finished operators tells whether all operators have finished.\<close>

lemma query_finished_iff:
  assumes inv: "qm_inv p m"
  shows "hasQueryExecutionFinished (query_exec_state m) \<longleftrightarrow> (\<forall>j < length p. finished m j)"
proof -
  let ?F = "{j. j < length p \<and> finished m j}"
  have "num_operators_finished (query_exec_state m) = card ?F" using qm_invD(2) [OF inv] by (simp add: qm_deps_def)
  moreover have "card ?F = length p \<longleftrightarrow> (\<forall>j < length p. finished m j)"
  proof
    assume c: "card ?F = length p"
    have "?F = {..<length p}" by (rule card_subset_eq) (use c in auto)
    then show "\<forall>j < length p. finished m j" by auto
  next
    assume "\<forall>j < length p. finished m j"
    then have "?F = {..<length p}" by auto
    then show "card ?F = length p" by simp
  qed
  ultimately show ?thesis using qm_shapeD(4) [OF qm_invD(1) [OF inv]] by (simp add: hasQueryExecutionFinished_def)
qed

abbreviation blocking_link :: "('o, bool) DAG \<Rightarrow> nat \<Rightarrow> nat \<Rightarrow> bool" where
  "blocking_link g j i \<equiv> j < dag_size g \<and> i < dag_size g \<and> (i, True) \<in> set (dependents_with_metadata (dag_nodes g ! j))"

abbreviation pipeline_link :: "('o, bool) DAG \<Rightarrow> nat \<Rightarrow> nat \<Rightarrow> bool" where
  "pipeline_link g j i \<equiv> j < dag_size g \<and> i < dag_size g \<and> (i, False) \<in> set (dependents_with_metadata (dag_nodes g ! j))"

text \<open>In every state of a run the two sets of dependencies of an operator are exactly its unfinished
  dependencies of this kind.\<close>

theorem open_dependencies_exact:
  assumes "qm_reachable I g m" and "dag_wf g" and "i < dag_size g"
  shows "blocking_dependencies m ! i = {j. blocking_link g j i \<and> \<not> finished m j}
    \<and> non_blocking_dependencies m ! i = {j. pipeline_link g j i \<and> \<not> finished m j}"
  using qm_invD(2) [OF run_inv [OF assms(1,2)]] assms(3)
  by (auto simp: qm_deps_def open_inputs_def)

text \<open>C32. Order of execution: while an operator has work orders, pending or in execution, normal or for the
  rebuild, and when it has finished, all its blocking dependencies have finished.  In particular a
  work order that is handed to a worker belongs to an operator whose blocking dependencies have finished.\<close>

theorem work_after_blocking_dependencies:
  assumes "qm_reachable I g m" and "dag_wf g" and "blocking_link g j i"
    and "normal_pending m i \<noteq> {#} \<or> rebuild_pending m i \<noteq> {#} \<or> queued m i \<noteq> 0 \<or> outstanding m i \<noteq> 0 \<or> finished m i"
  shows "finished m j"
proof -
  note inv = run_inv [OF assms(1,2)]
  have "operator_ok (plan_of g) m i" using qm_invD(3) [OF inv] assms(3) by simp
  then have "blocking_dependencies m ! i = {}" using assms(4) unfolding operator_ok_def normal_over_def by blast
  moreover have "blocking_dependencies m ! i = open_inputs (plan_of g) m True i"
    using qm_invD(2) [OF inv] assms(3) by (auto simp: qm_deps_def)
  ultimately show ?thesis using assms(3) by (auto simp: open_inputs_def)
qed

text \<open>C33. The status of the query is reported correctly in every state of a run: the query is reported as executed
  exactly if every operator has finished, an operator exactly if it has finished itself, and a
  finished operator has no work order left, pending or in execution.\<close>

theorem queryStatus_correct:
  assumes "qm_reachable I g m" and "dag_wf g" and "i < dag_size g"
  shows "queryStatus m i = Inr (if \<forall>j < dag_size g. finished m j then kQueryExecuted
       else if finished m i then kOperatorExecuted else kNone)
    \<and> (finished m i \<longrightarrow> normal_pending m i = {#} \<and> rebuild_pending m i = {#} \<and> queued m i = 0 \<and> outstanding m i = 0)"
proof -
  note inv = run_inv [OF assms(1,2)]
  note sh = qm_shapeD [OF qm_invD(1) [OF inv], unfolded length_plan]
  have "hasQueryExecutionFinished (query_exec_state m) \<longleftrightarrow> (\<forall>j < dag_size g. finished m j)"
    using query_finished_iff [OF inv] by simp
  moreover have "hasExecutionFinished (query_exec_state m) i = Inr (finished m i)"
    using assms(3) sh(4,7) by (simp add: hasExecutionFinished_def check_operator_def)
  moreover have "operator_ok (plan_of g) m i" using qm_invD(3) [OF inv] assms(3) by simp
  ultimately show ?thesis by (auto simp: queryStatus_def operator_ok_def idle_def normal_over_def)
qed

section \<open>The recursion ends\<close>

text \<open>No operation but the recursion runs out of its bound.\<close>

definition fuel_free :: "'a result \<Rightarrow> bool" where
  "fuel_free r \<longleftrightarrow> r \<noteq> Inl OutOfFuel"

lemma fuel_free_simps [simp]:
  "fuel_free (Inr x)" "fuel_free (Inl e) \<longleftrightarrow> e \<noteq> OutOfFuel" "fuel_free (check e b) \<longleftrightarrow> b \<or> e \<noteq> OutOfFuel"
  "fuel_free (vec_at xs i)" "fuel_free (vec_set xs i x)"
  by (auto simp: fuel_free_def check_def vec_at_def vec_set_def)

lemma fuel_free_and_then: "fuel_free r \<Longrightarrow> (\<And>x. r = Inr x \<Longrightarrow> fuel_free (f x)) \<Longrightarrow> fuel_free (and_then r f)"
  by (cases r) (auto simp: fuel_free_def)

lemma fuel_free_fold: "(\<And>s x. fuel_free (f s x)) \<Longrightarrow> fuel_free (fold_res f s xs)"
  by (induction xs arbitrary: s) (auto intro: fuel_free_and_then)

lemmas fuel_free_rules = fuel_free_and_then fuel_free_fold

lemma fuel_free_container:
  "fuel_free (operator_container cs i)" "fuel_free (op_addWorkOrder oc w)" "fuel_free (op_hasWorkOrder oc)"
  by (auto simp: operator_container_def op_addWorkOrder_def numa_index_def op_hasWorkOrder_orders
      intro!: fuel_free_rules split: list.splits)

lemma fuel_free_orders:
  "fuel_free (addNormalWorkOrder c w i)" "fuel_free (addRebuildWorkOrder c w i)" "fuel_free (hasNormalWorkOrder c i)"
  "fuel_free (hasRebuildWorkOrder c i)" "fuel_free (getNumNormalWorkOrders c i)" "fuel_free (getNumRebuildWorkOrders c i)"
  by (auto simp: addNormalWorkOrder_def addRebuildWorkOrder_def hasNormalWorkOrder_def hasRebuildWorkOrder_def
      getNumNormalWorkOrders_def getNumRebuildWorkOrders_def fuel_free_container intro!: fuel_free_rules)

lemma fuel_free_state:
  "fuel_free (hasDoneGenerationWorkOrders st i)" "fuel_free (setDoneGenerationWorkOrders st i)"
  "fuel_free (getNumQueuedWorkOrders st i)" "fuel_free (isRebuildRequired st i)" "fuel_free (hasRebuildInitiated st i)"
  "fuel_free (setRebuildStatus st i n b)" "fuel_free (setExecutionFinished st i)"
  by (auto simp: query_state_defs intro!: fuel_free_rules split: option.splits)

lemma fuel_free_dag:
  "fuel_free (getNodePayload g i)" "fuel_free (getDependents g i)" "fuel_free (getNodePayloadMutable m i)"
  by (auto simp: getNodePayload_def getDependents_def getNodePayloadMutable_def checked_node_def intro!: fuel_free_rules)

lemma fuel_free_fetch: "fuel_free (fetchNormalWorkOrders I m i)"
  by (auto simp: fetchNormalWorkOrders_def checkAllBlockingDependenciesMet_def Let_def fuel_free_orders fuel_free_state fuel_free_dag
      intro!: fuel_free_rules split: prod.splits)

lemma fuel_free_rebuild: "fuel_free (initiateRebuild I m i)"
  by (auto simp: initiateRebuild_def getRebuildWorkOrders_def Let_def fuel_free_orders fuel_free_state fuel_free_dag
      intro!: fuel_free_rules split: prod.splits)

lemma fuel_free_dependent: "fuel_free (dependent_over I m i)"
  by (auto simp: dependent_over_def checkNormalExecutionOver_def fuel_free_fetch fuel_free_rebuild fuel_free_orders fuel_free_state
      intro!: fuel_free_rules split: prod.splits)

lemma fuel_free_finish: "fuel_free (finish_operator I m i)" "fuel_free (done_feeding I rel m i)"
  "fuel_free (checkAllBlockingDependenciesMet m i)"
  by (auto simp: finish_operator_def erase_dependency_def done_feeding_def checkAllBlockingDependenciesMet_def
      fuel_free_state fuel_free_dag intro!: fuel_free_rules)

text \<open>The links of the plan never change.\<close>

lemma plan_fetch:
  assumes "fetchNormalWorkOrders I m i = Inr (b, m')"
  shows "plan_of (query_dag m') = plan_of (query_dag m)"
proof -
  obtain op where op: "getNodePayloadMutable m i = Inr op"
    using assms by (cases "getNodePayloadMutable m i") (auto simp: fetchNormalWorkOrders_def res_simps)
  obtain orders dn op' where "getAllWorkOrders I op = (orders, dn, op')" using prod_cases3 by blast
  then show ?thesis using assms op by (auto simp: fetchNormalWorkOrders_def Let_def res_simps)
qed

lemma plan_rebuild: "initiateRebuild I m i = Inr (b, m') \<Longrightarrow> plan_of (query_dag m') = plan_of (query_dag m)"
  by (auto simp: initiateRebuild_def getRebuildWorkOrders_def Let_def res_simps split: prod.split_asm)

lemma plan_dependent: "dependent_over I m i = Inr (b, m') \<Longrightarrow> plan_of (query_dag m') = plan_of (query_dag m)"
  by (auto simp: dependent_over_def res_simps split: prod.split_asm if_splits dest!: plan_fetch plan_rebuild)

lemma plan_finish:
  "finish_operator I m i = Inr m' \<Longrightarrow> plan_of (query_dag m') = plan_of (query_dag m)"
  "done_feeding I rel m i = Inr m' \<Longrightarrow> plan_of (query_dag m') = plan_of (query_dag m)"
  by (auto simp: finish_operator_def done_feeding_def res_simps split: if_splits)

lemma mark_process_bound:
  assumes pos: "\<And>j i b. j < length p \<Longrightarrow> (i, b) \<in> set (outputs p j) \<Longrightarrow> pos j < pos i"
    and small: "\<And>i. i < length p \<Longrightarrow> pos i < length p" and wf: "plan_wf p"
  shows "plan_of (query_dag m) = p \<Longrightarrow> i < length p \<Longrightarrow> length p \<le> fuel + pos i \<Longrightarrow>
      fuel_free (markOperatorFinished fuel I m i)
      \<and> (\<forall>m'. markOperatorFinished fuel I m i = Inr m' \<longrightarrow> plan_of (query_dag m') = p)"
    and "plan_of (query_dag m) = p \<Longrightarrow> (\<And>d. d \<in> set ds \<Longrightarrow> d < length p \<and> length p \<le> fuel + pos d) \<Longrightarrow>
      fuel_free (process_dependents fuel I rel m ds)
      \<and> (\<forall>m'. process_dependents fuel I rel m ds = Inr m' \<longrightarrow> plan_of (query_dag m') = p)"
proof (induction fuel I m i and fuel I rel m ds rule: markOperatorFinished_process_dependents.induct)
  case (1 I m i)
  then show ?case using small [of i] by simp
next
  case (2 fuel I m i)
  have step: "fuel_free (process_dependents fuel I (getOutputRelationID I op) m1 (map fst l))
      \<and> (\<forall>m'. process_dependents fuel I (getOutputRelationID I op) m1 (map fst l) = Inr m' \<longrightarrow> plan_of (query_dag m') = p)"
    if m1: "finish_operator I m i = Inr m1" and op: "getNodePayloadMutable m1 i = Inr op"
      and l: "getDependents (query_dag m1) i = Inr l" for m1 op l
  proof (rule "2.IH" [OF m1 op l])
    show p1: "plan_of (query_dag m1) = p" using plan_finish(1) [OF m1] "2.prems"(1) by simp
    have "l = outputs p i" using l unfolding p1 [symmetric]
      by (auto simp: getDependents_def checked_node_def res_simps)
    then show "d < length p \<and> length p \<le> fuel + pos d" if "d \<in> set (map fst l)" for d
      using that pos [OF "2.prems"(2)] plan_wfD [OF wf "2.prems"(2)] "2.prems"(3) by fastforce
  qed
  then show ?case
    by (auto intro!: fuel_free_and_then simp: fuel_free_finish fuel_free_dag res_simps)
next
  case (3 fuel I rel m)
  then show ?case by simp
next
  case (4 fuel I rel m d ds)
  let ?A = "\<lambda>m1 met. if met then and_then (dependent_over I m1 d) (\<lambda>(over, m2).
      if over then markOperatorFinished fuel I m2 d else Inr m2) else Inr m1"
  have d: "d < length p" "length p \<le> fuel + pos d" using "4.prems"(2) by simp_all
  have first: "fuel_free (?A m1 met) \<and> (\<forall>m3. ?A m1 met = Inr m3 \<longrightarrow> plan_of (query_dag m3) = p)"
    if m1: "done_feeding I rel m d = Inr m1" "checkAllBlockingDependenciesMet m1 d = Inr met" for m1 met
  proof (cases met)
    case True
    have p1: "plan_of (query_dag m1) = p" using plan_finish(2) [OF m1(1)] "4.prems"(1) by simp
    show ?thesis
    proof (cases "dependent_over I m1 d")
      case (Inl e)
      then show ?thesis using True fuel_free_dependent [of I m1 d] by simp
    next
      case (Inr x)
      obtain over m2 where x: "x = (over, m2)" by (cases x)
      have p2: "plan_of (query_dag m2) = p" using plan_dependent Inr p1 unfolding x by blast
      show ?thesis
      proof (cases over)
        case o: True
        show ?thesis using "4.IH"(1) [OF m1 True Inr x [symmetric] o p2 d] True Inr x o by simp
      qed (use True Inr x p2 in simp)
    qed
  next
    case False
    then show ?thesis using plan_finish(2) [OF m1(1)] "4.prems"(1) by simp
  qed
  have rest: "fuel_free (process_dependents fuel I rel m3 ds)
      \<and> (\<forall>m'. process_dependents fuel I rel m3 ds = Inr m' \<longrightarrow> plan_of (query_dag m') = p)"
    if m1: "done_feeding I rel m d = Inr m1" "checkAllBlockingDependenciesMet m1 d = Inr met" and m3: "?A m1 met = Inr m3" for m1 met m3
    by (rule "4.IH"(2) [OF m1 m3]) (use first [OF m1] m3 "4.prems"(2) in simp_all)
  show ?case
    using first rest by (auto intro!: fuel_free_and_then simp: fuel_free_finish and_then_eq_Inr)
qed

text \<open>C34. The recursion of \<^verbatim>\<open>markOperatorFinished\<close> ends: on an acyclic plan its depth is bounded by the number of
  operators, whatever the operators do.\<close>

theorem mark_finished_terminates:
  assumes "dag_wf (query_dag m)" and "acyclic (links (query_dag m))" and "i < dag_size (query_dag m)"
  shows "mark_finished I m i \<noteq> Inl OutOfFuel"
proof -
  obtain pos where pos: "\<And>d n. (d, n) \<in> links (query_dag m) \<Longrightarrow> pos d < pos n"
    "\<And>n. n < dag_size (query_dag m) \<Longrightarrow> pos n < dag_size (query_dag m)"
    by (rule topological_number [OF assms(1,2)], rule that)
  let ?p = "plan_of (query_dag m)"
  have "pos j < pos k" if "j < length ?p" "(k, b) \<in> set (outputs ?p j)" for j k b
    using that by (intro pos(1)) (force simp: links_def)
  moreover have "pos k < length ?p" if "k < length ?p" for k using pos(2) that by simp
  ultimately have "fuel_free (mark_finished I m i)"
    using mark_process_bound(1) [OF _ _ plan_wf_of [OF assms(1)], of pos m i "dag_size (query_dag m)" I] assms(3)
    by (simp add: mark_finished_def)
  then show ?thesis by (simp add: fuel_free_def)
qed

section \<open>Witnesses and limits\<close>

text \<open>Operators that generate one work order each.\<close>

definition example_operators :: "nat operator_interface" where
  "example_operators = \<lparr>getAllWorkOrders = (\<lambda>op. ([\<lparr>work_order_id = op, getPreferredNUMANodes = []\<rparr>], True, op)),
     hasInsertDestination = (\<lambda>_. False), getOutputRelationID = int, feedInputBlock = (\<lambda>op _ _ _. op),
     doneFeedingInputBlocks = (\<lambda>op _. op), updateCatalogOnCompletion = (\<lambda>op. op), receiveFeedbackMessage = (\<lambda>op _. op),
     getPartiallyFilledBlocks = (\<lambda>_. [])\<rparr>"

definition example_start :: "nat QueryManager" where
  "example_start = projr (QueryManagerSingleNode example_operators example_dag 1)"

definition example_running :: "nat QueryManager" where
  "example_running = snd (projr (getNextWorkerMessage example_start))"

definition example_second :: "nat QueryManager" where
  "example_second = projr (processWorkOrderCompleteMessage example_operators example_running 0)"

lemma example_reachable: "qm_reachable example_operators example_dag example_start"
  "qm_reachable example_operators example_dag example_second"
proof -
  have "isl (QueryManagerSingleNode example_operators example_dag 1) = False" by code_simp
  then have "QueryManagerSingleNode example_operators example_dag 1 = Inr example_start"
    unfolding example_start_def by (simp add: isl_def split: sum.splits)
  then show s: "qm_reachable example_operators example_dag example_start" by (rule construct)
  have "isl (getNextWorkerMessage example_start) = False" by code_simp
  then obtain r where "getNextWorkerMessage example_start = Inr (r, example_running)"
    unfolding example_running_def by (cases "getNextWorkerMessage example_start") auto
  with s have r: "qm_reachable example_operators example_dag example_running" by (rule hand_out)
  have "isl (processWorkOrderCompleteMessage example_operators example_running 0) = False" by code_simp
  then have "processWorkOrderCompleteMessage example_operators example_running 0 = Inr example_second"
    unfolding example_second_def by (cases "processWorkOrderCompleteMessage example_operators example_running 0") auto
  with r show "qm_reachable example_operators example_dag example_second" by (rule complete)
qed

lemma example_views: "dag_size example_dag = 3" "normal_pending example_second 1 \<noteq> {#}" "finished example_second 0"
  "query_dag example_start = example_dag"
  by code_simp+

theorem open_dependencies_exact_witness:
  "qm_reachable example_operators example_dag example_second
   \<and> blocking_dependencies example_second ! 2 = {j. blocking_link example_dag j 2 \<and> \<not> finished example_second j}"
  using example_reachable(2) open_dependencies_exact [OF example_reachable(2) dag_wf_example, of 2]
  by (simp add: example_views)

theorem work_after_blocking_dependencies_witness:
  "blocking_link example_dag 0 1 \<and> normal_pending example_second 1 \<noteq> {#} \<and> finished example_second 0"
proof -
  have l: "blocking_link example_dag 0 1" by (simp add: example_dag_def dag_size_def)
  then show ?thesis using work_after_blocking_dependencies [OF example_reachable(2) dag_wf_example l] example_views(2) by simp
qed

theorem queryStatus_correct_witness: "\<exists>s. queryStatus example_second 0 = Inr s"
  using queryStatus_correct [OF example_reachable(2) dag_wf_example, of 0] by (simp add: example_views)

theorem mark_finished_terminates_witness: "mark_finished example_operators example_start 2 \<noteq> Inl OutOfFuel"
  using mark_finished_terminates [of example_start 2] dag_wf_example acyclic_example by (simp add: example_views)

definition diamond_dag :: "(nat, bool) DAG" where
  "diamond_dag = \<lparr>dag_nodes =
     [\<lparr>node_payload = 0, dependencies = [], dependents_with_metadata = [(1, False), (2, False)]\<rparr>,
      \<lparr>node_payload = 0, dependencies = [0], dependents_with_metadata = [(2, False)]\<rparr>,
      \<lparr>node_payload = 0, dependencies = [0, 1], dependents_with_metadata = []\<rparr>]\<rparr>"

definition silent_operators :: "nat operator_interface" where
  "silent_operators = example_operators\<lparr>getAllWorkOrders := (\<lambda>op. ([], True, op))\<rparr>"


end
