(* ===== verification/PartitionSchemes.thy ===== *)
theory PartitionSchemes
  imports Prelude "HOL-Library.Word"
begin

text \<open>
  The partitioning of relations (\<^verbatim>\<open>PartitionSchemeHeader\<close>, \<^verbatim>\<open>PartitionScheme\<close>) and the block lists of
  \<^verbatim>\<open>CatalogRelation\<close>: which partition a tuple belongs to, and which blocks belong to a partition.

  Values of attributes are an arbitrary type; the virtual methods the code calls on them, the hash of a
  \<^verbatim>\<open>TypedValue\<close> and the comparators of a type, are parameters.  So is the distribution of the random
  number generator.  A header is one of three subclasses of a common base class; the records
  extend the record of the base class.
\<close>

unbundle bit_operations_syntax

section \<open>Hashes\<close>

definition CombineHashes :: "64 word \<Rightarrow> 64 word \<Rightarrow> 64 word" where
  "CombineHashes first_hash second_hash =
     (let kMul = 0x9ddfea08eb382d69;
          a = (first_hash XOR second_hash) * kMul;
          a' = a XOR drop_bit 47 a;
          b = (second_hash XOR a') * kMul;
          b' = b XOR drop_bit 47 b in
      b' * kMul)"

fun HashCompositeKey :: "('v \<Rightarrow> 64 word) \<Rightarrow> 'v list \<Rightarrow> 64 word result" where
  "HashCompositeKey getHash [] = Inl CheckFailed"
| "HashCompositeKey getHash (k # key) = Inr (foldl (\<lambda>hash v. CombineHashes hash (getHash v)) (getHash k) key)"

section \<open>Headers\<close>

datatype PartitionType = kHash | kRandom | kRange

record PartitionSchemeHeader =
  partition_type :: PartitionType
  num_partitions :: "64 word"
  partition_attribute_ids :: "int list"

record HashPartitionSchemeHeader = PartitionSchemeHeader +
  is_power_of_two :: bool

record 'r RandomPartitionSchemeHeader = PartitionSchemeHeader +
  random_engine :: 'r

record 'v RangePartitionSchemeHeader = PartitionSchemeHeader +
  partition_range_boundaries :: "'v list list"
  less_unchecked_comparators :: "('v \<Rightarrow> 'v \<Rightarrow> bool) list"
  equal_unchecked_comparators :: "('v \<Rightarrow> 'v \<Rightarrow> bool) list"

text \<open>The checks of the constructor of the base class.\<close>

definition check_header :: "64 word \<Rightarrow> int list \<Rightarrow> unit result" where
  "check_header n attr_ids = check CheckFailed (n > 0 \<and> distinct attr_ids \<and> - 1 \<notin> set attr_ids)"

definition new_hash_header :: "64 word \<Rightarrow> int list \<Rightarrow> HashPartitionSchemeHeader result" where
  "new_hash_header n attributes =
     and_then (check_header n attributes) (\<lambda>_.
       Inr \<lparr>partition_type = kHash, num_partitions = n, partition_attribute_ids = attributes,
            is_power_of_two = (n AND (n - 1) = 0)\<rparr>)"

definition hash_partition :: "HashPartitionSchemeHeader \<Rightarrow> 64 word \<Rightarrow> 64 word" where
  "hash_partition h hash_code =
     (if is_power_of_two h then hash_code AND (num_partitions h - 1)
      else if hash_code \<ge> num_partitions h then hash_code mod num_partitions h else hash_code)"

definition hash_getPartitionId ::
    "('v \<Rightarrow> 64 word) \<Rightarrow> HashPartitionSchemeHeader \<Rightarrow> 'v list \<Rightarrow> 64 word result" where
  "hash_getPartitionId getHash h value_of_attributes =
     and_then (check CheckFailed (length (partition_attribute_ids h) = length value_of_attributes)) (\<lambda>_.
     and_then (HashCompositeKey getHash value_of_attributes) (\<lambda>hash_code. Inr (hash_partition h hash_code)))"

definition new_random_header :: "'r \<Rightarrow> 64 word \<Rightarrow> 'r RandomPartitionSchemeHeader result" where
  "new_random_header seeded n =
     and_then (check_header n []) (\<lambda>_.
       Inr \<lparr>partition_type = kRandom, num_partitions = n, partition_attribute_ids = [], random_engine = seeded\<rparr>)"

text \<open>\<open>dist\<close> is the uniform distribution on an interval.\<close>

definition random_getPartitionId ::
    "(64 word \<Rightarrow> 64 word \<Rightarrow> 'r \<Rightarrow> 64 word \<times> 'r) \<Rightarrow> 'r RandomPartitionSchemeHeader
      \<Rightarrow> 64 word \<times> 'r RandomPartitionSchemeHeader" where
  "random_getPartitionId dist h =
     (let (id, engine) = dist 0 (num_partitions h - 1) (random_engine h) in (id, h\<lparr>random_engine := engine\<rparr>))"

subsection \<open>Ranges\<close>

text \<open>The loop of \<^verbatim>\<open>lessThan\<close> over the attributes.\<close>

fun less_loop :: "(('v \<Rightarrow> 'v \<Rightarrow> bool) \<times> ('v \<Rightarrow> 'v \<Rightarrow> bool)) list \<Rightarrow> 'v list \<Rightarrow> 'v list \<Rightarrow> bool" where
  "less_loop ((less_cmp, equal_cmp) # cmps) (l # lhs) (r # rhs) =
     (if less_cmp l r then True
      else if equal_cmp l r then (if cmps = [] then False else less_loop cmps lhs rhs)
      else False)"
| "less_loop _ _ _ = True"

definition comparators :: "'v RangePartitionSchemeHeader \<Rightarrow> (('v \<Rightarrow> 'v \<Rightarrow> bool) \<times> ('v \<Rightarrow> 'v \<Rightarrow> bool)) list" where
  "comparators h = zip (less_unchecked_comparators h) (equal_unchecked_comparators h)"

definition lessThan_values :: "'v RangePartitionSchemeHeader \<Rightarrow> 'v list \<Rightarrow> 'v list \<Rightarrow> bool result" where
  "lessThan_values h lhs rhs =
     and_then (check CheckFailed (length (partition_attribute_ids h) = length lhs)) (\<lambda>_.
     and_then (check CheckFailed (length (partition_attribute_ids h) = length rhs)) (\<lambda>_.
       Inr (less_loop (comparators h) lhs rhs)))"

definition checkPartitionRangeBoundaries :: "'v RangePartitionSchemeHeader \<Rightarrow> unit result" where
  "checkPartitionRangeBoundaries h =
     (let bs = partition_range_boundaries h in
      and_then (check CheckFailed (\<forall>b \<in> set bs. length (partition_attribute_ids h) = length b)) (\<lambda>_.
        fold_res (\<lambda>_ part_id. and_then (lessThan_values h (bs ! (part_id - 1)) (bs ! part_id)) (\<lambda>less. check CheckFailed less))
          () [1..<length bs]))"

text \<open>A comparator for less and one for equal is made for every type.\<close>

definition new_range_header ::
    "64 word \<Rightarrow> int list \<Rightarrow> (('v \<Rightarrow> 'v \<Rightarrow> bool) \<times> ('v \<Rightarrow> 'v \<Rightarrow> bool)) list \<Rightarrow> 'v list list
      \<Rightarrow> 'v RangePartitionSchemeHeader result" where
  "new_range_header n attributes types partition_ranges =
     and_then (check_header n attributes) (\<lambda>_.
     and_then (check CheckFailed (length attributes = length types)) (\<lambda>_.
     and_then (check CheckFailed (unat (n - 1) = length partition_ranges)) (\<lambda>_.
       (let h = \<lparr>partition_type = kRange, num_partitions = n, partition_attribute_ids = attributes,
                 partition_range_boundaries = partition_ranges,
                 less_unchecked_comparators = map fst types, equal_unchecked_comparators = map snd types\<rparr> in
        and_then (checkPartitionRangeBoundaries h) (\<lambda>_. Inr h)))))"

function range_loop :: "'v RangePartitionSchemeHeader \<Rightarrow> 'v list \<Rightarrow> nat \<Rightarrow> nat \<Rightarrow> nat result" where
  "range_loop h value_of_attributes start end_id =
     (if start < end_id then
        (let mid = start + (end_id - start) div 2 in
         and_then (vec_at (partition_range_boundaries h) mid) (\<lambda>boundary.
         and_then (lessThan_values h value_of_attributes boundary) (\<lambda>less.
           if less then range_loop h value_of_attributes start mid
           else range_loop h value_of_attributes (mid + 1) end_id)))
      else Inr start)"
  by pat_completeness auto
termination
  by (relation "measure (\<lambda>(h, v, s, e). e - s)") (auto simp: less_diff_conv2)

declare range_loop.simps [simp del]

text \<open>The last index wraps around for an empty list of boundaries.\<close>

definition range_getPartitionId :: "'v RangePartitionSchemeHeader \<Rightarrow> 'v list \<Rightarrow> nat result" where
  "range_getPartitionId h value_of_attributes =
     and_then (check CheckFailed (length (partition_attribute_ids h) = length value_of_attributes)) (\<lambda>_.
       (let end_id = unat (of_nat (length (partition_range_boundaries h)) - 1 :: 64 word) in
        and_then (vec_at (partition_range_boundaries h) end_id) (\<lambda>boundary.
        and_then (lessThan_values h value_of_attributes boundary) (\<lambda>less.
          if \<not> less then Inr (unat (num_partitions h - 1))
          else range_loop h value_of_attributes 0 end_id))))"

section \<open>Blocks\<close>

text \<open>The blocks of the partitions; the mutexes that protect them make every operation atomic.\<close>

type_synonym block_id = nat

record PartitionScheme =
  header_num_partitions :: nat
  blocks_in_partition :: "block_id set list"

definition new_PartitionScheme :: "nat \<Rightarrow> PartitionScheme" where
  "new_PartitionScheme n = \<lparr>header_num_partitions = n, blocks_in_partition = replicate n {}\<rparr>"

definition addBlockToPartition :: "PartitionScheme \<Rightarrow> block_id \<Rightarrow> nat \<Rightarrow> PartitionScheme result" where
  "addBlockToPartition s block part_id =
     and_then (check CheckFailed (part_id < header_num_partitions s)) (\<lambda>_.
     and_then (vec_at (blocks_in_partition s) part_id) (\<lambda>bs.
       Inr (s\<lparr>blocks_in_partition := (blocks_in_partition s)[part_id := insert block bs]\<rparr>)))"

definition removeBlockFromPartition :: "PartitionScheme \<Rightarrow> block_id \<Rightarrow> nat \<Rightarrow> PartitionScheme result" where
  "removeBlockFromPartition s block part_id =
     and_then (check CheckFailed (part_id < header_num_partitions s)) (\<lambda>_.
     and_then (vec_at (blocks_in_partition s) part_id) (\<lambda>bs.
       Inr (s\<lparr>blocks_in_partition := (blocks_in_partition s)[part_id := bs - {block}]\<rparr>)))"

definition getBlocksInPartition :: "PartitionScheme \<Rightarrow> nat \<Rightarrow> block_id set result" where
  "getBlocksInPartition s part_id =
     and_then (check CheckFailed (part_id < header_num_partitions s)) (\<lambda>_. vec_at (blocks_in_partition s) part_id)"

text \<open>The loop over the partitions.\<close>

fun find_partition :: "PartitionScheme \<Rightarrow> block_id \<Rightarrow> nat list \<Rightarrow> nat result" where
  "find_partition s block [] = Inr (2 ^ 64 - 1)"
| "find_partition s block (part_id # part_ids) =
     and_then (vec_at (blocks_in_partition s) part_id) (\<lambda>bs.
       if block \<in> bs then Inr part_id else find_partition s block part_ids)"

definition getPartitionForBlock :: "PartitionScheme \<Rightarrow> block_id \<Rightarrow> nat result" where
  "getPartitionForBlock s block = find_partition s block [0..<header_num_partitions s]"

record CatalogRelation =
  relation_blocks :: "block_id list"
  relation_partition_scheme :: "PartitionScheme option"

definition addBlock :: "CatalogRelation \<Rightarrow> block_id \<Rightarrow> CatalogRelation" where
  "addBlock r block = r\<lparr>relation_blocks := relation_blocks r @ [block]\<rparr>"

definition removeBlock :: "CatalogRelation \<Rightarrow> block_id \<Rightarrow> CatalogRelation" where
  "removeBlock r block = r\<lparr>relation_blocks := remove_first (\<lambda>b. b = block) (relation_blocks r)\<rparr>"

definition clearBlocks :: "CatalogRelation \<Rightarrow> CatalogRelation" where
  "clearBlocks r = r\<lparr>relation_blocks := []\<rparr>"

definition size_blocks :: "CatalogRelation \<Rightarrow> nat" where
  "size_blocks r = length (relation_blocks r)"

definition getBlocksSnapshot :: "CatalogRelation \<Rightarrow> block_id list" where
  "getBlocksSnapshot r = relation_blocks r"

section \<open>Hash partitioning\<close>

lemma power_of_two_iff:
  assumes "0 < (n :: nat)" and "n AND (n - 1) = 0"
  shows "\<exists>k. n = 2 ^ k"
  using assms
proof (induction n rule: less_induct)
  case (less n)
  show ?case
  proof (cases "even n")
    case True
    then obtain m where m: "n = 2 * m" by blast
    have "n - 1 = 2 * (m - 1) + 1" using m less.prems(1) by simp
    then have "2 * (m AND (m - 1)) = 0" using less.prems(2) m by (simp add: and_rec [of "2 * m"])
    moreover have "0 < m" "m < n" using m less.prems(1) by simp_all
    ultimately obtain k where "m = 2 ^ k" using less.IH [of m] by auto
    then show ?thesis using m by (intro exI [of _ "Suc k"]) simp
  next
    case False
    then obtain m where m: "n = 2 * m + 1" by (meson oddE)
    have "(2 * m + 1) AND (2 * m) = 2 * (m AND m)" by (subst and_rec) simp
    then have "m = 0" using less.prems(2) m by simp
    then show ?thesis using m by (intro exI [of _ 0]) simp
  qed
qed

lemma and_minus_one_mod:
  assumes "0 < (n :: 64 word)" and "n AND (n - 1) = 0"
  shows "unat (x AND (n - 1)) = unat x mod unat n"
proof -
  have n: "0 < unat n" "unat (n - 1) = unat n - 1" using assms(1) by (simp_all add: unat_minus_one word_gt_0 unat_gt_0)
  have "unat n AND (unat n - 1) = 0" using assms(2) n(2) by (metis unsigned_and_eq unat_0)
  from power_of_two_iff [OF n(1) this] obtain k where k: "unat n = 2 ^ k" by blast
  have "unat (x AND (n - 1)) = unat x AND (2 ^ k - 1)" using n(2) k by (simp add: unsigned_and_eq)
  also have "\<dots> = take_bit k (unat x)" by (simp only: mask_eq_exp_minus_1 [symmetric] take_bit_eq_mask)
  also have "\<dots> = unat x mod 2 ^ k" by (rule take_bit_eq_mod)
  finally show ?thesis using k by simp
qed

text \<open>Hash partitioning takes the hash modulo the number of partitions: the bit mask for powers of two and the
  shortcut for small hashes change nothing, and the result is the index of a partition.\<close>

theorem hash_partition_correct:
  assumes "new_hash_header n attributes = Inr h"
  shows "unat (hash_partition h code) = unat code mod unat n \<and> unat (hash_partition h code) < unat n"
proof -
  have h: "0 < n" "num_partitions h = n" "is_power_of_two h = (n AND (n - 1) = 0)"
    using assms by (auto simp: new_hash_header_def check_header_def res_simps)
  have "unat (hash_partition h code) = unat code mod unat n"
    using h and_minus_one_mod [OF h(1), of code]
    by (auto simp: hash_partition_def unat_mod_distrib word_le_nat_alt word_less_nat_alt not_le)
  moreover have "0 < unat n" using h(1) by (simp add: word_gt_0 unat_gt_0)
  ultimately show ?thesis by simp
qed

section \<open>Range partitioning\<close>

text \<open>What the code relies on: the comparators of a type belong to one order.\<close>

definition comparator_ok :: "('v \<Rightarrow> 'v \<Rightarrow> bool) \<times> ('v \<Rightarrow> 'v \<Rightarrow> bool) \<Rightarrow> bool" where
  "comparator_ok c \<longleftrightarrow> (\<forall>x y z. (fst c x y \<longrightarrow> fst c y z \<longrightarrow> fst c x z) \<and> (fst c x y \<longrightarrow> snd c y z \<longrightarrow> fst c x z)
     \<and> (snd c x y \<longrightarrow> fst c y z \<longrightarrow> fst c x z) \<and> (snd c x y \<longrightarrow> snd c y z \<longrightarrow> snd c x z))"

lemma less_loop_trans:
  assumes "\<And>c. c \<in> set cs \<Longrightarrow> comparator_ok c" and "length a = length cs" "length b = length cs" "length d = length cs"
    and "less_loop cs a b" and "less_loop cs b d"
  shows "less_loop cs a d"
  using assms
proof (induction cs arbitrary: a b d)
  case (Cons c cs)
  obtain lt eq where c: "c = (lt, eq)" by (cases c)
  obtain x a' y b' z d' where l: "a = x # a'" "b = y # b'" "d = z # d'"
    using Cons.prems(2-4) by (metis length_Suc_conv)
  have "comparator_ok (lt, eq)" using Cons.prems(1) c by simp
  then have ok: "lt x y \<Longrightarrow> lt y z \<Longrightarrow> lt x z" "lt x y \<Longrightarrow> eq y z \<Longrightarrow> lt x z" "eq x y \<Longrightarrow> lt y z \<Longrightarrow> lt x z"
    "eq x y \<Longrightarrow> eq y z \<Longrightarrow> eq x z" unfolding comparator_ok_def fst_conv snd_conv by blast+
  have rest: "less_loop cs a' d'" if "less_loop cs a' b'" "less_loop cs b' d'"
    using Cons.IH [of a' b' d'] Cons.prems(1-4) l that by simp
  show ?case using Cons.prems(5,6) ok rest unfolding c l by (auto split: if_splits)
qed simp

text \<open>A header the constructor returns.\<close>

lemma new_range_headerD:
  assumes "new_range_header n attributes types bs = Inr h"
  shows "length types = length attributes" "partition_attribute_ids h = attributes" "comparators h = types"
    "partition_range_boundaries h = bs" "unat (num_partitions h - 1) = length bs" "num_partitions h = n" "0 < n"
    "\<And>b. b \<in> set bs \<Longrightarrow> length b = length attributes"
    "\<And>i. i + 1 < length bs \<Longrightarrow> less_loop types (bs ! i) (bs ! (i + 1))"
proof -
  from assms have e: "length types = length attributes" "unat (n - 1) = length bs" "0 < n"
    "h = \<lparr>partition_type = kRange, num_partitions = n, partition_attribute_ids = attributes, partition_range_boundaries = bs,
       less_unchecked_comparators = map fst types, equal_unchecked_comparators = map snd types\<rparr>"
    "checkPartitionRangeBoundaries h = Inr ()"
    by (auto simp: new_range_header_def check_header_def Let_def res_simps)
  have cmp: "comparators h = types" using e(4) by (simp add: comparators_def zip_map_fst_snd)
  have len: "\<forall>b \<in> set bs. length attributes = length b"
    and f: "fold_res (\<lambda>_ part_id. and_then (lessThan_values h (bs ! (part_id - 1)) (bs ! part_id)) (\<lambda>less. check CheckFailed less))
          () [1..<length bs] = Inr ()"
    using e(4,5) by (auto simp: checkPartitionRangeBoundaries_def Let_def res_simps)
  have step: "fold_res g () xs = Inr () \<Longrightarrow> x \<in> set xs \<Longrightarrow> g () x = Inr ()" for g :: "unit \<Rightarrow> nat \<Rightarrow> unit result" and xs x
    by (induction xs) (auto simp: res_simps)
  have "less_loop types (bs ! i) (bs ! (i + 1))" if "i + 1 < length bs" for i
    using step [OF f, of "i + 1"] that cmp by (auto simp: lessThan_values_def res_simps)
  with e cmp len show "length types = length attributes" "partition_attribute_ids h = attributes" "comparators h = types"
    "partition_range_boundaries h = bs" "unat (num_partitions h - 1) = length bs" "num_partitions h = n" "0 < n"
    "\<And>b. b \<in> set bs \<Longrightarrow> length b = length attributes"
    "\<And>i. i + 1 < length bs \<Longrightarrow> less_loop types (bs ! i) (bs ! (i + 1))" by auto
qed

lemma boundaries_upward:
  assumes h: "new_range_header n attributes types bs = Inr h" and ok: "\<And>c. c \<in> set types \<Longrightarrow> comparator_ok c"
    and v: "length v = length attributes" "less_loop types v (bs ! i)" and "i \<le> j" "j < length bs"
  shows "less_loop types v (bs ! j)"
  using assms(5,6)
proof (induction j rule: dec_induct)
  case (step j)
  note D = new_range_headerD [OF h]
  show ?case
    by (rule less_loop_trans [of types v "bs ! j"]) (use ok v D step in auto)
qed (use v in simp)

lemma range_loop_spec:
  assumes h: "new_range_header n attributes types bs = Inr h" and ok: "\<And>c. c \<in> set types \<Longrightarrow> comparator_ok c"
    and v: "length v = length attributes"
    and "start \<le> end_id" "end_id < length bs" "less_loop types v (bs ! end_id)" "\<And>i. i < start \<Longrightarrow> \<not> less_loop types v (bs ! i)"
  shows "\<exists>p. range_loop h v start end_id = Inr p \<and> p < length bs \<and> less_loop types v (bs ! p)
    \<and> (\<forall>i < p. \<not> less_loop types v (bs ! i))"
  using assms(4-)
proof (induction "end_id - start" arbitrary: start end_id rule: less_induct)
  case less
  note D = new_range_headerD [OF h]
  show ?case
  proof (cases "start < end_id")
    case True
    let ?mid = "start + (end_id - start) div 2"
    have mid: "start \<le> ?mid" "?mid < end_id" using True by auto
    have lt: "lessThan_values h v (bs ! ?mid) = Inr (less_loop types v (bs ! ?mid))"
      using D(2,3,8) v mid less.prems(2) by (simp add: lessThan_values_def)
    have run: "range_loop h v start end_id = (if less_loop types v (bs ! ?mid) then range_loop h v start ?mid
        else range_loop h v (?mid + 1) end_id)"
      using True mid less.prems(2) D(4) lt by (subst range_loop.simps) (simp add: Let_def)
    show ?thesis
    proof (cases "less_loop types v (bs ! ?mid)")
      case l: True
      show ?thesis unfolding run using l less.hyps [of ?mid start] mid less.prems by simp
    next
      case l: False
      have "\<not> less_loop types v (bs ! i)" if "i < ?mid + 1" for i
        using l boundaries_upward [OF h ok v, of i ?mid] that mid less.prems(2) by auto
      then show ?thesis unfolding run using l less.hyps [of end_id "?mid + 1"] mid less.prems(2,3) by simp
    qed
  next
    case False
    then have "start = end_id" using less.prems(1) by simp
    then show ?thesis using less.prems by (subst range_loop.simps) auto
  qed
qed

text \<open>C39. Range partitioning: for boundaries that the constructor accepts, the binary search finds the partition whose
  range contains the values: the boundaries up to the partition are not greater than the
  values, and all others are.  Without boundaries, that is with one partition, the code reads
  before the start of the list.\<close>

theorem range_getPartitionId_correct:
  assumes h: "new_range_header n attributes types bs = Inr h" and ok: "\<And>c. c \<in> set types \<Longrightarrow> comparator_ok c"
    and v: "length v = length attributes"
  shows "if bs = [] then range_getPartitionId h v = Inl OutOfRange
    else \<exists>p. range_getPartitionId h v = Inr p \<and> p < unat n \<and> (\<forall>i < length bs. less_loop types v (bs ! i) = (p \<le> i))"
proof (cases "bs = []")
  case True
  have "range_getPartitionId h v = Inl OutOfRange"
    using True v new_range_headerD(2,4) [OF h] by (simp add: range_getPartitionId_def vec_at_def)
  with True show ?thesis by simp
next
  case False
  note D = new_range_headerD [OF h]
  have "0 < unat n" using D(7) by (simp add: word_gt_0 unat_gt_0)
  then have n: "unat n = length bs + 1" using D(5-7) by (simp add: unat_minus_one word_gt_0)
  have "length bs < 2 ^ 64" using D(5) unsigned_less [of "num_partitions h - 1", where 'a = nat] by simp
  then have u: "unat (of_nat (length bs) :: 64 word) = length bs" by (simp add: unat_of_nat)
  then have "(of_nat (length bs) :: 64 word) \<noteq> 0" using False by (metis length_0_conv unat_0)
  then have e: "unat (of_nat (length bs) - 1 :: 64 word) = length bs - 1" using u by (simp add: unat_minus_one)
  have last: "lessThan_values h v (bs ! (length bs - 1)) = Inr (less_loop types v (bs ! (length bs - 1)))"
    using D(2,3,8) v False by (simp add: lessThan_values_def)
  have run: "range_getPartitionId h v = (if \<not> less_loop types v (bs ! (length bs - 1)) then Inr (length bs)
      else range_loop h v 0 (length bs - 1))"
    using v D(2,4,5) False last unfolding range_getPartitionId_def D(4) e by (simp add: Let_def)
  have "\<exists>p. range_getPartitionId h v = Inr p \<and> p < unat n \<and> (\<forall>i < length bs. less_loop types v (bs ! i) = (p \<le> i))"
  proof (cases "less_loop types v (bs ! (length bs - 1))")
    case True
    obtain p where p: "range_loop h v 0 (length bs - 1) = Inr p" "p < length bs" "less_loop types v (bs ! p)"
      "\<forall>i < p. \<not> less_loop types v (bs ! i)"
      using range_loop_spec [OF h ok v, of 0 "length bs - 1"] True False by auto
    have "less_loop types v (bs ! i) = (p \<le> i)" if "i < length bs" for i
      using p(4) boundaries_upward [OF h ok v p(3) _ that] by (metis not_le)
    then show ?thesis using run True p(1,2) n by auto
  next
    case l: False
    have "\<not> less_loop types v (bs ! i)" if "i < length bs" for i
    proof
      assume "less_loop types v (bs ! i)"
      moreover have "i \<le> length bs - 1" "length bs - 1 < length bs" using that by linarith+
      ultimately show False using l boundaries_upward [OF h ok v, of i "length bs - 1"] by blast
    qed
    then show ?thesis using run l n by auto
  qed
  then show ?thesis using False by simp
qed

section \<open>Blocks of partitions\<close>

lemma find_partition_spec:
  assumes "\<And>q. q \<in> set ps \<Longrightarrow> q < length (blocks_in_partition s)"
  shows "find_partition s b ps = Inr (case List.find (\<lambda>q. b \<in> blocks_in_partition s ! q) ps of None \<Rightarrow> 2 ^ 64 - 1 | Some q \<Rightarrow> q)"
  using assms by (induction ps) auto

definition scheme_inv :: "PartitionScheme \<Rightarrow> bool" where
  "scheme_inv s \<longleftrightarrow> length (blocks_in_partition s) = header_num_partitions s
     \<and> (\<forall>i < header_num_partitions s. \<forall>j < header_num_partitions s. i \<noteq> j \<longrightarrow> blocks_in_partition s ! i \<inter> blocks_in_partition s ! j = {})"

text \<open>The partition of a block is found after the block was added, as long as no block is added to two
  partitions.\<close>

lemma addBlock_partition:
  assumes inv: "scheme_inv s" and new: "\<And>q. q < header_num_partitions s \<Longrightarrow> b \<notin> blocks_in_partition s ! q"
    and p: "p < header_num_partitions s"
  shows "\<exists>s'. addBlockToPartition s b p = Inr s' \<and> scheme_inv s' \<and> getPartitionForBlock s' b = Inr p
    \<and> getBlocksInPartition s' p = Inr (insert b (blocks_in_partition s ! p))"
proof -
  let ?s = "s\<lparr>blocks_in_partition := (blocks_in_partition s)[p := insert b (blocks_in_partition s ! p)]\<rparr>"
  have len: "length (blocks_in_partition s) = header_num_partitions s" using inv by (simp add: scheme_inv_def)
  have run: "addBlockToPartition s b p = Inr ?s" using p len by (simp add: addBlockToPartition_def)
  have nth: "blocks_in_partition ?s ! q = (if q = p then insert b (blocks_in_partition s ! p) else blocks_in_partition s ! q)" for q
    using p len by (simp add: nth_list_update)
  have inv': "scheme_inv ?s" using inv new p len by (auto simp: scheme_inv_def nth_list_update)
  have "List.find (\<lambda>q. b \<in> blocks_in_partition ?s ! q) [0..<header_num_partitions s] = Some p"
    unfolding find_Some_iff using p new len by (intro exI [of _ p]) (auto simp: nth_list_update)
  then have "getPartitionForBlock ?s b = Inr p" using find_partition_spec [of "[0..<header_num_partitions s]" ?s b] len
    by (simp add: getPartitionForBlock_def)
  moreover have "getBlocksInPartition ?s p = Inr (insert b (blocks_in_partition s ! p))"
    using p len by (simp add: getBlocksInPartition_def)
  ultimately show ?thesis using run inv' by blast
qed

section \<open>Witnesses\<close>

definition int_comparators :: "((int \<Rightarrow> int \<Rightarrow> bool) \<times> (int \<Rightarrow> int \<Rightarrow> bool)) list" where
  "int_comparators = [((<), (=)), ((<), (=))]"

definition example_header :: "int RangePartitionSchemeHeader" where
  "example_header = projr (new_range_header 4 [0, 1] int_comparators [[0, 5], [0, 9], [7, 1]])"

lemma example_header: "new_range_header 4 [0, 1] int_comparators [[0, 5], [0, 9], [7, 1]] = Inr example_header"
  by (simp add: example_header_def new_range_header_def check_header_def checkPartitionRangeBoundaries_def lessThan_values_def
      comparators_def int_comparators_def Let_def upt_rec)

lemma int_comparators_ok: "c \<in> set int_comparators \<Longrightarrow> comparator_ok c"
  by (auto simp: int_comparators_def comparator_ok_def)

theorem hash_partition_correct_witness:
  "\<exists>h. new_hash_header 8 [2] = Inr h \<and> unat (hash_partition h 21) = unat (21 :: 64 word) mod unat (8 :: 64 word)"
proof -
  have "new_hash_header 8 [2] = Inr \<lparr>partition_type = kHash, num_partitions = 8, partition_attribute_ids = [2], is_power_of_two = True\<rparr>"
    by (simp add: new_hash_header_def check_header_def)
  then show ?thesis using hash_partition_correct by blast
qed

theorem range_getPartitionId_correct_witness:
  "new_range_header 4 [0, 1] int_comparators [[0, 5], [0, 9], [7, 1]] = Inr example_header
   \<and> (\<exists>p. range_getPartitionId example_header [0, 9] = Inr p)"
  using example_header range_getPartitionId_correct [OF example_header int_comparators_ok, of "[0, 9]"] by auto

end
