(* ===== verification/WorkerDirectories.thy ===== *)
theory WorkerDirectories
  imports Prelude
begin

text \<open>
  The directory of the worker threads (\<^verbatim>\<open>WorkerDirectory\<close>): per worker the number of work orders that were sent
  to it and have not been completed, its NUMA node and its address on the message bus.
\<close>

section \<open>State and operations\<close>

record WorkerDirectory =
  num_workers :: nat
  num_queued_workorders :: "nat list"
  numa_node_ids :: "int list"
  client_ids :: "nat list"

definition new_WorkerDirectory :: "nat \<Rightarrow> nat list \<Rightarrow> int list \<Rightarrow> WorkerDirectory result" where
  "new_WorkerDirectory n cids numas =
     and_then (check CheckFailed (n > 0 \<and> length cids = n \<and> length numas = n)) (\<lambda>_.
       Inr \<lparr>num_workers = n, num_queued_workorders = replicate n 0, numa_node_ids = numas, client_ids = cids\<rparr>)"

definition getNumWorkers :: "WorkerDirectory \<Rightarrow> nat" where
  "getNumWorkers d = num_workers d"

definition check_worker :: "WorkerDirectory \<Rightarrow> nat \<Rightarrow> unit result" where
  "check_worker d worker_thread_index = check CheckFailed (worker_thread_index < num_workers d)"

definition wd_getNumQueuedWorkOrders :: "WorkerDirectory \<Rightarrow> nat \<Rightarrow> nat result" where
  "wd_getNumQueuedWorkOrders d worker_thread_index =
     and_then (check_worker d worker_thread_index) (\<lambda>_. vec_at (num_queued_workorders d) worker_thread_index)"

definition wd_incrementNumQueuedWorkOrders :: "WorkerDirectory \<Rightarrow> nat \<Rightarrow> WorkerDirectory result" where
  "wd_incrementNumQueuedWorkOrders d worker_thread_index =
     and_then (check_worker d worker_thread_index) (\<lambda>_.
     and_then (vec_at (num_queued_workorders d) worker_thread_index) (\<lambda>n.
       Inr (d\<lparr>num_queued_workorders := (num_queued_workorders d)[worker_thread_index := n + 1]\<rparr>)))"

definition wd_decrementNumQueuedWorkOrders :: "WorkerDirectory \<Rightarrow> nat \<Rightarrow> WorkerDirectory result" where
  "wd_decrementNumQueuedWorkOrders d worker_thread_index =
     and_then (check_worker d worker_thread_index) (\<lambda>_.
     and_then (vec_at (num_queued_workorders d) worker_thread_index) (\<lambda>n.
     and_then (check CheckFailed (n \<ge> 1)) (\<lambda>_.
       Inr (d\<lparr>num_queued_workorders := (num_queued_workorders d)[worker_thread_index := n - 1]\<rparr>))))"

definition getNUMANode :: "WorkerDirectory \<Rightarrow> nat \<Rightarrow> int result" where
  "getNUMANode d worker_thread_index =
     and_then (check_worker d worker_thread_index) (\<lambda>_. vec_at (numa_node_ids d) worker_thread_index)"

definition getClientID :: "WorkerDirectory \<Rightarrow> nat \<Rightarrow> nat result" where
  "getClientID d worker_thread_index =
     and_then (check_worker d worker_thread_index) (\<lambda>_. vec_at (client_ids d) worker_thread_index)"

text \<open>An address is the list of its recipients.\<close>

definition getWorkerAddress :: "WorkerDirectory \<Rightarrow> nat \<Rightarrow> nat list result" where
  "getWorkerAddress d worker_thread_index =
     and_then (check_worker d worker_thread_index) (\<lambda>_.
     and_then (vec_at (client_ids d) worker_thread_index) (\<lambda>cid. Inr [cid]))"

definition addWorker :: "WorkerDirectory \<Rightarrow> nat \<Rightarrow> int \<Rightarrow> WorkerDirectory" where
  "addWorker d cid numa_node_id =
     \<lparr>num_workers = num_workers d + 1, num_queued_workorders = num_queued_workorders d @ [0],
      numa_node_ids = numa_node_ids d @ [numa_node_id], client_ids = client_ids d @ [cid]\<rparr>"

text \<open>\<^verbatim>\<open>std::min_element\<close> and \<^verbatim>\<open>std::max_element\<close>: the index of the first least or greatest element.\<close>

fun min_element :: "nat list \<Rightarrow> nat \<Rightarrow> nat \<Rightarrow> nat \<Rightarrow> nat" where
  "min_element [] i smallest_index smallest = smallest_index"
| "min_element (x # xs) i smallest_index smallest =
     (if x < smallest then min_element xs (i + 1) i x else min_element xs (i + 1) smallest_index smallest)"

fun max_element :: "nat list \<Rightarrow> nat \<Rightarrow> nat \<Rightarrow> nat \<Rightarrow> nat" where
  "max_element [] i largest_index largest = largest_index"
| "max_element (x # xs) i largest_index largest =
     (if largest < x then max_element xs (i + 1) i x else max_element xs (i + 1) largest_index largest)"

definition getLeastLoadedWorker :: "WorkerDirectory \<Rightarrow> (nat \<times> nat) result" where
  "getLeastLoadedWorker d =
     (case num_queued_workorders d of
        [] \<Rightarrow> Inl CheckFailed
      | x # xs \<Rightarrow> (let i = min_element xs 1 0 x in Inr (i, num_queued_workorders d ! i)))"

definition getMostLoadedWorker :: "WorkerDirectory \<Rightarrow> (nat \<times> nat) result" where
  "getMostLoadedWorker d =
     (case num_queued_workorders d of
        [] \<Rightarrow> Inl CheckFailed
      | x # xs \<Rightarrow> (let i = max_element xs 1 0 x in Inr (i, num_queued_workorders d ! i)))"

section \<open>Invariant and loads\<close>

definition directory_inv :: "WorkerDirectory \<Rightarrow> bool" where
  "directory_inv d \<longleftrightarrow> num_workers d > 0 \<and> length (num_queued_workorders d) = num_workers d
     \<and> length (numa_node_ids d) = num_workers d \<and> length (client_ids d) = num_workers d"

lemma directory_inv_new: "new_WorkerDirectory n cids numas = Inr d \<Longrightarrow> directory_inv d"
  by (auto simp: new_WorkerDirectory_def res_simps directory_inv_def)

lemma directory_inv_add: "directory_inv d \<Longrightarrow> directory_inv (addWorker d cid numa)"
  by (simp add: directory_inv_def addWorker_def)

lemma wd_increment_spec:
  "directory_inv d \<Longrightarrow> w < num_workers d \<Longrightarrow> wd_incrementNumQueuedWorkOrders d w =
     Inr (d\<lparr>num_queued_workorders := (num_queued_workorders d)[w := num_queued_workorders d ! w + 1]\<rparr>)"
  by (simp add: wd_incrementNumQueuedWorkOrders_def check_worker_def directory_inv_def)

lemma wd_decrement_spec:
  "directory_inv d \<Longrightarrow> w < num_workers d \<Longrightarrow> 0 < num_queued_workorders d ! w \<Longrightarrow> wd_decrementNumQueuedWorkOrders d w =
     Inr (d\<lparr>num_queued_workorders := (num_queued_workorders d)[w := num_queued_workorders d ! w - 1]\<rparr>)"
  by (simp add: wd_decrementNumQueuedWorkOrders_def check_worker_def directory_inv_def Suc_le_eq)

lemma min_element_spec:
  assumes "k < length ys" "ys ! k = s" "\<And>j. j < length ys \<Longrightarrow> s \<le> ys ! j" "\<And>j. j < k \<Longrightarrow> s < ys ! j" "length ys = i"
  shows "let r = min_element xs i k s in r < length (ys @ xs) \<and> (\<forall>j < length (ys @ xs). (ys @ xs) ! r \<le> (ys @ xs) ! j)
    \<and> (\<forall>j < r. (ys @ xs) ! r < (ys @ xs) ! j)"
  using assms
proof (induction xs arbitrary: ys i k s)
  case Nil
  then show ?case by simp
next
  case (Cons x xs)
  show ?case
  proof (cases "x < s")
    case True
    have less: "x < ys ! j" if "j < length ys" for j using True Cons.prems(3) [OF that] by simp
    have "let r = min_element xs (i + 1) i x in r < length ((ys @ [x]) @ xs)
      \<and> (\<forall>j < length ((ys @ [x]) @ xs). ((ys @ [x]) @ xs) ! r \<le> ((ys @ [x]) @ xs) ! j)
      \<and> (\<forall>j < r. ((ys @ [x]) @ xs) ! r < ((ys @ [x]) @ xs) ! j)"
      by (rule Cons.IH) (use Cons.prems(5) less in \<open>auto simp: nth_append less_Suc_eq less_imp_le\<close>)
    then show ?thesis using True by simp
  next
    case False
    have "let r = min_element xs (i + 1) k s in r < length ((ys @ [x]) @ xs)
      \<and> (\<forall>j < length ((ys @ [x]) @ xs). ((ys @ [x]) @ xs) ! r \<le> ((ys @ [x]) @ xs) ! j)
      \<and> (\<forall>j < r. ((ys @ [x]) @ xs) ! r < ((ys @ [x]) @ xs) ! j)"
      by (rule Cons.IH) (use Cons.prems False in \<open>auto simp: nth_append less_Suc_eq\<close>)
    then show ?thesis using False by simp
  qed
qed

text \<open>The least loaded worker: the first one with the least number of work orders.\<close>

lemma getLeastLoadedWorker_spec:
  assumes "directory_inv d"
  obtains w where "getLeastLoadedWorker d = Inr (w, num_queued_workorders d ! w)" "w < num_workers d"
    "\<And>j. j < num_workers d \<Longrightarrow> num_queued_workorders d ! w \<le> num_queued_workorders d ! j"
    "\<And>j. j < w \<Longrightarrow> num_queued_workorders d ! w < num_queued_workorders d ! j"
proof -
  obtain x xs where x: "num_queued_workorders d = x # xs" using assms by (cases "num_queued_workorders d") (auto simp: directory_inv_def)
  have n: "num_workers d = length (num_queued_workorders d)" using assms by (simp add: directory_inv_def)
  have "let r = min_element xs 1 0 x in r < length ([x] @ xs) \<and> (\<forall>j < length ([x] @ xs). ([x] @ xs) ! r \<le> ([x] @ xs) ! j)
    \<and> (\<forall>j < r. ([x] @ xs) ! r < ([x] @ xs) ! j)" by (rule min_element_spec) simp_all
  then show ?thesis using that [of "min_element xs 1 0 x"] unfolding n getLeastLoadedWorker_def x by (simp add: Let_def)
qed

end
