(* ===== verification/PolicyEnforcers.thy ===== *)
theory PolicyEnforcers
  imports QueryRuns PartitionSchemes WorkerDirectories
begin

text \<open>
  The policy enforcer of the single-node scheduler (\<^verbatim>\<open>PolicyEnforcerBase\<close> and \<^verbatim>\<open>PolicyEnforcerSingleNode\<close>): it
  admits queries, at most one at a time, routes the messages of the workers to the manager of their
  query and collects work orders for the workers.

  The map of admitted queries is an association list, the queue of waiting queries a list, and the
  catalog a map from relation ids to relations.  The worker directory, to which the foreman and the
  enforcer both hold a pointer, is a part of the state of the enforcer.
\<close>

section \<open>Messages\<close>

record 'o QueryHandle =
  handle_query_id :: nat
  handle_query_plan :: "('o, bool) DAG"

datatype WorkOrderType = NORMAL | REBUILD

record WorkOrderCompletionMessage =
  work_order_type :: WorkOrderType
  operator_index :: nat
  worker_thread_index :: nat
  completed_query_id :: nat
  completed_partition_id :: nat
  execution_start_time :: nat
  execution_end_time :: nat

datatype 'o TaggedMessage =
    kAdmitRequestMessage "'o QueryHandle list"
  | kWorkOrderCompleteMessage WorkOrderCompletionMessage
  | kRebuildWorkOrderCompleteMessage WorkOrderCompletionMessage
  | kCatalogRelationNewBlockMessage int block_id "nat option"
  | kDataPipelineMessage nat nat nat int nat
  | kWorkOrderFeedbackMessage nat nat nat
  | kPoisonMessage
  | kOtherMessage

section \<open>State and operations\<close>

record WorkOrderTimeEntry =
  worker_id :: nat
  operator_id :: nat
  start_time :: nat
  end_time :: nat

record 'o PolicyEnforcer =
  profile_individual_workorders :: bool
  catalog_database :: "int \<rightharpoonup> CatalogRelation"
  admitted_queries :: "(nat \<times> 'o QueryManager) list"
  waiting_queries :: "'o QueryHandle list"
  workorder_time_recorder :: "(nat \<times> WorkOrderTimeEntry list) list"
  enforcer_numa_nodes :: nat
  worker_directory :: WorkerDirectory

definition kMaxConcurrentQueries :: nat where
  "kMaxConcurrentQueries = 1"

definition new_PolicyEnforcer ::
    "bool \<Rightarrow> (int \<rightharpoonup> CatalogRelation) \<Rightarrow> nat \<Rightarrow> WorkerDirectory \<Rightarrow> 'o PolicyEnforcer" where
  "new_PolicyEnforcer profile catalog numa_nodes directory =
     \<lparr>profile_individual_workorders = profile, catalog_database = catalog, admitted_queries = [],
      waiting_queries = [], workorder_time_recorder = [], enforcer_numa_nodes = numa_nodes,
      worker_directory = directory\<rparr>"

definition hasQueries :: "'o PolicyEnforcer \<Rightarrow> bool" where
  "hasQueries e \<longleftrightarrow> \<not> (admitted_queries e = [] \<and> waiting_queries e = [])"

definition hasProfilingResults :: "'o PolicyEnforcer \<Rightarrow> nat \<Rightarrow> bool" where
  "hasProfilingResults e query_id \<longleftrightarrow> map_of (workorder_time_recorder e) query_id \<noteq> None"

definition getProfilingResults :: "'o PolicyEnforcer \<Rightarrow> nat \<Rightarrow> WorkOrderTimeEntry list result" where
  "getProfilingResults e query_id =
     and_then (check CheckFailed (profile_individual_workorders e)) (\<lambda>_.
     and_then (check CheckFailed (hasProfilingResults e query_id)) (\<lambda>_.
       case map_of (workorder_time_recorder e) query_id of
         None \<Rightarrow> Inl OutOfRange
       | Some entries \<Rightarrow> Inr entries))"

definition recordTimeForWorkOrder :: "'o PolicyEnforcer \<Rightarrow> WorkOrderCompletionMessage \<Rightarrow> 'o PolicyEnforcer" where
  "recordTimeForWorkOrder e proto =
     (let query_id = completed_query_id proto;
          entry = \<lparr>worker_id = worker_thread_index proto, operator_id = operator_index proto,
                   start_time = execution_start_time proto, end_time = execution_end_time proto\<rparr> in
      e\<lparr>workorder_time_recorder := al_put (workorder_time_recorder e) query_id
          (al_get [] (workorder_time_recorder e) query_id @ [entry])\<rparr>)"

definition enforcer_decrementNumQueuedWorkOrders ::
    "'o PolicyEnforcer \<Rightarrow> WorkOrderCompletionMessage \<Rightarrow> 'o PolicyEnforcer result" where
  "enforcer_decrementNumQueuedWorkOrders e proto =
     and_then (wd_decrementNumQueuedWorkOrders (worker_directory e) (worker_thread_index proto)) (\<lambda>d.
       Inr (e\<lparr>worker_directory := d\<rparr>))"

definition removeQuery :: "'o PolicyEnforcer \<Rightarrow> nat \<Rightarrow> 'o PolicyEnforcer result" where
  "removeQuery e query_id =
     and_then (check CheckFailed (map_of (admitted_queries e) query_id \<noteq> None)) (\<lambda>_.
       Inr (e\<lparr>admitted_queries := filter (\<lambda>(k, _). k \<noteq> query_id) (admitted_queries e)\<rparr>))"

definition admitQuery ::
    "'o operator_interface \<Rightarrow> 'o PolicyEnforcer \<Rightarrow> 'o QueryHandle \<Rightarrow> (bool \<times> 'o PolicyEnforcer) result" where
  "admitQuery I e query_handle =
     (if length (admitted_queries e) < kMaxConcurrentQueries then
        (let query_id = handle_query_id query_handle in
         if map_of (admitted_queries e) query_id = None then
           and_then (QueryManagerSingleNode I (handle_query_plan query_handle) (enforcer_numa_nodes e)) (\<lambda>m.
             Inr (True, e\<lparr>admitted_queries := al_put (admitted_queries e) query_id m\<rparr>))
         else Inr (False, e))
      else Inr (False, e\<lparr>waiting_queries := waiting_queries e @ [query_handle]\<rparr>))"

definition admit_next ::
    "'o operator_interface \<Rightarrow> bool \<times> 'o PolicyEnforcer \<Rightarrow> 'o QueryHandle \<Rightarrow> (bool \<times> 'o PolicyEnforcer) result" where
  "admit_next I s curr_query =
     (let (all_queries_admitted, e) = s in
      if all_queries_admitted then admitQuery I e curr_query
      else Inr (False, e\<lparr>waiting_queries := waiting_queries e @ [curr_query]\<rparr>))"

definition admitQueries ::
    "'o operator_interface \<Rightarrow> 'o PolicyEnforcer \<Rightarrow> 'o QueryHandle list \<Rightarrow> (bool \<times> 'o PolicyEnforcer) result" where
  "admitQueries I e query_handles =
     and_then (check CheckFailed (query_handles \<noteq> [])) (\<lambda>_. fold_res (admit_next I) (True, e) query_handles)"

text \<open>\<^verbatim>\<open>processMessage\<close>: the call of a method of the manager of a query, the handling of a message of each
  type, and what follows the switch.\<close>

definition with_query ::
    "'o PolicyEnforcer \<Rightarrow> nat \<Rightarrow> ('o QueryManager \<Rightarrow> 'o QueryManager result) \<Rightarrow> 'o PolicyEnforcer result" where
  "with_query e query_id f =
     (case map_of (admitted_queries e) query_id of
        None \<Rightarrow> Inl CheckFailed
      | Some m \<Rightarrow> and_then (f m) (\<lambda>m'. Inr (e\<lparr>admitted_queries := al_put (admitted_queries e) query_id m'\<rparr>)))"

definition new_block ::
    "'o PolicyEnforcer \<Rightarrow> int \<Rightarrow> block_id \<Rightarrow> nat option \<Rightarrow> 'o PolicyEnforcer result" where
  "new_block e rel_id block part_id =
     (case catalog_database e rel_id of
        None \<Rightarrow> Inl UndefinedBehaviour
      | Some relation \<Rightarrow>
          (let relation1 = addBlock relation block in
           and_then (case part_id of
               None \<Rightarrow> Inr relation1
             | Some p \<Rightarrow> (case relation_partition_scheme relation1 of
                 None \<Rightarrow> Inl UndefinedBehaviour
               | Some scheme \<Rightarrow> and_then (addBlockToPartition scheme block p) (\<lambda>scheme1.
                   Inr (relation1\<lparr>relation_partition_scheme := Some scheme1\<rparr>))))
             (\<lambda>relation2. Inr (e\<lparr>catalog_database := (catalog_database e)(rel_id \<mapsto> relation2)\<rparr>))))"

definition after_message ::
    "'o operator_interface \<Rightarrow> 'o PolicyEnforcer \<Rightarrow> nat \<Rightarrow> nat \<Rightarrow> 'o PolicyEnforcer result" where
  "after_message I e query_id op_index =
     (case map_of (admitted_queries e) query_id of
        None \<Rightarrow> Inl UndefinedBehaviour
      | Some m \<Rightarrow> and_then (queryStatus m op_index) (\<lambda>status.
          if status = kQueryExecuted then
            and_then (removeQuery e query_id) (\<lambda>e1.
              case waiting_queries e1 of
                [] \<Rightarrow> Inr e1
              | new_query # rest \<Rightarrow>
                  and_then (admitQuery I (e1\<lparr>waiting_queries := rest\<rparr>) new_query) (\<lambda>(_, e2). Inr e2))
          else Inr e))"

definition processMessage ::
    "'o operator_interface \<Rightarrow> 'o PolicyEnforcer \<Rightarrow> 'o TaggedMessage \<Rightarrow> 'o PolicyEnforcer result" where
  "processMessage I e tagged_message =
     (case tagged_message of
        kWorkOrderCompleteMessage proto \<Rightarrow>
          and_then (enforcer_decrementNumQueuedWorkOrders e proto) (\<lambda>e1.
            (let e2 = (if profile_individual_workorders e1 then recordTimeForWorkOrder e1 proto else e1) in
             and_then (with_query e2 (completed_query_id proto)
                 (\<lambda>m. processWorkOrderCompleteMessage I m (operator_index proto))) (\<lambda>e3.
               after_message I e3 (completed_query_id proto) (operator_index proto))))
      | kRebuildWorkOrderCompleteMessage proto \<Rightarrow>
          and_then (enforcer_decrementNumQueuedWorkOrders e proto) (\<lambda>e1.
          and_then (with_query e1 (completed_query_id proto)
              (\<lambda>m. processRebuildWorkOrderCompleteMessage I m (operator_index proto))) (\<lambda>e2.
            after_message I e2 (completed_query_id proto) (operator_index proto)))
      | kCatalogRelationNewBlockMessage rel_id block part_id \<Rightarrow> new_block e rel_id block part_id
      | kDataPipelineMessage query_id op_index block rel_id part_id \<Rightarrow>
          and_then (with_query e query_id (\<lambda>m. processDataPipelineMessage I m op_index block rel_id part_id)) (\<lambda>e1.
            after_message I e1 query_id op_index)
      | kWorkOrderFeedbackMessage query_id op_index msg \<Rightarrow>
          and_then (with_query e query_id (\<lambda>m. processFeedbackMessage I m op_index msg)) (\<lambda>e1.
            after_message I e1 query_id op_index)
      | _ \<Rightarrow> Inl FatalLog)"

text \<open>\<^verbatim>\<open>getWorkerMessages\<close>: the inner loop, with the number of messages that may still be collected; it also
  tells whether the query was found to be finished.\<close>

fun collect_messages :: "nat \<Rightarrow> 'o QueryManager \<Rightarrow> (WorkerMessage list \<times> bool \<times> 'o QueryManager) result" where
  "collect_messages 0 m = Inr ([], False, m)"
| "collect_messages (Suc n) m =
     and_then (getNextWorkerMessage m) (\<lambda>(next_worker_message, m1).
       case next_worker_message of
         Some w \<Rightarrow> and_then (collect_messages n m1) (\<lambda>(ws, is_finished, m2). Inr (w # ws, is_finished, m2))
       | None \<Rightarrow> Inr ([], hasQueryExecutionFinished (query_exec_state m1), m1))"

definition collect_query ::
    "nat \<Rightarrow> WorkerMessage list \<times> nat list \<times> 'o PolicyEnforcer \<Rightarrow> nat \<Rightarrow>
     (WorkerMessage list \<times> nat list \<times> 'o PolicyEnforcer) result" where
  "collect_query per_query_share s query_id =
     (let (worker_messages, finished_queries_ids, e) = s in
      case map_of (admitted_queries e) query_id of
        None \<Rightarrow> Inl UndefinedBehaviour
      | Some m \<Rightarrow> and_then (collect_messages per_query_share m) (\<lambda>(ws, is_finished, m1).
          Inr (worker_messages @ ws,
               if is_finished then finished_queries_ids @ [query_id] else finished_queries_ids,
               e\<lparr>admitted_queries := al_put (admitted_queries e) query_id m1\<rparr>)))"

definition getWorkerMessages ::
    "nat \<Rightarrow> 'o PolicyEnforcer \<Rightarrow> (WorkerMessage list \<times> 'o PolicyEnforcer) result" where
  "getWorkerMessages max_msgs_per_dispatch_round e =
     (if admitted_queries e = [] then Inr ([], e)
      else
        (let per_query_share = max_msgs_per_dispatch_round div length (admitted_queries e) in
         and_then (check CheckFailed (per_query_share > 0)) (\<lambda>_.
         and_then (fold_res (collect_query per_query_share) ([], [], e) (map fst (admitted_queries e)))
           (\<lambda>(worker_messages, finished_queries_ids, e1).
         and_then (fold_res removeQuery e1 finished_queries_ids) (\<lambda>e2. Inr (worker_messages, e2))))))"

end
