(* ===== verification/Foremen.thy ===== *)
theory Foremen
  imports PolicyEnforcers
begin

text \<open>
  The foreman of the single-node scheduler (\<^verbatim>\<open>ForemanSingleNode\<close>) and the workers (\<^verbatim>\<open>Worker\<close>): the body of
  the event loop of the foreman, which lets the policy enforcer handle a message and then dispatches
  work orders to the least loaded workers, and the completion message a worker sends back.

  The message bus is not part of the repository: an iteration of the loop takes the received message
  as its argument and returns what it sends.  The values of the two command line flags are arguments.
\<close>

section \<open>Dispatch\<close>

definition kInvalidRecipientIndexHint :: int where
  "kInvalidRecipientIndexHint = -1"

text \<open>The hint is set by the constructor of the message, and \<^verbatim>\<open>setRecipientHint\<close> is never called.\<close>

definition getRecipientHint :: "WorkerMessage \<Rightarrow> int" where
  "getRecipientHint message = kInvalidRecipientIndexHint"

fun getRelationalOpIndex :: "WorkerMessage \<Rightarrow> nat" where
  "getRelationalOpIndex (WorkOrderMessage w i) = i"
| "getRelationalOpIndex (RebuildWorkOrderMessage w i) = i"

fun is_rebuild_message :: "WorkerMessage \<Rightarrow> bool" where
  "is_rebuild_message (WorkOrderMessage w i) = False"
| "is_rebuild_message (RebuildWorkOrderMessage w i) = True"

text \<open>A sent work order: the index of the worker, its client id, and the message, whose constructor is the
  message type.\<close>

type_synonym sent_message = "nat \<times> nat \<times> WorkerMessage"

definition sendWorkerMessage :: "WorkerDirectory \<Rightarrow> nat \<Rightarrow> WorkerMessage \<Rightarrow> sent_message result" where
  "sendWorkerMessage d worker_index message =
     and_then (getClientID d worker_index) (\<lambda>client. Inr (worker_index, client, message))"

definition dispatch_message ::
    "sent_message list \<times> WorkerDirectory \<Rightarrow> WorkerMessage \<Rightarrow> (sent_message list \<times> WorkerDirectory) result" where
  "dispatch_message s message =
     (let (sent, d) = s; recipient = getRecipientHint message in
      and_then (if recipient \<noteq> kInvalidRecipientIndexHint then Inr (nat recipient)
                else and_then (getLeastLoadedWorker d) (\<lambda>(w, _). Inr w)) (\<lambda>w.
      and_then (sendWorkerMessage d w message) (\<lambda>out.
      and_then (wd_incrementNumQueuedWorkOrders d w) (\<lambda>d1. Inr (sent @ [out], d1)))))"

definition dispatchWorkerMessages ::
    "WorkerDirectory \<Rightarrow> WorkerMessage list \<Rightarrow> (sent_message list \<times> WorkerDirectory) result" where
  "dispatchWorkerMessages d messages = fold_res dispatch_message ([], d) messages"

section \<open>The event loop\<close>

fun is_new_block_message :: "'o TaggedMessage \<Rightarrow> bool" where
  "is_new_block_message (kCatalogRelationNewBlockMessage _ _ _) = True"
| "is_new_block_message _ = False"

definition canCollectNewMessages :: "nat \<Rightarrow> 'o PolicyEnforcer \<Rightarrow> 'o TaggedMessage \<Rightarrow> bool result" where
  "canCollectNewMessages min_load_per_worker e message =
     (if is_new_block_message message then Inr False
      else and_then (getLeastLoadedWorker (worker_directory e)) (\<lambda>(_, load). Inr (load \<le> min_load_per_worker)))"

text \<open>The switch over the type of the message; \<open>None\<close> when the thread returns.\<close>

definition foreman_handle ::
    "'o operator_interface \<Rightarrow> 'o PolicyEnforcer \<Rightarrow> 'o TaggedMessage \<Rightarrow> 'o PolicyEnforcer option result" where
  "foreman_handle I e message =
     (case message of
        kAdmitRequestMessage query_handles \<Rightarrow>
          and_then (check CheckFailed (query_handles \<noteq> [])) (\<lambda>_.
          and_then (if length query_handles = 1 then admitQuery I e (hd query_handles)
                    else admitQueries I e query_handles) (\<lambda>(_, e1). Inr (Some e1)))
      | kPoisonMessage \<Rightarrow> Inr None
      | kOtherMessage \<Rightarrow> Inl FatalLog
      | _ \<Rightarrow> and_then (processMessage I e message) (\<lambda>e1. Inr (Some e1)))"

definition foreman_collect ::
    "nat \<Rightarrow> nat \<Rightarrow> 'o PolicyEnforcer \<Rightarrow> 'o TaggedMessage \<Rightarrow> (sent_message list \<times> 'o PolicyEnforcer) result" where
  "foreman_collect max_msgs min_load e message =
     and_then (canCollectNewMessages min_load e message) (\<lambda>can_collect.
       if can_collect then
         and_then (getWorkerMessages max_msgs e) (\<lambda>(new_messages, e1).
         and_then (dispatchWorkerMessages (worker_directory e1) new_messages) (\<lambda>(sent, d).
           Inr (sent, e1\<lparr>worker_directory := d\<rparr>)))
       else Inr ([], e))"

text \<open>An iteration: the sent work orders, whether the main thread is told that there are no more queries,
  and the new state; \<open>None\<close> when the thread returns.\<close>

definition foreman_iteration ::
    "nat \<Rightarrow> nat \<Rightarrow> 'o operator_interface \<Rightarrow> 'o PolicyEnforcer \<Rightarrow> 'o TaggedMessage \<Rightarrow>
     (sent_message list \<times> bool \<times> 'o PolicyEnforcer) option result" where
  "foreman_iteration max_msgs min_load I e message =
     and_then (foreman_handle I e message) (\<lambda>r.
       case r of
         None \<Rightarrow> Inr None
       | Some e1 \<Rightarrow> and_then (foreman_collect max_msgs min_load e1 message) (\<lambda>(sent, e2).
           Inr (Some (sent, \<not> hasQueries e2, e2))))"

section \<open>Workers\<close>

text \<open>\<^verbatim>\<open>executeWorkOrderHelper\<close>: the query and the partition of the work order and the two clock readings are
  arguments; the execution of the work order itself is left out.\<close>

definition executeWorkOrderHelper ::
    "nat \<Rightarrow> WorkerMessage \<Rightarrow> nat \<Rightarrow> nat \<Rightarrow> nat \<Rightarrow> nat \<Rightarrow> bool \<Rightarrow> WorkOrderCompletionMessage" where
  "executeWorkOrderHelper worker_index message query_id part_id start_us end_us is_rebuild_work_order =
     \<lparr>work_order_type = (if is_rebuild_work_order then REBUILD else NORMAL),
      operator_index = getRelationalOpIndex message, worker_thread_index = worker_index,
      completed_query_id = query_id, completed_partition_id = part_id,
      execution_start_time = start_us, execution_end_time = end_us\<rparr>"

text \<open>The reaction of a worker to a work order.\<close>

definition worker_reply :: "nat \<Rightarrow> WorkerMessage \<Rightarrow> nat \<Rightarrow> nat \<Rightarrow> nat \<Rightarrow> nat \<Rightarrow> 'o TaggedMessage" where
  "worker_reply worker_index message query_id part_id start_us end_us =
     (if is_rebuild_message message then
        kRebuildWorkOrderCompleteMessage
          (executeWorkOrderHelper worker_index message query_id part_id start_us end_us True)
      else kWorkOrderCompleteMessage
          (executeWorkOrderHelper worker_index message query_id part_id start_us end_us False))"

end
