(* ===== verification/ForemanRuns.thy ===== *)
theory ForemanRuns
  imports Foremen
begin

text \<open>
  Runs of the scheduler: the foreman together with the work orders that are on their way to the workers,
  in execution, or whose completion has not been processed yet.  The counters of the worker directory
  and of the query managers agree with these work orders in every state, queries are removed only
  when nothing of them is in flight, and the work is spread evenly.
\<close>

section \<open>Work orders in flight\<close>

text \<open>A work order in flight: the worker, the query and the message.\<close>

type_synonym in_flight = "(nat \<times> nat \<times> WorkerMessage) multiset"

definition sent_to :: "in_flight \<Rightarrow> nat \<Rightarrow> nat" where
  "sent_to F w = size {#x \<in># F. fst x = w#}"

definition of_operator :: "in_flight \<Rightarrow> bool \<Rightarrow> nat \<Rightarrow> nat" where
  "of_operator F rebuild i =
     size {#x \<in># F. is_rebuild_message (snd (snd x)) = rebuild \<and> getRelationalOpIndex (snd (snd x)) = i#}"

lemma counts_empty [simp]: "sent_to {#} w = 0" "of_operator {#} b i = 0"
  by (simp_all add: sent_to_def of_operator_def)

lemma counts_add [simp]:
  "sent_to (add_mset x F) w = sent_to F w + (if fst x = w then 1 else 0)"
  "of_operator (add_mset x F) b i = of_operator F b i
     + (if is_rebuild_message (snd (snd x)) = b \<and> getRelationalOpIndex (snd (snd x)) = i then 1 else 0)"
  by (simp_all add: sent_to_def of_operator_def)

definition directory_agrees :: "WorkerDirectory \<Rightarrow> in_flight \<Rightarrow> bool" where
  "directory_agrees d F \<longleftrightarrow> directory_inv d \<and> (\<forall>x \<in># F. fst x < num_workers d)
     \<and> (\<forall>w < num_workers d. num_queued_workorders d ! w = sent_to F w)"

definition manager_agrees :: "plan \<Rightarrow> nat \<Rightarrow> 'o QueryManager \<Rightarrow> in_flight \<Rightarrow> bool" where
  "manager_agrees p q m F \<longleftrightarrow> qm_inv p m
     \<and> (\<forall>i < length p. queued m i = of_operator F False i \<and> rebuilding m i = int (of_operator F True i))
     \<and> (\<forall>x \<in># F. fst (snd x) = q \<and> getRelationalOpIndex (snd (snd x)) < length p)"

definition queries_agree :: "(nat \<times> 'o QueryManager) list \<Rightarrow> in_flight \<Rightarrow> bool" where
  "queries_agree qs F \<longleftrightarrow> qs = [] \<and> F = {#} \<or> (\<exists>q m p. qs = [(q, m)] \<and> manager_agrees p q m F)"

definition enforcer_agrees :: "'o PolicyEnforcer \<Rightarrow> in_flight \<Rightarrow> bool" where
  "enforcer_agrees e F \<longleftrightarrow> directory_agrees (worker_directory e) F \<and> queries_agree (admitted_queries e) F
     \<and> (\<forall>h \<in> set (waiting_queries e). dag_wf (handle_query_plan h))"

lemma queries_agree_lookup:
  assumes "queries_agree qs F" and "map_of qs q = Some m"
  obtains p where "qs = [(q, m)]" "manager_agrees p q m F"
  using assms by (auto simp: queries_agree_def split: if_splits)

section \<open>Admission and removal\<close>

lemma admitQuery_agrees:
  assumes e: "enforcer_agrees e F" and wf: "dag_wf (handle_query_plan h)" and f: "admitQuery I e h = Inr (b, e')"
  shows "enforcer_agrees e' F"
proof (cases "admitted_queries e = []")
  case True
  then obtain m where m: "QueryManagerSingleNode I (handle_query_plan h) (enforcer_numa_nodes e) = Inr m"
    "e' = e\<lparr>admitted_queries := [(handle_query_id h, m)]\<rparr>"
    using f by (auto simp: admitQuery_def kMaxConcurrentQueries_def Let_def res_simps)
  have "F = {#}" using e True by (simp add: enforcer_agrees_def queries_agree_def)
  then have "manager_agrees (plan_of (handle_query_plan h)) (handle_query_id h) m F"
    using constructor_spec [OF wf m(1)] by (simp add: manager_agrees_def)
  then show ?thesis using e m(2) unfolding enforcer_agrees_def queries_agree_def by auto
next
  case False
  then show ?thesis using e wf f by (auto simp: admitQuery_def kMaxConcurrentQueries_def enforcer_agrees_def)
qed

lemma admitQueries_agrees:
  assumes e: "enforcer_agrees e F" and wf: "\<And>h. h \<in> set hs \<Longrightarrow> dag_wf (handle_query_plan h)"
    and f: "admitQueries I e hs = Inr (b, e')"
  shows "enforcer_agrees e' F"
proof -
  have run: "fold_res (admit_next I) (True, e) hs = Inr (b, e')" using f by (auto simp: admitQueries_def res_simps)
  have step: "enforcer_agrees (snd s') F" if "h \<in> set hs" "enforcer_agrees (snd s) F" "admit_next I s h = Inr s'" for s h s'
    using that wf [OF that(1)] admitQuery_agrees [of "snd s" F h I "fst s'" "snd s'"]
    by (auto simp: admit_next_def Let_def enforcer_agrees_def split: prod.splits if_splits)
  have "enforcer_agrees (snd (b, e')) F"
    by (rule fold_res_invariant [where P = "\<lambda>s. enforcer_agrees (snd s) F", OF step _ run]) (use e in simp_all)
  then show ?thesis by simp
qed

text \<open>A query that has finished has nothing in flight.\<close>

lemma finished_nothing_in_flight:
  assumes m: "manager_agrees p q m F" and fin: "hasQueryExecutionFinished (query_exec_state m)"
  shows "F = {#}"
proof (rule ccontr)
  assume "F \<noteq> {#}"
  then obtain x F' where x: "F = add_mset x F'" by (meson multiset_cases)
  define i where "i = getRelationalOpIndex (snd (snd x))"
  have inv: "qm_inv p m" and i: "i < length p" using m x by (auto simp: manager_agrees_def i_def)
  have "finished m i" using query_finished_iff [OF inv] fin i by simp
  then have "queued m i = 0" "rebuilding m i = 0"
    using qm_invD(3) [OF inv i] by (auto simp: operator_ok_def idle_def normal_over_def rebuilding_def)
  moreover have "queued m i = of_operator F False i" "rebuilding m i = int (of_operator F True i)"
    using m i by (auto simp: manager_agrees_def)
  ultimately show False by (cases "is_rebuild_message (snd (snd x))") (simp_all add: x i_def)
qed

lemma after_message_agrees:
  assumes e: "enforcer_agrees e F" and f: "after_message I e q i = Inr e'"
  shows "enforcer_agrees e' F"
proof -
  obtain m s where m: "map_of (admitted_queries e) q = Some m" "queryStatus m i = Inr s"
    using f by (auto simp: after_message_def res_simps split: option.splits)
  obtain p where p: "admitted_queries e = [(q, m)]" "manager_agrees p q m F"
    using queries_agree_lookup [OF _ m(1)] e by (auto simp: enforcer_agrees_def)
  show ?thesis
  proof (cases "s = kQueryExecuted")
    case True
    then have "hasQueryExecutionFinished (query_exec_state m)"
      using m(2) by (auto simp: queryStatus_def res_simps split: if_splits)
    then have F: "F = {#}" by (rule finished_nothing_in_flight [OF p(2)])
    have e1: "enforcer_agrees (e\<lparr>admitted_queries := [], waiting_queries := ws\<rparr>) F"
      if "set ws \<subseteq> set (waiting_queries e)" for ws
      using e that F by (auto simp: enforcer_agrees_def queries_agree_def)
    show ?thesis
    proof (cases "waiting_queries e")
      case Nil
      moreover have "enforcer_agrees (e\<lparr>admitted_queries := []\<rparr>) F"
        using e F by (simp add: enforcer_agrees_def queries_agree_def)
      ultimately show ?thesis using f True m p(1) by (auto simp: after_message_def removeQuery_def res_simps)
    next
      case (Cons h ws)
      then obtain b where "admitQuery I (e\<lparr>admitted_queries := [], waiting_queries := ws\<rparr>) h = Inr (b, e')"
        using f True m p(1) by (auto simp: after_message_def removeQuery_def res_simps)
      then show ?thesis by (rule admitQuery_agrees [OF e1, rotated 2]) (use e Cons in \<open>auto simp: enforcer_agrees_def\<close>)
    qed
  next
    case False
    then show ?thesis using f m e by (simp add: after_message_def)
  qed
qed

section \<open>Messages of the workers\<close>

lemma with_query_agrees:
  assumes q: "queries_agree qs F" and m: "map_of qs q = Some m"
    and step: "\<And>p. manager_agrees p q m F \<Longrightarrow> manager_agrees p q m' F'"
  shows "queries_agree (al_put qs q m') F'"
  using queries_agree_lookup [OF q m] step unfolding queries_agree_def by (metis al_put.simps(2))

lemma same_executing_agrees:
  "manager_agrees p q m F \<Longrightarrow> qm_inv p m' \<and> same_executing p m m' \<Longrightarrow> manager_agrees p q m' F"
  by (simp add: manager_agrees_def same_executing_def)

lemma complete_agrees:
  assumes m: "manager_agrees p q m (add_mset (w, q, WorkOrderMessage wo i) F)"
    and f: "processWorkOrderCompleteMessage I m i = Inr m'"
  shows "manager_agrees p q m' F"
  using m complete_spec [OF _ f, of p] by (auto simp: manager_agrees_def)

lemma rebuild_complete_agrees:
  assumes m: "manager_agrees p q m (add_mset (w, q, RebuildWorkOrderMessage wo i) F)"
    and f: "processRebuildWorkOrderCompleteMessage I m i = Inr m'"
  shows "manager_agrees p q m' F"
  using m rebuild_complete_spec [OF _ f, of p] by (auto simp: manager_agrees_def)

lemma feedback_agrees:
  assumes m: "manager_agrees p q m F" and x: "(w, q, WorkOrderMessage wo i) \<in># F"
    and f: "processFeedbackMessage I m i msg = Inr m'"
  shows "manager_agrees p q m' F"
proof -
  obtain F' where F: "F = add_mset (w, q, WorkOrderMessage wo i) F'" using x by (meson multi_member_split)
  have "i < length p" "0 < queued m i" using m by (auto simp: manager_agrees_def F)
  then show ?thesis using feedback_inv [OF _ f] same_executing_agrees [OF m] m by (auto simp: manager_agrees_def)
qed

lemma decrement_agrees:
  assumes d: "directory_agrees d (add_mset (w, x) F)"
  shows "\<exists>d'. wd_decrementNumQueuedWorkOrders d w = Inr d' \<and> directory_agrees d' F"
proof -
  have w: "w < num_workers d" "0 < num_queued_workorders d ! w" and inv: "directory_inv d" using d by (auto simp: directory_agrees_def)
  show ?thesis unfolding wd_decrement_spec [OF inv w]
    using d w(1) by (auto simp: directory_agrees_def directory_inv_def nth_list_update)
qed

text \<open>The messages that can arrive, with the work orders in flight before and after: requests of the main
  thread; the completion of a work order, and feedback while it is in execution; blocks of output.\<close>

inductive arrives :: "in_flight \<Rightarrow> 'o TaggedMessage \<Rightarrow> in_flight \<Rightarrow> bool" where
  admit: "\<forall>h \<in> set hs. dag_wf (handle_query_plan h) \<Longrightarrow> arrives F (kAdmitRequestMessage hs) F"
| completion: "arrives (add_mset (w, q, msg) F) (worker_reply w msg q part start_us end_us) F"
| feedback_of: "(w, q, WorkOrderMessage wo i) \<in># F \<Longrightarrow> arrives F (kWorkOrderFeedbackMessage q i x) F"
| output_block: "arrives F (kDataPipelineMessage q i block rel part_id) F"
| relation_block: "arrives F (kCatalogRelationNewBlockMessage rel block opt_part) F"

lemma with_query_cases:
  assumes "with_query e q f = Inr e'"
  obtains m m' where "map_of (admitted_queries e) q = Some m" "f m = Inr m'"
    "e' = e\<lparr>admitted_queries := al_put (admitted_queries e) q m'\<rparr>"
  using assms by (auto simp: with_query_def res_simps split: option.splits)

text \<open>A message for a manager, followed by the test whether the query has been executed.\<close>

lemma query_message_agrees:
  assumes e: "queries_agree (admitted_queries e) F" "directory_agrees (worker_directory e) F'"
      "\<forall>h \<in> set (waiting_queries e). dag_wf (handle_query_plan h)"
    and f: "and_then (with_query e q f) (\<lambda>e1. after_message I e1 q i) = Inr e'"
    and step: "\<And>p m m'. manager_agrees p q m F \<Longrightarrow> f m = Inr m' \<Longrightarrow> manager_agrees p q m' F'"
  shows "enforcer_agrees e' F'"
proof -
  obtain e1 where e1: "with_query e q f = Inr e1" "after_message I e1 q i = Inr e'" using f by (auto simp: res_simps)
  obtain m m' where m: "map_of (admitted_queries e) q = Some m" "f m = Inr m'"
    "e1 = e\<lparr>admitted_queries := al_put (admitted_queries e) q m'\<rparr>" by (rule with_query_cases [OF e1(1)])
  have "queries_agree (admitted_queries e1) F'" using with_query_agrees [OF e(1) m(1)] step m(2,3) by simp
  then have "enforcer_agrees e1 F'" using e(2,3) m(3) by (simp add: enforcer_agrees_def)
  then show ?thesis using after_message_agrees e1(2) by blast
qed

lemma new_block_agrees: "enforcer_agrees e F \<Longrightarrow> new_block e rel block part = Inr e' \<Longrightarrow> enforcer_agrees e' F"
  by (auto simp: new_block_def Let_def res_simps enforcer_agrees_def split: option.splits)

lemma record_time_simps [simp]:
  "admitted_queries (recordTimeForWorkOrder e proto) = admitted_queries e"
  "waiting_queries (recordTimeForWorkOrder e proto) = waiting_queries e"
  "worker_directory (recordTimeForWorkOrder e proto) = worker_directory e"
  by (simp_all add: recordTimeForWorkOrder_def Let_def)

lemma completion_agrees:
  assumes e: "enforcer_agrees e (add_mset (w, q, msg) F)"
    and f: "processMessage I e (worker_reply w msg q part start_us end_us) = Inr e'"
  shows "enforcer_agrees e' F"
proof -
  obtain d where d: "wd_decrementNumQueuedWorkOrders (worker_directory e) w = Inr d" "directory_agrees d F"
    using decrement_agrees [of "worker_directory e" w "(q, msg)" F] e by (auto simp: enforcer_agrees_def)
  note hyps = e [unfolded enforcer_agrees_def]
  show ?thesis
  proof (cases msg)
    case (WorkOrderMessage wo i)
    define e2 where "e2 = (if profile_individual_workorders e
      then recordTimeForWorkOrder (e\<lparr>worker_directory := d\<rparr>) (executeWorkOrderHelper w msg q part start_us end_us False)
      else e\<lparr>worker_directory := d\<rparr>)"
    have same: "admitted_queries e2 = admitted_queries e" "waiting_queries e2 = waiting_queries e" "worker_directory e2 = d"
      by (simp_all add: e2_def)
    have "and_then (with_query e2 q (\<lambda>m. processWorkOrderCompleteMessage I m i)) (\<lambda>e3. after_message I e3 q i) = Inr e'"
      using f d(1) WorkOrderMessage by (simp add: processMessage_def worker_reply_def executeWorkOrderHelper_def
          enforcer_decrementNumQueuedWorkOrders_def e2_def Let_def split: if_splits)
    then show ?thesis
      by (rule query_message_agrees [where F = "add_mset (w, q, msg) F", rotated 3])
        (use hyps same d(2) complete_agrees WorkOrderMessage in auto)
  next
    case (RebuildWorkOrderMessage wo i)
    have "and_then (with_query (e\<lparr>worker_directory := d\<rparr>) q (\<lambda>m. processRebuildWorkOrderCompleteMessage I m i))
        (\<lambda>e3. after_message I e3 q i) = Inr e'"
      using f d(1) RebuildWorkOrderMessage by (simp add: processMessage_def worker_reply_def executeWorkOrderHelper_def
          enforcer_decrementNumQueuedWorkOrders_def)
    then show ?thesis
      by (rule query_message_agrees [where F = "add_mset (w, q, msg) F", rotated 3])
        (use hyps d(2) rebuild_complete_agrees RebuildWorkOrderMessage in auto)
  qed
qed

lemma handle_agrees:
  assumes "arrives F message F'" and e: "enforcer_agrees e F" and f: "foreman_handle I e message = Inr (Some e')"
  shows "enforcer_agrees e' F'"
  using assms(1)
proof cases
  case (admit hs)
  then show ?thesis
    using f e admitQuery_agrees [of e F "hd hs" I _ e'] admitQueries_agrees [of e F hs I _ e']
    by (auto simp: foreman_handle_def res_simps split: if_splits)
next
  case (completion w q msg part start_us end_us)
  then have "processMessage I e message = Inr e'"
    using f by (auto simp: foreman_handle_def worker_reply_def res_simps split: if_splits)
  then show ?thesis using completion_agrees e completion by blast
next
  case (feedback_of w q wo i x)
  then have "and_then (with_query e q (\<lambda>m. processFeedbackMessage I m i x)) (\<lambda>e1. after_message I e1 q i) = Inr e'"
    using f by (auto simp: foreman_handle_def processMessage_def res_simps)
  then show ?thesis
    by (rule query_message_agrees [where F = F, rotated 3])
      (use e feedback_of feedback_agrees in \<open>auto simp: enforcer_agrees_def\<close>)
next
  case (output_block q i block rel part_id)
  then have "and_then (with_query e q (\<lambda>m. processDataPipelineMessage I m i block rel part_id)) (\<lambda>e1. after_message I e1 q i) = Inr e'"
    using f by (auto simp: foreman_handle_def processMessage_def res_simps)
  then show ?thesis
  proof (rule query_message_agrees [where F = F, rotated 3])
    show "manager_agrees p q m' F'" if "manager_agrees p q m F" "processDataPipelineMessage I m i block rel part_id = Inr m'" for p m m'
      using that same_executing_agrees [OF that(1)] data_pipeline_inv [OF _ that(2)] output_block(2) by (auto simp: manager_agrees_def)
  qed (use e output_block in \<open>auto simp: enforcer_agrees_def\<close>)
next
  case (relation_block rel block opt_part)
  then show ?thesis using f e new_block_agrees by (auto simp: foreman_handle_def processMessage_def res_simps)
qed

section \<open>Collection and dispatch of work orders\<close>

text \<open>The work orders of a query that were sent.\<close>

definition flying :: "nat \<Rightarrow> sent_message list \<Rightarrow> in_flight" where
  "flying q sent = mset (map (\<lambda>(w, client, msg). (w, q, msg)) sent)"

lemma flying_simps [simp]:
  "flying q [] = {#}" "flying q ((w, client, msg) # sent) = add_mset (w, q, msg) (flying q sent)"
  by (simp_all add: flying_def)

lemma next_message_agrees:
  assumes m: "manager_agrees p q m F" and f: "getNextWorkerMessage m = Inr (Some msg, m')"
  shows "manager_agrees p q m' (add_mset (w, q, msg) F)"
proof -
  have "qm_inv p m" using m by (simp add: manager_agrees_def)
  from next_message_spec [OF this f] show ?thesis using m by (cases msg) (auto simp: manager_agrees_def)
qed

lemma collect_messages_agrees:
  assumes "manager_agrees p q m F" and "collect_messages n m = Inr (ws, fin, m')" and "map (snd \<circ> snd) sent = ws"
  shows "manager_agrees p q m' (F + flying q sent) \<and> (fin \<longrightarrow> hasQueryExecutionFinished (query_exec_state m')) \<and> length ws \<le> n"
  using assms
proof (induction n arbitrary: m F ws sent)
  case 0
  then show ?case by simp
next
  case (Suc n)
  obtain r m1 where r: "getNextWorkerMessage m = Inr (r, m1)" using Suc.prems(2) by (auto simp: res_simps)
  show ?case
  proof (cases r)
    case None
    then show ?thesis using Suc.prems r next_message_spec [of p m r m1] by (auto simp: manager_agrees_def)
  next
    case (Some msg)
    then obtain ws1 where ws: "collect_messages n m1 = Inr (ws1, fin, m')" "ws = msg # ws1"
      using Suc.prems(2) r by (auto simp: res_simps)
    obtain w client sent1 where s: "sent = (w, client, msg) # sent1" "map (snd \<circ> snd) sent1 = ws1"
      using Suc.prems(3) ws(2) by (auto simp: map_eq_Cons_conv)
    have "manager_agrees p q m1 (add_mset (w, q, msg) F)" using next_message_agrees [OF Suc.prems(1)] r Some by simp
    from Suc.IH [OF this ws(1) s(2)] show ?thesis using ws(2) s(1) by simp
  qed
qed

text \<open>The messages collected in a round: at most the given number; sending them keeps the agreement.\<close>

lemma getWorkerMessages_agrees:
  assumes q: "queries_agree (admitted_queries e) F" and f: "getWorkerMessages n e = Inr (ws, e')" and s: "map (snd \<circ> snd) sent = ws"
  shows "queries_agree (admitted_queries e') (F + flying (fst (hd (admitted_queries e))) sent)
    \<and> waiting_queries e' = waiting_queries e \<and> worker_directory e' = worker_directory e \<and> length ws \<le> n"
proof (cases "admitted_queries e = []")
  case True
  then show ?thesis using assms by (auto simp: getWorkerMessages_def)
next
  case False
  then obtain k m p where k: "admitted_queries e = [(k, m)]" "manager_agrees p k m F" using q by (auto simp: queries_agree_def)
  then obtain fin m1 where c: "collect_messages n m = Inr (ws, fin, m1)"
    "e' = e\<lparr>admitted_queries := (if fin then [] else [(k, m1)])\<rparr>"
    using f by (auto simp: getWorkerMessages_def collect_query_def removeQuery_def Let_def res_simps split: if_splits)
  note agrees = collect_messages_agrees [OF k(2) c(1) s]
  show ?thesis
  proof (cases fin)
    case True
    then have "F + flying k sent = {#}" using finished_nothing_in_flight agrees by blast
    then show ?thesis using True c(2) k(1) agrees by (simp add: queries_agree_def)
  next
    case False
    then show ?thesis using c(2) k(1) agrees by (auto simp: queries_agree_def)
  qed
qed

text \<open>The dispatch always succeeds; loads that differ by at most \<open>k\<close> still do so afterwards.\<close>

definition balanced :: "nat \<Rightarrow> WorkerDirectory \<Rightarrow> bool" where
  "balanced k d \<longleftrightarrow> (\<forall>v < num_workers d. \<forall>w < num_workers d. num_queued_workorders d ! v \<le> num_queued_workorders d ! w + k)"

lemma dispatch_message_spec:
  assumes inv: "directory_inv d"
  obtains w client d' where "dispatch_message (sent, d) msg = Inr (sent @ [(w, client, msg)], d')" "directory_inv d'" "w < num_workers d"
    "num_workers d' = num_workers d" "client_ids d' = client_ids d" "client = client_ids d ! w"
    "num_queued_workorders d' = (num_queued_workorders d)[w := num_queued_workorders d ! w + 1]"
    "\<And>v. v < num_workers d \<Longrightarrow> num_queued_workorders d ! w \<le> num_queued_workorders d ! v"
proof -
  obtain w where w: "getLeastLoadedWorker d = Inr (w, num_queued_workorders d ! w)" "w < num_workers d"
    "\<And>j. j < num_workers d \<Longrightarrow> num_queued_workorders d ! w \<le> num_queued_workorders d ! j"
    by (rule getLeastLoadedWorker_spec [OF inv]) (rule that)
  let ?d = "d\<lparr>num_queued_workorders := (num_queued_workorders d)[w := num_queued_workorders d ! w + 1]\<rparr>"
  have "dispatch_message (sent, d) msg = Inr (sent @ [(w, client_ids d ! w, msg)], ?d)"
    using w(1,2) inv wd_increment_spec [OF inv w(2)]
    by (simp add: dispatch_message_def getRecipientHint_def sendWorkerMessage_def getClientID_def check_worker_def directory_inv_def)
  then show ?thesis by (rule that) (use inv w(2,3) in \<open>simp_all add: directory_inv_def\<close>)
qed

lemma dispatch_spec:
  assumes "directory_inv d" and "1 \<le> k"
  shows "\<exists>sent d'. fold_res dispatch_message (sent0, d) ws = Inr (sent0 @ sent, d') \<and> map (snd \<circ> snd) sent = ws
    \<and> (\<forall>F. directory_agrees d F \<longrightarrow> directory_agrees d' (F + flying q sent))
    \<and> num_workers d' = num_workers d \<and> client_ids d' = client_ids d
    \<and> (\<forall>(w, client, msg) \<in> set sent. w < num_workers d \<and> client = client_ids d ! w)
    \<and> (balanced k d \<longrightarrow> balanced k d')"
  using assms
proof (induction ws arbitrary: d sent0)
  case Nil
  then show ?case by simp
next
  case (Cons msg ws)
  obtain w client d1 where s: "dispatch_message (sent0, d) msg = Inr (sent0 @ [(w, client, msg)], d1)" "directory_inv d1" "w < num_workers d"
    "num_workers d1 = num_workers d" "client_ids d1 = client_ids d" "client = client_ids d ! w"
    "num_queued_workorders d1 = (num_queued_workorders d)[w := num_queued_workorders d ! w + 1]"
    "\<And>v. v < num_workers d \<Longrightarrow> num_queued_workorders d ! w \<le> num_queued_workorders d ! v"
    by (rule dispatch_message_spec [OF Cons.prems(1)]) (rule that)
  have "length (num_queued_workorders d) = num_workers d" using Cons.prems(1) by (simp add: directory_inv_def)
  note upd = s(2-8) this
  have agrees: "directory_agrees d1 (add_mset (w, q, msg) F)" if "directory_agrees d F" for F
    using that upd by (auto simp: directory_agrees_def nth_list_update)
  have balanced: "balanced k d1" if "balanced k d"
    using that upd Cons.prems(2) unfolding balanced_def by (fastforce simp: nth_list_update)
  obtain sent d2 where r: "fold_res dispatch_message (sent0 @ [(w, client, msg)], d1) ws = Inr ((sent0 @ [(w, client, msg)]) @ sent, d2)"
    "map (snd \<circ> snd) sent = ws" "\<forall>F. directory_agrees d1 F \<longrightarrow> directory_agrees d2 (F + flying q sent)" "num_workers d2 = num_workers d1"
    "client_ids d2 = client_ids d1" "\<forall>(w, client, msg) \<in> set sent. w < num_workers d1 \<and> client = client_ids d1 ! w"
    "balanced k d1 \<longrightarrow> balanced k d2"
    using Cons.IH [OF s(2) Cons.prems(2), of "sent0 @ [(w, client, msg)]"] by blast
  have "directory_agrees d2 (add_mset (w, q, msg) (F + flying q sent))" if "directory_agrees d F" for F
    using agrees [OF that] r(3) by fastforce
  then show ?case
    by (intro exI [of _ "(w, client, msg) # sent"] exI [of _ d2]) (use r s balanced in \<open>simp add: comp_def\<close>)
qed

lemma collect_agrees:
  assumes e: "enforcer_agrees e F" and f: "foreman_collect max_msgs min_load e message = Inr (sent, e')"
  shows "enforcer_agrees e' (F + flying (fst (hd (admitted_queries e))) sent)"
proof (cases "canCollectNewMessages min_load e message = Inr True")
  case True
  then obtain ws e1 d where g: "getWorkerMessages max_msgs e = Inr (ws, e1)"
    "dispatchWorkerMessages (worker_directory e1) ws = Inr (sent, d)" "e' = e1\<lparr>worker_directory := d\<rparr>"
    using f by (auto simp: foreman_collect_def res_simps)
  have q: "queries_agree (admitted_queries e) F" and d: "directory_agrees (worker_directory e) F"
    using e by (simp_all add: enforcer_agrees_def)
  have same: "waiting_queries e1 = waiting_queries e" "worker_directory e1 = worker_directory e"
    using getWorkerMessages_agrees [OF q g(1), of "map (\<lambda>w. (0, 0, w)) ws"] by (simp_all add: comp_def)
  have s: "map (snd \<circ> snd) sent = ws" "directory_agrees d (F + flying (fst (hd (admitted_queries e))) sent)"
    using dispatch_spec [of "worker_directory e" 1 "[]" ws "fst (hd (admitted_queries e))"] d g(2) same
    by (auto simp: dispatchWorkerMessages_def directory_agrees_def [of "worker_directory e"])
  show ?thesis using getWorkerMessages_agrees [OF q g(1) s(1)] s(2) e g(3) by (simp add: enforcer_agrees_def)
next
  case False
  then show ?thesis using f e by (auto simp: foreman_collect_def res_simps)
qed

section \<open>Runs\<close>

inductive scheduler_run :: "'o operator_interface \<Rightarrow> nat \<Rightarrow> nat \<Rightarrow> 'o PolicyEnforcer \<Rightarrow> in_flight \<Rightarrow> bool"
  for I :: "'o operator_interface" and max_msgs :: nat and min_load :: nat where
  start: "new_WorkerDirectory n cids numas = Inr d \<Longrightarrow>
    scheduler_run I max_msgs min_load (new_PolicyEnforcer profile catalog numa_nodes d) {#}"
| iterate: "scheduler_run I max_msgs min_load e F \<Longrightarrow> arrives F message F1 \<Longrightarrow>
    foreman_handle I e message = Inr (Some e1) \<Longrightarrow>
    foreman_iteration max_msgs min_load I e message = Inr (Some (sent, signalled, e2)) \<Longrightarrow>
    scheduler_run I max_msgs min_load e2 (F1 + flying (fst (hd (admitted_queries e1))) sent)"

lemma iteration_agrees:
  assumes e: "enforcer_agrees e F" and a: "arrives F message F1" and h: "foreman_handle I e message = Inr (Some e1)"
    and f: "foreman_iteration max_msgs min_load I e message = Inr (Some (sent, signalled, e2))"
  shows "enforcer_agrees e2 (F1 + flying (fst (hd (admitted_queries e1))) sent)"
proof -
  have "foreman_collect max_msgs min_load e1 message = Inr (sent, e2)" using f h by (auto simp: foreman_iteration_def res_simps)
  then show ?thesis using collect_agrees handle_agrees [OF a e h] by blast
qed

lemma scheduler_run_agrees: "scheduler_run I max_msgs min_load e F \<Longrightarrow> enforcer_agrees e F"
proof (induction rule: scheduler_run.induct)
  case (start n cids numas d profile catalog numa_nodes)
  have "num_queued_workorders d = replicate (num_workers d) 0"
    using start by (auto simp: new_WorkerDirectory_def res_simps)
  then show ?case using directory_inv_new [OF start]
    by (simp add: enforcer_agrees_def new_PolicyEnforcer_def queries_agree_def directory_agrees_def)
next
  case (iterate e F message F1 e1 sent signalled e2)
  then show ?case using iteration_agrees by blast
qed

text \<open>C3. In every state of a run of the scheduler at most one query is admitted, and all counters agree with the
  work orders in flight: the load of every worker in the directory is the number of work orders sent
  to it and not yet completed, and for every operator of the admitted query the counters of normal
  and of rebuild work orders are the numbers of its work orders in flight.\<close>

theorem in_flight_accounting:
  assumes "scheduler_run I max_msgs min_load e F"
  shows "length (admitted_queries e) \<le> 1
    \<and> (\<forall>w < num_workers (worker_directory e). num_queued_workorders (worker_directory e) ! w = sent_to F w)
    \<and> (\<forall>(q, m) \<in> set (admitted_queries e). \<forall>i < dag_size (query_dag m).
         queued m i = of_operator F False i \<and> rebuilding m i = int (of_operator F True i))"
proof -
  note agrees = scheduler_run_agrees [OF assms]
  have "length p = dag_size (query_dag m)" if "qm_inv p m" for p and m :: "'a QueryManager"
    using that by (auto simp: qm_inv_def qm_shape_def)
  then show ?thesis using agrees by (auto simp: enforcer_agrees_def directory_agrees_def queries_agree_def manager_agrees_def)
qed

text \<open>C4. No completion message is lost or refused: when a work order in flight is completed, its query is
  still admitted, and neither the counter of the worker nor that of the operator underflows.\<close>

theorem completion_accepted:
  assumes "scheduler_run I max_msgs min_load e F" and "(w, q, msg) \<in># F"
  shows "\<exists>m d st. map_of (admitted_queries e) q = Some m
    \<and> wd_decrementNumQueuedWorkOrders (worker_directory e) w = Inr d
    \<and> (if is_rebuild_message msg then decrementNumRebuildWorkOrders (query_exec_state m) (getRelationalOpIndex msg)
       else decrementNumQueuedWorkOrders (query_exec_state m) (getRelationalOpIndex msg)) = Inr st"
proof -
  note agrees = scheduler_run_agrees [OF assms(1), unfolded enforcer_agrees_def]
  obtain F' where F: "F = add_mset (w, q, msg) F'" using assms(2) by (meson multi_member_split)
  obtain d where d: "wd_decrementNumQueuedWorkOrders (worker_directory e) w = Inr d" using decrement_agrees agrees F by blast
  obtain m p where m: "admitted_queries e = [(q, m)]" "manager_agrees p q m F"
    using agrees F by (auto simp: queries_agree_def manager_agrees_def)
  define i where "i = getRelationalOpIndex msg"
  have inv: "qm_inv p m" and i: "i < length p" using m(2) F by (auto simp: manager_agrees_def i_def)
  note sh = qm_shapeD [OF qm_invD(1) [OF inv]]
  have counts: "queued m i = of_operator F False i" "rebuilding m i = int (of_operator F True i)"
    using m(2) i by (auto simp: manager_agrees_def)
  obtain st where "(if is_rebuild_message msg then decrementNumRebuildWorkOrders (query_exec_state m) i
       else decrementNumQueuedWorkOrders (query_exec_state m) i) = Inr st"
  proof (cases "is_rebuild_message msg")
    case True
    then have "0 < outstanding m i" using counts(2) F by (simp add: rebuilding_def i_def)
    moreover from this have "initiated m i" using qm_invD(3) [OF inv i] by (simp add: operator_ok_def)
    ultimately show ?thesis using that True i sh(4)
      by (auto simp: outstanding_def initiated_def query_state_defs split: option.splits)
  next
    case False
    then have "0 < queued m i" using counts(1) F by (simp add: i_def)
    then show ?thesis using that False i sh by (auto simp: query_state_defs)
  qed
  moreover have "map_of (admitted_queries e) q = Some m" using m(1) by simp
  ultimately show ?thesis using d unfolding i_def by blast
qed

text \<open>C36. The main thread is told that the workload is complete exactly when no query is admitted or waiting,
  and then no work order is in flight.\<close>

theorem workload_completion_correct:
  assumes "scheduler_run I max_msgs min_load e F" and "arrives F message F1"
    and "foreman_handle I e message = Inr (Some e1)"
    and "foreman_iteration max_msgs min_load I e message = Inr (Some (sent, signalled, e2))"
  shows "(signalled \<longleftrightarrow> admitted_queries e2 = [] \<and> waiting_queries e2 = [])
    \<and> (signalled \<longrightarrow> F1 = {#} \<and> sent = [])"
proof -
  have "signalled \<longleftrightarrow> \<not> hasQueries e2" using assms(3,4) by (auto simp: foreman_iteration_def res_simps)
  moreover have "queries_agree (admitted_queries e2) (F1 + flying (fst (hd (admitted_queries e1))) sent)"
    using iteration_agrees [OF scheduler_run_agrees [OF assms(1)] assms(2-4)] by (simp add: enforcer_agrees_def)
  ultimately show ?thesis by (auto simp: hasQueries_def queries_agree_def flying_def)
qed

text \<open>C37. Work orders are spread evenly: the dispatch of any list of work orders succeeds and sends each of
  them, in order, to the client of a worker of the directory; if before the loads of any two workers
  differ by at most \<open>k\<close> (at least one), they still do so afterwards.\<close>

theorem dispatch_balanced:
  assumes "directory_inv d" and "1 \<le> k" and "balanced k d"
  shows "\<exists>sent d'. dispatchWorkerMessages d ws = Inr (sent, d') \<and> map (snd \<circ> snd) sent = ws \<and> balanced k d'
    \<and> (\<forall>(w, client, msg) \<in> set sent. getClientID d w = Inr client)"
proof -
  obtain sent d' where s: "dispatchWorkerMessages d ws = Inr (sent, d')" "map (snd \<circ> snd) sent = ws" "balanced k d'"
    "\<forall>(w, client, msg) \<in> set sent. w < num_workers d \<and> client = client_ids d ! w"
    using dispatch_spec [OF assms(1,2), of "[]" ws 0] assms(3) by (auto simp: dispatchWorkerMessages_def)
  have "\<forall>(w, client, msg) \<in> set sent. getClientID d w = Inr client"
    using s(4) assms(1) by (auto simp: getClientID_def check_worker_def directory_inv_def)
  then show ?thesis using s(1-3) by blast
qed

section \<open>Witnesses and limits\<close>

definition example_directory :: WorkerDirectory where
  "example_directory = \<lparr>num_workers = 2, num_queued_workorders = [0, 0], numa_node_ids = [-1, -1], client_ids = [10, 11]\<rparr>"

definition example_enforcer :: "nat PolicyEnforcer" where
  "example_enforcer = new_PolicyEnforcer False Map.empty 1 example_directory"

definition example_request :: "nat list \<Rightarrow> nat TaggedMessage" where
  "example_request qs = kAdmitRequestMessage (map (\<lambda>q. \<lparr>handle_query_id = q, handle_query_plan = example_dag\<rparr>) qs)"

definition silent_request :: "nat list \<Rightarrow> nat TaggedMessage" where
  "silent_request qs = kAdmitRequestMessage (map (\<lambda>q. \<lparr>handle_query_id = q, handle_query_plan =
     \<lparr>dag_nodes = [\<lparr>node_payload = 0, dependencies = [], dependents_with_metadata = []\<rparr>]\<rparr>\<rparr>) qs)"

definition example_handled :: "nat PolicyEnforcer" where
  "example_handled = the (projr (foreman_handle example_operators example_enforcer (example_request [7])))"

definition example_iterated :: "sent_message list \<times> bool \<times> nat PolicyEnforcer" where
  "example_iterated = the (projr (foreman_iteration 20 2 example_operators example_enforcer (example_request [7])))"

abbreviation example_flying :: in_flight where
  "example_flying \<equiv> {#} + flying (fst (hd (admitted_queries example_handled))) (fst example_iterated)"

lemma iteration_case:
  "(case r of Inr (Some (s, b, e)) \<Rightarrow> P s b e | _ \<Rightarrow> False) \<Longrightarrow> \<exists>s b e. r = Inr (Some (s, b, e)) \<and> P s b e"
  by (auto split: sum.splits option.splits)

lemma Inr_the: "\<not> isl r \<Longrightarrow> projr r \<noteq> None \<Longrightarrow> r = Inr (Some (the (projr r)))"
  by (cases r) auto

lemma example_steps:
  "foreman_handle example_operators example_enforcer (example_request [7]) = Inr (Some example_handled)"
  "foreman_iteration 20 2 example_operators example_enforcer (example_request [7]) =
     Inr (Some (fst example_iterated, fst (snd example_iterated), snd (snd example_iterated)))"
proof -
  have "case foreman_handle example_operators example_enforcer (example_request [7]) of Inr (Some _) \<Rightarrow> True | _ \<Rightarrow> False" by code_simp
  then show "foreman_handle example_operators example_enforcer (example_request [7]) = Inr (Some example_handled)"
    unfolding example_handled_def by (intro Inr_the) (auto split: sum.splits option.splits)
  have "case foreman_iteration 20 2 example_operators example_enforcer (example_request [7]) of Inr (Some _) \<Rightarrow> True | _ \<Rightarrow> False"
    by code_simp
  then have "foreman_iteration 20 2 example_operators example_enforcer (example_request [7]) = Inr (Some example_iterated)"
    unfolding example_iterated_def by (intro Inr_the) (auto split: sum.splits option.splits)
  then show "foreman_iteration 20 2 example_operators example_enforcer (example_request [7]) =
     Inr (Some (fst example_iterated, fst (snd example_iterated), snd (snd example_iterated)))" by simp
qed

lemma example_run:
  "scheduler_run example_operators 20 2 example_enforcer {#}"
  "arrives {#} (example_request [7]) {#}"
  "scheduler_run example_operators 20 2 (snd (snd example_iterated)) example_flying"
proof -
  have "new_WorkerDirectory 2 [10, 11] [-1, -1] = Inr example_directory"
    by (simp add: new_WorkerDirectory_def example_directory_def numeral_2_eq_2)
  then show s: "scheduler_run example_operators 20 2 example_enforcer {#}"
    unfolding example_enforcer_def by (rule start)
  show a: "arrives {#} (example_request [7]) {#}"
    unfolding example_request_def by (rule admit) (simp add: dag_wf_example)
  show "scheduler_run example_operators 20 2 (snd (snd example_iterated)) example_flying"
    using s a example_steps by (rule iterate)
qed

lemma example_sent:
  "fst (hd (admitted_queries example_handled)) = 7"
  "fst example_iterated = [(0, 10, WorkOrderMessage \<lparr>work_order_id = 10, getPreferredNUMANodes = []\<rparr> 0)]"
  "num_workers (worker_directory (snd (snd example_iterated))) = 2"
  by code_simp+

theorem in_flight_accounting_witness:
  "num_queued_workorders (worker_directory (snd (snd example_iterated))) ! 0 = sent_to example_flying 0
   \<and> sent_to example_flying 0 = 1"
  using in_flight_accounting [OF example_run(3)] by (simp add: example_sent)

theorem completion_accepted_witness:
  "\<exists>m. map_of (admitted_queries (snd (snd example_iterated))) 7 = Some m"
  using completion_accepted [OF example_run(3), of 0 7 "WorkOrderMessage \<lparr>work_order_id = 10, getPreferredNUMANodes = []\<rparr> 0"]
  by (auto simp: example_sent)

theorem workload_completion_correct_witness:
  "fst (snd example_iterated) \<longleftrightarrow> admitted_queries (snd (snd example_iterated)) = []
     \<and> waiting_queries (snd (snd example_iterated)) = []"
  using workload_completion_correct [OF example_run(1,2) example_steps] by (rule conjunct1)

theorem dispatch_balanced_witness:
  "\<exists>sent d'. dispatchWorkerMessages example_directory [WorkOrderMessage \<lparr>work_order_id = 10, getPreferredNUMANodes = []\<rparr> 0] = Inr (sent, d')
     \<and> balanced 1 d'"
proof -
  have "directory_inv example_directory" by (simp add: directory_inv_def example_directory_def)
  moreover have "balanced 1 example_directory"
    unfolding balanced_def example_directory_def by (auto dest!: less_2_cases)
  ultimately show ?thesis using dispatch_balanced [OF _ order.refl] by blast
qed


end
