(* ===== verification/BitManipulations.thy ===== *)
theory BitManipulations
  imports Prelude "HOL-Library.Word"
begin

unbundle bit_operations_syntax

text \<open>
  Counting bits in a machine word (\<^verbatim>\<open>BitManipulation.hpp\<close>), for every width.  The generic templates are
  modelled; the specialisations call compiler intrinsics with the same contract on nonzero words.
  Positions in the bit vectors of the program count from the most significant bit, which \<open>top_bit\<close>
  expresses.
\<close>

section \<open>Positions from the top\<close>

definition top_bit :: "'a::len word \<Rightarrow> nat \<Rightarrow> bool" where
  "top_bit w i \<longleftrightarrow> i < LENGTH('a) \<and> bit w (LENGTH('a) - 1 - i)"

lemma top_bit_beyond [simp]: "LENGTH('a) \<le> i \<Longrightarrow> \<not> top_bit (w :: 'a::len word) i"
  by (simp add: top_bit_def)

lemma top_bit_less: "top_bit (w :: 'a::len word) i \<Longrightarrow> i < LENGTH('a)"
  by (simp add: top_bit_def)

lemma word_eq_top_bitI: "(\<And>i. top_bit v i = top_bit w i) \<Longrightarrow> v = (w :: 'a::len word)"
proof (rule bit_word_eqI)
  fix n assume all: "\<And>i. top_bit v i = top_bit w i" and n: "n < LENGTH('a)"
  then show "bit v n = bit w n" using all [of "LENGTH('a) - 1 - n"] by (simp add: top_bit_def)
qed

lemma top_bit_0 [simp]: "\<not> top_bit 0 i"
  by (simp add: top_bit_def)

lemma zero_iff_top_bit: "w = 0 \<longleftrightarrow> (\<forall>i. \<not> top_bit w i)"
  using word_eq_top_bitI [of w 0] by auto

lemma top_bit_minus1 [simp]: "top_bit (- 1 :: 'a::len word) i \<longleftrightarrow> i < LENGTH('a)"
  by (auto simp: top_bit_def)

lemma top_bit_and [simp]: "top_bit (v AND w) i \<longleftrightarrow> top_bit v i \<and> top_bit w i"
  by (auto simp: top_bit_def bit_and_iff)

lemma top_bit_or [simp]: "top_bit (v OR w) i \<longleftrightarrow> top_bit v i \<or> top_bit w i"
  by (auto simp: top_bit_def bit_or_iff)

lemma top_bit_xor [simp]: "top_bit (v XOR w) i \<longleftrightarrow> top_bit v i \<noteq> top_bit w i"
  by (auto simp: top_bit_def bit_xor_iff)

lemma top_bit_not [simp]: "top_bit (NOT w) i \<longleftrightarrow> i < LENGTH('a) \<and> \<not> top_bit (w :: 'a::len word) i"
  by (auto simp: top_bit_def bit_not_iff)

lemma top_bit_push_bit [simp]: "top_bit (push_bit n w) i \<longleftrightarrow> top_bit w (i + n)"
  by (auto simp: top_bit_def bit_push_bit_iff add.commute)

lemma top_bit_drop_bit [simp]:
  "top_bit (drop_bit n (w :: 'a::len word)) i \<longleftrightarrow> i < LENGTH('a) \<and> n \<le> i \<and> top_bit w (i - n)"
proof (cases "i < LENGTH('a) \<and> n \<le> i")
  case True
  then have "n + (LENGTH('a) - 1 - i) = LENGTH('a) - 1 - (i - n)" by simp
  with True show ?thesis by (auto simp: top_bit_def bit_drop_bit_eq)
next
  case False
  then have "bit (drop_bit n w) (LENGTH('a) - 1 - i) = False" if "i < LENGTH('a)"
    using that bit_imp_le_length [of w "n + (LENGTH('a) - 1 - i)"] by (auto simp: bit_drop_bit_eq)
  with False show ?thesis by (auto simp: top_bit_def)
qed

lemma top_bit_mask [simp]:
  "top_bit (mask n :: 'a::len word) i \<longleftrightarrow> i < LENGTH('a) \<and> LENGTH('a) - i \<le> n"
  by (auto simp: top_bit_def bit_simps)

text \<open>\<^verbatim>\<open>TopBit<WordType>()\<close>: the most significant bit.\<close>

definition TopBit :: "'a::len word" where
  "TopBit = push_bit (LENGTH('a) - 1) 1"

lemma top_bit_TopBit [simp]: "top_bit (TopBit :: 'a::len word) i \<longleftrightarrow> i = 0"
proof -
  have "top_bit (TopBit :: 'a word) i \<longleftrightarrow> i < LENGTH('a) \<and> LENGTH('a) - 1 \<le> LENGTH('a) - 1 - i"
    by (auto simp: top_bit_def TopBit_def bit_simps)
  also have "\<dots> \<longleftrightarrow> i = 0" using len_gt_0 [where 'a='a] by linarith
  finally show ?thesis .
qed

lemma and_TopBit: "(w AND TopBit \<noteq> 0) = top_bit w 0"
  by (auto simp: zero_iff_top_bit)

section \<open>Population count\<close>

lemma drop_bit_less:
  assumes "w \<noteq> 0"
  shows "unat (drop_bit 1 w) < unat (w :: 'a::len word)"
proof -
  have "unat (drop_bit 1 w) = drop_bit 1 (unat w)" by (rule unat_drop_bit_eq)
  also have "\<dots> = unat w div 2" by (simp only: drop_bit_eq_div power_one_right)
  also have "\<dots> < unat w" using assms by (simp add: unat_gt_0)
  finally show ?thesis .
qed

function population_count :: "'a::len word \<Rightarrow> nat" where
  "population_count word =
     (if word \<noteq> 0 then (if word AND 1 \<noteq> 0 then 1 else 0) + population_count (drop_bit 1 word) else 0)"
  by pat_completeness auto
termination
  by (relation "measure unat") (simp_all add: drop_bit_less del: One_nat_def)

declare population_count.simps [simp del]

lemma and_one_nonzero: "(w AND 1 \<noteq> 0) = bit w 0"
  by (simp add: and_one_eq odd_iff_mod_2_eq_one bit_0 flip: odd_iff_mod_2_eq_one)

lemma card_bits_shift:
  assumes "finite A"
  shows "card (A :: nat set) = (if 0 \<in> A then 1 else 0) + card {n. Suc n \<in> A}"
proof -
  have "A = {n \<in> A. n = 0} \<union> Suc ` {n. Suc n \<in> A}"
  proof (rule set_eqI)
    fix x show "x \<in> A \<longleftrightarrow> x \<in> {n \<in> A. n = 0} \<union> Suc ` {n. Suc n \<in> A}" by (cases x) auto
  qed
  moreover have "{n \<in> A. n = 0} \<inter> Suc ` {n. Suc n \<in> A} = {}" by auto
  moreover have "finite (Suc ` {n. Suc n \<in> A})" using assms by (rule finite_subset [rotated]) auto
  ultimately have "card A = card {n \<in> A. n = 0} + card (Suc ` {n. Suc n \<in> A})"
    using card_Un_disjoint [of "{n \<in> A. n = 0}" "Suc ` {n. Suc n \<in> A}"] assms by simp
  moreover have "{n \<in> A. n = 0} = (if 0 \<in> A then {0} else {})" by auto
  ultimately show ?thesis by (simp add: card_image)
qed

lemma finite_bits [simp]: "finite {n. bit (w :: 'a::len word) n}"
  by (rule finite_subset [of _ "{..<LENGTH('a)}"]) (auto dest: bit_imp_le_length)

lemma population_count_bits: "population_count w = card {n. bit w n}"
proof (induction w rule: population_count.induct)
  case (1 w)
  show ?case
  proof (cases "w = 0")
    case False
    have "card {n. bit w n} = (if bit w 0 then 1 else 0) + card {n. bit w (Suc n)}"
      using card_bits_shift [OF finite_bits, of w] by simp
    moreover have "{n. bit (drop_bit 1 w) n} = {n. bit w (Suc n)}" by (simp add: bit_drop_bit_eq)
    ultimately show ?thesis using 1 False by (subst population_count.simps) (simp add: and_one_nonzero)
  qed (simp add: population_count.simps)
qed

lemma population_count_top: "population_count w = card {i. top_bit (w :: 'a::len word) i}"
proof -
  let ?f = "\<lambda>i. LENGTH('a) - 1 - i"
  have "inj_on ?f {n. bit w n}" by (auto simp: inj_on_def dest!: bit_imp_le_length)
  moreover have "?f ` {n. bit w n} = {i. top_bit w i}"
  proof (intro set_eqI iffI)
    fix i assume "i \<in> {i. top_bit w i}"
    then show "i \<in> ?f ` {n. bit w n}" by (intro image_eqI [of _ _ "?f i"]) (auto simp: top_bit_def)
  next
    fix i assume "i \<in> ?f ` {n. bit w n}"
    then obtain n where "bit w n" "i = ?f n" by blast
    moreover from this have "LENGTH('a) - 1 - i = n" using bit_imp_le_length [of w n] by simp
    moreover have "i < LENGTH('a)" using \<open>i = ?f n\<close> len_gt_0 [where 'a='a] by simp
    ultimately show "i \<in> {i. top_bit w i}" by (simp add: top_bit_def)
  qed
  ultimately show ?thesis using card_image [of ?f "{n. bit w n}"] by (simp only: population_count_bits)
qed

section \<open>Leading and trailing zeroes\<close>

text \<open>The loops are entered with a nonzero word only; the test for zero makes them total.\<close>

lemma push_bit_more:
  assumes "w \<noteq> 0" and "w AND TopBit = 0"
  shows "push_bit 1 w \<noteq> 0" and "2 ^ LENGTH('a) - unat (push_bit 1 w) < 2 ^ LENGTH('a) - unat (w :: 'a::len word)"
proof -
  obtain i where i: "top_bit w i" using assms(1) zero_iff_top_bit by blast
  have n0: "\<not> top_bit w 0" using assms(2) and_TopBit by blast
  then have "0 < i" using i by (cases i) auto
  then have "top_bit (push_bit 1 w) (i - 1)" using i by (simp only: top_bit_push_bit) simp
  then show nz: "push_bit 1 w \<noteq> 0" by auto
  have "unat w < 2 ^ (LENGTH('a) - 1)"
  proof -
    have "take_bit (LENGTH('a) - 1) w = w"
    proof (rule bit_word_eqI)
      fix n assume n: "n < LENGTH('a)"
      show "bit (take_bit (LENGTH('a) - 1) w) n = bit w n"
        using n n0 by (cases "n = LENGTH('a) - 1") (auto simp: bit_take_bit_iff top_bit_def)
    qed
    then have "take_bit (LENGTH('a) - 1) (unat w) = unat w" by (metis unsigned_take_bit_eq)
    then show ?thesis using take_bit_nat_less_exp [of "LENGTH('a) - 1" "unat w"] by simp
  qed
  moreover have "(2 :: nat) ^ LENGTH('a) = 2 * 2 ^ (LENGTH('a) - 1)"
    by (metis One_nat_def Suc_diff_1 len_gt_0 power_Suc)
  ultimately have "2 * unat w < 2 ^ LENGTH('a)" by linarith
  moreover from this have "unat (push_bit 1 w) = 2 * unat w"
    by (auto simp: push_bit_eq_mult unat_word_ariths mult.commute)
  moreover have "0 < unat w" using assms(1) by (simp add: unat_gt_0)
  ultimately show "2 ^ LENGTH('a) - unat (push_bit 1 w) < 2 ^ LENGTH('a) - unat w" by linarith
qed

function leading_zero_loop :: "'a::len word \<Rightarrow> nat" where
  "leading_zero_loop word =
     (if word \<noteq> 0 \<and> word AND TopBit = 0 then Suc (leading_zero_loop (push_bit 1 word)) else 0)"
  by pat_completeness auto
termination
  by (relation "measure (\<lambda>w :: 'a word. 2 ^ LENGTH('a) - unat w)")
    (use push_bit_more(2) in \<open>auto simp del: One_nat_def\<close>)

definition leading_zero_count :: "'a::len word \<Rightarrow> nat" where
  "leading_zero_count word = (if word \<noteq> 0 then leading_zero_loop word else LENGTH('a))"

function trailing_zero_loop :: "'a::len word \<Rightarrow> nat" where
  "trailing_zero_loop word =
     (if word \<noteq> 0 \<and> word AND 1 = 0 then Suc (trailing_zero_loop (drop_bit 1 word)) else 0)"
  by pat_completeness auto
termination
  by (relation "measure unat") (auto simp: drop_bit_less simp del: One_nat_def)

definition trailing_zero_count :: "'a::len word \<Rightarrow> nat" where
  "trailing_zero_count word = (if word \<noteq> 0 then trailing_zero_loop word else LENGTH('a))"

declare leading_zero_loop.simps [simp del] trailing_zero_loop.simps [simp del]

lemma leading_zero_loop_first:
  "w \<noteq> 0 \<Longrightarrow> top_bit w (leading_zero_loop w) \<and> (\<forall>j < leading_zero_loop w. \<not> top_bit w j)"
proof (induction w rule: leading_zero_loop.induct)
  case (1 w)
  show ?case
  proof (cases "w AND TopBit = 0")
    case True
    let ?k = "leading_zero_loop (push_bit 1 w)"
    have ih: "top_bit w (?k + 1)" "\<forall>j < ?k. \<not> top_bit w (j + 1)"
      using 1 True push_bit_more(1) [OF 1(2) True] by (simp_all del: One_nat_def)
    have n0: "\<not> top_bit w 0" using True and_TopBit by blast
    have "\<not> top_bit w j" if "j < Suc ?k" for j using that ih(2) n0 by (cases j) auto
    with True 1(2) ih(1) show ?thesis by (subst (1 2) leading_zero_loop.simps) simp
  next
    case False
    then show ?thesis by (subst (1 2) leading_zero_loop.simps) (use and_TopBit [of w] in simp)
  qed
qed

lemma leading_zero_count_first:
  fixes w :: "'a::len word"
  assumes "w \<noteq> 0"
  shows "top_bit w (leading_zero_count w)" and "j < leading_zero_count w \<Longrightarrow> \<not> top_bit w j"
    and "leading_zero_count w < LENGTH('a)"
  using leading_zero_loop_first [OF assms] assms by (auto simp: leading_zero_count_def top_bit_def)

lemma trailing_zero_loop_first:
  "w \<noteq> 0 \<Longrightarrow> bit w (trailing_zero_loop w) \<and> (\<forall>j < trailing_zero_loop w. \<not> bit w j)"
proof (induction w rule: trailing_zero_loop.induct)
  case (1 w)
  show ?case
  proof (cases "w AND 1 = 0")
    case True
    let ?k = "trailing_zero_loop (drop_bit 1 w)"
    have n0: "\<not> bit w 0" using True and_one_nonzero by blast
    have "drop_bit 1 w \<noteq> 0"
    proof
      assume "drop_bit 1 w = 0"
      then have "\<not> bit (drop_bit 1 w) n" for n by simp
      then have "\<not> bit w (Suc n)" for n by (simp only: bit_drop_bit_eq comp_apply plus_1_eq_Suc) simp
      with n0 have "\<not> bit w n" for n by (cases n) auto
      then have "w = 0" by (intro bit_word_eqI) simp
      then show False using 1(2) by simp
    qed
    then have ih: "bit w (Suc ?k)" "\<forall>j < ?k. \<not> bit w (Suc j)"
      using 1(1) [OF conjI [OF 1(2) True] \<open>drop_bit 1 w \<noteq> 0\<close>]
      by (simp_all only: bit_drop_bit_eq comp_apply plus_1_eq_Suc) blast
    have "\<not> bit w j" if "j < Suc ?k" for j using that ih(2) n0 by (cases j) auto
    with True 1(2) ih(1) show ?thesis by (subst (1 2) trailing_zero_loop.simps) simp
  next
    case False
    then show ?thesis by (subst (1 2) trailing_zero_loop.simps) (use and_one_nonzero [of w] in simp)
  qed
qed

lemma trailing_zero_count_last:
  assumes "w \<noteq> 0"
  shows "trailing_zero_count w < LENGTH('a)"
    and "top_bit w (LENGTH('a) - 1 - trailing_zero_count w)"
    and "LENGTH('a) - 1 - trailing_zero_count w < j \<Longrightarrow> \<not> top_bit (w :: 'a::len word) j"
proof -
  note T = trailing_zero_loop_first [OF assms]
  then show l: "trailing_zero_count w < LENGTH('a)"
    using assms bit_imp_le_length by (auto simp: trailing_zero_count_def)
  show "top_bit w (LENGTH('a) - 1 - trailing_zero_count w)"
    using T assms l by (simp add: top_bit_def trailing_zero_count_def)
  show "LENGTH('a) - 1 - trailing_zero_count w < j \<Longrightarrow> \<not> top_bit w j"
    using T assms l by (auto simp: top_bit_def trailing_zero_count_def)
qed

text \<open>The bit counts are what their names say, on every word of every width: the loops end, the
  population count is the number of ones, and for a nonzero word the leading (trailing) zero count
  is the distance of the first (last) one from the most (least) significant end.\<close>

theorem bit_counts_correct:
  fixes w :: "'a::len word"
  shows "population_count w = card {n. n < LENGTH('a) \<and> bit w n}
    \<and> (if w = 0 then leading_zero_count w = LENGTH('a) \<and> trailing_zero_count w = LENGTH('a)
       else leading_zero_count w = LENGTH('a) - 1 - Max {n. bit w n} \<and> trailing_zero_count w = Min {n. bit w n})"
proof -
  have "{n. n < LENGTH('a) \<and> bit w n} = {n. bit w n}" by (auto dest: bit_imp_le_length)
  then have p: "population_count w = card {n. n < LENGTH('a) \<and> bit w n}" by (simp add: population_count_bits)
  show ?thesis
  proof (cases "w = 0")
    case False
    have "Min {n. bit w n} = trailing_zero_count w"
      using trailing_zero_loop_first [OF False] False
      by (intro Min_eqI) (auto simp: trailing_zero_count_def not_less [symmetric])
    moreover have "Max {n. bit w n} = LENGTH('a) - 1 - leading_zero_count w"
    proof (rule Max_eqI)
      fix y assume "y \<in> {n. bit w n}"
      then have "bit w y" "y < LENGTH('a)" using bit_imp_le_length by auto
      then have "top_bit w (LENGTH('a) - 1 - y)" by (simp add: top_bit_def)
      then have "leading_zero_count w \<le> LENGTH('a) - 1 - y"
        using leading_zero_count_first(2) [OF False] by (meson not_less)
      then show "y \<le> LENGTH('a) - 1 - leading_zero_count w" using \<open>y < LENGTH('a)\<close> by linarith
    qed (use leading_zero_count_first(1) [OF False] in \<open>auto simp: top_bit_def\<close>)
    ultimately show ?thesis using p False leading_zero_count_first(3) [OF False] by simp
  next
    case True
    with p show ?thesis unfolding leading_zero_count_def trailing_zero_count_def by auto
  qed
qed

end
