(* ===== verification/BitVectors.thy ===== *)
theory BitVectors
  imports BitManipulations "HOL-Library.Numeral_Type"
begin

unbundle bit_operations_syntax

text \<open>
  The bit vector over raw memory (\<^verbatim>\<open>BitVector\<close>): null bitmaps, occupancy bitmaps and tuple id sequences
  are such vectors.  Bit \<open>i\<close> is the bit \<open>i mod 64\<close>, from the most significant end, of the 64-bit word \<open>i div
  64\<close>; with the template argument \<open>enable_short_version\<close> a vector of at most 32 bits is one integer of
  1, 2 or 4 bytes.  The memory is a value of type \<open>storage\<close>, with the integer type the code reads the
  memory as.  \<^verbatim>\<open>n >> 6\<close> and \<^verbatim>\<open>n & 63\<close> are division and remainder by 64.  Operands of the type
  \<^verbatim>\<open>uint8_t\<close> or \<^verbatim>\<open>uint16_t\<close> are promoted to \<^verbatim>\<open>int\<close> before a shift; the results are truncated when they
  are stored, except in \<open>bv_all\<close>, which compares the promoted value.

  This theory holds the operations that write bits and word-wise combinations; \<open>BitVectorScans\<close> the
  ones that search and count, \<open>BitVectorShifts\<close> the shifts of a tail.
\<close>

section \<open>State\<close>

datatype storage = U8 "8 word" | U16 "16 word" | U32 "32 word" | Words "64 word list"

record BitVector =
  enable_short_version :: bool
  owns_memory :: bool
  short_version :: bool
  num_bits :: nat
  data_array :: storage

definition data_array_size :: "BitVector \<Rightarrow> nat" where
  "data_array_size v = num_bits v div 64 + (if num_bits v mod 64 \<noteq> 0 then 1 else 0)"

definition BytesNeeded :: "bool \<Rightarrow> nat \<Rightarrow> nat" where
  "BytesNeeded enable_short n =
     (if enable_short \<and> n = 0 then 0
      else if enable_short \<and> n < 9 then 1
      else if enable_short \<and> n < 17 then 2
      else if enable_short \<and> n < 33 then 4
      else if n mod 64 \<noteq> 0 then (n div 64 + 1) * 8 else n div 64 * 8)"

definition MaxCapacityForBytes :: "bool \<Rightarrow> nat \<Rightarrow> nat" where
  "MaxCapacityForBytes enable_short num_bytes =
     (if num_bytes = 0 then 0
      else if enable_short \<and> num_bytes \<ge> 1 \<and> num_bytes < 2 then 8
      else if enable_short \<and> num_bytes \<ge> 2 \<and> num_bytes < 4 then 16
      else if enable_short \<and> num_bytes \<ge> 4 \<and> num_bytes < 8 then 32
      else num_bytes div 8 * 64)"

fun zeroed :: "storage \<Rightarrow> storage" where
  "zeroed (U8 _) = U8 0"
| "zeroed (U16 _) = U16 0"
| "zeroed (U32 _) = U32 0"
| "zeroed (Words ws) = Words (replicate (length ws) 0)"

definition clear :: "BitVector \<Rightarrow> BitVector" where
  "clear v = v\<lparr>data_array := zeroed (data_array v)\<rparr>"

text \<open>The two constructors; the memory handed over, or returned by \<^verbatim>\<open>malloc\<close>, has any contents.\<close>

definition BitVector_external :: "bool \<Rightarrow> storage \<Rightarrow> nat \<Rightarrow> BitVector" where
  "BitVector_external enable_short memory_location n =
     \<lparr>enable_short_version = enable_short, owns_memory = False, short_version = enable_short \<and> n < 33,
      num_bits = n, data_array = memory_location\<rparr>"

definition BitVector_owned :: "bool \<Rightarrow> storage \<Rightarrow> nat \<Rightarrow> bool \<Rightarrow> BitVector" where
  "BitVector_owned enable_short allocated n initialize =
     (let v = \<lparr>enable_short_version = enable_short, owns_memory = True, short_version = enable_short \<and> n < 33,
               num_bits = n, data_array = allocated\<rparr> in
      if initialize then clear v else v)"

text \<open>Access to the memory as one integer or as words.\<close>

definition read_words :: "BitVector \<Rightarrow> 64 word list result" where
  "read_words v = (case data_array v of Words ws \<Rightarrow> Inr ws | _ \<Rightarrow> Inl UndefinedBehaviour)"

definition write_words :: "BitVector \<Rightarrow> (64 word list \<Rightarrow> 64 word list result) \<Rightarrow> BitVector result" where
  "write_words v f =
     and_then (read_words v) (\<lambda>ws. and_then (f ws) (\<lambda>ws'. Inr (v\<lparr>data_array := Words ws'\<rparr>)))"

definition short_read ::
    "BitVector \<Rightarrow> (8 word \<Rightarrow> 'r result) \<Rightarrow> (16 word \<Rightarrow> 'r result) \<Rightarrow> (32 word \<Rightarrow> 'r result) \<Rightarrow> 'r result" where
  "short_read v f g h =
     (if num_bits v < 9 then (case data_array v of U8 w \<Rightarrow> f w | _ \<Rightarrow> Inl UndefinedBehaviour)
      else if num_bits v < 17 then (case data_array v of U16 w \<Rightarrow> g w | _ \<Rightarrow> Inl UndefinedBehaviour)
      else (case data_array v of U32 w \<Rightarrow> h w | _ \<Rightarrow> Inl UndefinedBehaviour))"

definition short_write ::
    "BitVector \<Rightarrow> (8 word \<Rightarrow> 8 word result) \<Rightarrow> (16 word \<Rightarrow> 16 word result) \<Rightarrow> (32 word \<Rightarrow> 32 word result)
       \<Rightarrow> BitVector result" where
  "short_write v f g h = short_read v
     (\<lambda>w. and_then (f w) (\<lambda>w'. Inr (v\<lparr>data_array := U8 w'\<rparr>)))
     (\<lambda>w. and_then (g w) (\<lambda>w'. Inr (v\<lparr>data_array := U16 w'\<rparr>)))
     (\<lambda>w. and_then (h w) (\<lambda>w'. Inr (v\<lparr>data_array := U32 w'\<rparr>)))"

abbreviation is_short :: "BitVector \<Rightarrow> bool" where
  "is_short v \<equiv> enable_short_version v \<and> short_version v"

section \<open>Single bits\<close>

definition getBitRegularVersion :: "64 word list \<Rightarrow> nat \<Rightarrow> bool result" where
  "getBitRegularVersion ws bit_num =
     and_then (vec_at ws (bit_num div 64)) (\<lambda>w. Inr (push_bit (bit_num mod 64) w AND TopBit \<noteq> 0))"

definition getBitShortVersion :: "'a::len word \<Rightarrow> nat \<Rightarrow> bool" where
  "getBitShortVersion w bit_num \<longleftrightarrow> push_bit bit_num w AND TopBit \<noteq> 0"

definition getBit :: "BitVector \<Rightarrow> nat \<Rightarrow> bool result" where
  "getBit v bit_num =
     and_then (check CheckFailed (bit_num < num_bits v)) (\<lambda>_.
       if is_short v then
         short_read v (\<lambda>w. Inr (getBitShortVersion w bit_num)) (\<lambda>w. Inr (getBitShortVersion w bit_num))
           (\<lambda>w. Inr (getBitShortVersion w bit_num))
       else and_then (read_words v) (\<lambda>ws. getBitRegularVersion ws bit_num))"

definition getBitWord :: "BitVector \<Rightarrow> nat \<Rightarrow> 64 word result" where
  "getBitWord v word_id =
     and_then (check CheckFailed (word_id < data_array_size v)) (\<lambda>_.
       if is_short v then Inl FatalLog else and_then (read_words v) (\<lambda>ws. vec_at ws word_id))"

definition setBitRegularVersion :: "64 word list \<Rightarrow> nat \<Rightarrow> bool \<Rightarrow> 64 word list result" where
  "setBitRegularVersion ws bit_num value =
     (let mask = NOT (drop_bit (bit_num mod 64) TopBit);
          bit_value = (if value then 1 else 0);
          op_value = NOT ((bit_value - 1) OR mask);
          index_pos_in_data_array = bit_num div 64 in
      and_then (vec_at ws index_pos_in_data_array) (\<lambda>w.
      and_then (vec_set ws index_pos_in_data_array (w AND mask)) (\<lambda>ws1.
      and_then (vec_at ws1 index_pos_in_data_array) (\<lambda>w1.
        vec_set ws1 index_pos_in_data_array (w1 OR op_value)))))"

definition setBitShortVersion :: "'a::len word \<Rightarrow> nat \<Rightarrow> bool \<Rightarrow> 'a word" where
  "setBitShortVersion w bit_num value =
     (if value then w OR drop_bit bit_num TopBit else w AND NOT (drop_bit bit_num TopBit))"

definition setBit :: "BitVector \<Rightarrow> nat \<Rightarrow> bool \<Rightarrow> BitVector result" where
  "setBit v bit_num value =
     and_then (check CheckFailed (bit_num < num_bits v)) (\<lambda>_.
       if is_short v then
         short_write v (\<lambda>w. Inr (setBitShortVersion w bit_num value)) (\<lambda>w. Inr (setBitShortVersion w bit_num value))
           (\<lambda>w. Inr (setBitShortVersion w bit_num value))
       else write_words v (\<lambda>ws. setBitRegularVersion ws bit_num value))"

text \<open>The overload without a value, for regular vectors.\<close>

definition setBitOn :: "BitVector \<Rightarrow> nat \<Rightarrow> BitVector result" where
  "setBitOn v bit_num =
     and_then (check CheckFailed (\<not> short_version v)) (\<lambda>_.
     and_then (check CheckFailed (bit_num < num_bits v)) (\<lambda>_.
       write_words v (\<lambda>ws. and_then (vec_at ws (bit_num div 64)) (\<lambda>w.
         vec_set ws (bit_num div 64) (w OR drop_bit (bit_num mod 64) TopBit)))))"

definition setBitWord :: "BitVector \<Rightarrow> nat \<Rightarrow> 64 word \<Rightarrow> BitVector result" where
  "setBitWord v word_id value =
     and_then (check CheckFailed (word_id < data_array_size v)) (\<lambda>_.
       if is_short v then Inl FatalLog
       else write_words v (\<lambda>ws. vec_set ws word_id
         (if word_id = data_array_size v - 1 \<and> num_bits v mod 64 \<noteq> 0
          then value AND push_bit (64 - num_bits v mod 64) (- 1) else value)))"

section \<open>Ranges\<close>

definition MaskBitRange :: "nat \<Rightarrow> nat \<Rightarrow> 'a::len word" where
  "MaskBitRange start_bit_num range_num_bits =
     (let limited = (if range_num_bits > LENGTH('a) then LENGTH('a) else range_num_bits) in
      if limited \<noteq> 0 then drop_bit start_bit_num (push_bit (LENGTH('a) - limited) (- 1)) else 0)"

definition memset_words :: "64 word list \<Rightarrow> nat \<Rightarrow> 64 word \<Rightarrow> nat \<Rightarrow> 64 word list result" where
  "memset_words ws start value num_words =
     (if start + num_words \<le> length ws then Inr (take start ws @ replicate num_words value @ drop (start + num_words) ws)
      else Inl OutOfRange)"

text \<open>Sums of sizes wrap at 64 bits.\<close>

definition size_add :: "nat \<Rightarrow> nat \<Rightarrow> nat" where
  "size_add a b = (a + b) mod 2 ^ 64"

definition combine_mask :: "bool \<Rightarrow> 'a::len word \<Rightarrow> 'a word \<Rightarrow> 'a word" where
  "combine_mask value w m = (if value then w OR m else w AND NOT m)"

text \<open>The whole elements and the first part of the last element.\<close>

definition set_range_tail :: "64 word list \<Rightarrow> nat \<Rightarrow> nat \<Rightarrow> bool \<Rightarrow> 64 word list result" where
  "set_range_tail ws start_element range_num_bits value =
     (let range_elements = range_num_bits div 64 in
      and_then (memset_words ws start_element (if value then - 1 else 0) range_elements) (\<lambda>ws1.
      and_then (vec_at ws1 (start_element + range_elements)) (\<lambda>w.
        vec_set ws1 (start_element + range_elements) (combine_mask value w (MaskBitRange 0 (range_num_bits mod 64))))))"

definition setBitRangeRegularVersion :: "64 word list \<Rightarrow> nat \<Rightarrow> nat \<Rightarrow> bool \<Rightarrow> 64 word list result" where
  "setBitRangeRegularVersion ws start_bit_num range_num_bits value =
     (let start_element = start_bit_num div 64; start_lower_bits = start_bit_num mod 64 in
      if start_lower_bits \<noteq> 0 then
        and_then (vec_at ws start_element) (\<lambda>w.
        and_then (vec_set ws start_element (combine_mask value w (MaskBitRange start_lower_bits range_num_bits))) (\<lambda>ws1.
          if range_num_bits + start_lower_bits \<le> 64 then Inr ws1
          else set_range_tail ws1 (start_element + 1) (range_num_bits + start_lower_bits - 64) value))
      else set_range_tail ws start_element range_num_bits value)"

definition setBitRangeShortVersion :: "'a::len word \<Rightarrow> nat \<Rightarrow> nat \<Rightarrow> bool \<Rightarrow> 'a word" where
  "setBitRangeShortVersion w start_bit_num range_num_bits value =
     combine_mask value w (MaskBitRange start_bit_num range_num_bits)"

definition setBitRange :: "BitVector \<Rightarrow> nat \<Rightarrow> nat \<Rightarrow> bool \<Rightarrow> BitVector result" where
  "setBitRange v start_bit_num range_num_bits value =
     and_then (check CheckFailed (start_bit_num < num_bits v \<or> (start_bit_num = 0 \<and> num_bits v = 0))) (\<lambda>_.
     and_then (check CheckFailed (size_add start_bit_num range_num_bits \<le> num_bits v)) (\<lambda>_.
       if is_short v then
         short_write v (\<lambda>w. Inr (setBitRangeShortVersion w start_bit_num range_num_bits value))
           (\<lambda>w. Inr (setBitRangeShortVersion w start_bit_num range_num_bits value))
           (\<lambda>w. Inr (setBitRangeShortVersion w start_bit_num range_num_bits value))
       else write_words v (\<lambda>ws. setBitRangeRegularVersion ws start_bit_num range_num_bits value)))"

section \<open>Whole vectors\<close>

definition FlipLimitedBits :: "'a::len word \<Rightarrow> nat \<Rightarrow> 'a word" where
  "FlipLimitedBits item n =
     (let flipped = NOT item in if n \<noteq> 0 then flipped AND push_bit (LENGTH('a) - n) (- 1) else flipped)"

definition flipBits :: "BitVector \<Rightarrow> BitVector result" where
  "flipBits v =
     (if num_bits v = 0 then Inr v
      else if is_short v then
        short_write v (\<lambda>w. Inr (FlipLimitedBits w (num_bits v))) (\<lambda>w. Inr (FlipLimitedBits w (num_bits v)))
          (\<lambda>w. Inr (FlipLimitedBits w (num_bits v)))
      else write_words v (\<lambda>ws.
        and_then (fold_res (\<lambda>ws position. and_then (vec_at ws position) (\<lambda>w. vec_set ws position (NOT w)))
                    ws [0..<data_array_size v - 1]) (\<lambda>ws1.
        and_then (vec_at ws1 (data_array_size v - 1)) (\<lambda>w.
          vec_set ws1 (data_array_size v - 1) (FlipLimitedBits w (num_bits v mod 64))))))"

definition assignFrom :: "BitVector \<Rightarrow> BitVector \<Rightarrow> BitVector result" where
  "assignFrom v other =
     and_then (check CheckFailed (num_bits v = num_bits other)) (\<lambda>_. Inr (v\<lparr>data_array := data_array other\<rparr>))"

definition setMemory :: "BitVector \<Rightarrow> storage \<Rightarrow> BitVector result" where
  "setMemory v ptr = and_then (check CheckFailed (\<not> owns_memory v)) (\<lambda>_. Inr (v\<lparr>data_array := ptr\<rparr>))"

definition memcpy_words :: "64 word list \<Rightarrow> nat \<Rightarrow> 64 word list result" where
  "memcpy_words us num_words = (if num_words \<le> length us then Inr (take num_words us) else Inl OutOfRange)"

definition assignFromLonger :: "BitVector \<Rightarrow> BitVector \<Rightarrow> BitVector result" where
  "assignFromLonger v other =
     (if enable_short_version v then Inl FatalLog
      else and_then (check CheckFailed (num_bits v \<le> num_bits other)) (\<lambda>_.
        and_then (read_words other) (\<lambda>us. write_words v (\<lambda>ws.
          and_then (memcpy_words us (data_array_size v)) (\<lambda>ws1.
            if num_bits v mod 64 \<noteq> 0 then
              and_then (vec_at ws1 (data_array_size v - 1)) (\<lambda>w.
                vec_set ws1 (data_array_size v - 1) (w AND MaskBitRange 0 (num_bits v mod 64)))
            else Inr ws1)))))"

text \<open>The word-wise loops of the set operations.\<close>

definition combine_words ::
    "(64 word \<Rightarrow> 64 word \<Rightarrow> 64 word) \<Rightarrow> nat \<Rightarrow> 64 word list \<Rightarrow> 64 word list \<Rightarrow> 64 word list result" where
  "combine_words f limit us ws =
     fold_res (\<lambda>ws position. and_then (vec_at ws position) (\<lambda>a. and_then (vec_at us position) (\<lambda>b.
         vec_set ws position (f a b)))) ws [0..<limit]"

definition short_combine ::
    "(8 word \<Rightarrow> 8 word \<Rightarrow> 8 word) \<Rightarrow> (16 word \<Rightarrow> 16 word \<Rightarrow> 16 word) \<Rightarrow> (32 word \<Rightarrow> 32 word \<Rightarrow> 32 word)
       \<Rightarrow> BitVector \<Rightarrow> BitVector \<Rightarrow> BitVector result" where
  "short_combine f g h v other =
     (if num_bits v = 0 then Inr v
      else short_write v
        (\<lambda>w. case data_array other of U8 u \<Rightarrow> Inr (f w u) | _ \<Rightarrow> Inl UndefinedBehaviour)
        (\<lambda>w. case data_array other of U16 u \<Rightarrow> Inr (g w u) | _ \<Rightarrow> Inl UndefinedBehaviour)
        (\<lambda>w. case data_array other of U32 u \<Rightarrow> Inr (h w u) | _ \<Rightarrow> Inl UndefinedBehaviour))"

definition intersectWith :: "BitVector \<Rightarrow> BitVector \<Rightarrow> BitVector result" where
  "intersectWith v other =
     and_then (check CheckFailed (num_bits v = num_bits other)) (\<lambda>_.
       if is_short v then short_combine (AND) (AND) (AND) v other
       else and_then (read_words other) (\<lambda>us. write_words v (combine_words (AND) (data_array_size v) us)))"

definition unionWith :: "BitVector \<Rightarrow> BitVector \<Rightarrow> BitVector result" where
  "unionWith v other =
     and_then (check CheckFailed (num_bits v = num_bits other)) (\<lambda>_.
       if is_short v then short_combine (OR) (OR) (OR) v other
       else and_then (read_words other) (\<lambda>us. write_words v (combine_words (OR) (data_array_size v) us)))"

definition unsetFrom :: "BitVector \<Rightarrow> BitVector \<Rightarrow> BitVector result" where
  "unsetFrom v other =
     (if enable_short_version v then Inl FatalLog
      else and_then (read_words other) (\<lambda>us. write_words v (combine_words (\<lambda>a b. a AND NOT b)
        (if data_array_size v < data_array_size other then data_array_size v else data_array_size other) us)))"

text \<open>The overload of \<^verbatim>\<open>unionWith\<close> that reads the words behind a pointer.\<close>

definition unionWithMemory :: "BitVector \<Rightarrow> 64 word list \<Rightarrow> BitVector result" where
  "unionWithMemory v other =
     and_then (check CheckFailed (\<not> enable_short_version v)) (\<lambda>_.
       write_words v (combine_words (OR) (data_array_size v) other))"

section \<open>The bits of a vector\<close>

definition words_bit :: "64 word list \<Rightarrow> nat \<Rightarrow> bool" where
  "words_bit ws i \<longleftrightarrow> i div 64 < length ws \<and> top_bit (ws ! (i div 64)) (i mod 64)"

fun storage_bit :: "storage \<Rightarrow> nat \<Rightarrow> bool" where
  "storage_bit (U8 w) = top_bit w"
| "storage_bit (U16 w) = top_bit w"
| "storage_bit (U32 w) = top_bit w"
| "storage_bit (Words ws) = words_bit ws"

definition bits :: "BitVector \<Rightarrow> nat \<Rightarrow> bool" where
  "bits v = storage_bit (data_array v)"

text \<open>The memory has the size that \<^verbatim>\<open>BytesNeeded\<close> asks for, and is read as the integer type of that size.\<close>

definition storage_fits :: "bool \<Rightarrow> nat \<Rightarrow> storage \<Rightarrow> bool" where
  "storage_fits enable_short n m =
     (case m of
        U8 _ \<Rightarrow> enable_short \<and> n < 9
      | U16 _ \<Rightarrow> enable_short \<and> 9 \<le> n \<and> n < 17
      | U32 _ \<Rightarrow> enable_short \<and> 17 \<le> n \<and> n < 33
      | Words ws \<Rightarrow> \<not> (enable_short \<and> n < 33) \<and> length ws = n div 64 + (if n mod 64 \<noteq> 0 then 1 else 0))"

text \<open>The invariant: the unused bits at the end of the memory are zero.\<close>

definition bv_inv :: "BitVector \<Rightarrow> bool" where
  "bv_inv v \<longleftrightarrow> short_version v = (enable_short_version v \<and> num_bits v < 33)
     \<and> storage_fits (enable_short_version v) (num_bits v) (data_array v)
     \<and> (\<forall>i \<ge> num_bits v. \<not> bits v i)"

text \<open>The operation changed the memory only, to the given bits, and kept the invariant.\<close>

definition stored :: "BitVector \<Rightarrow> BitVector \<Rightarrow> (nat \<Rightarrow> bool) \<Rightarrow> bool" where
  "stored v v' f \<longleftrightarrow> bv_inv v' \<and> v' = v\<lparr>data_array := data_array v'\<rparr> \<and> bits v' = f"

lemma bv_inv_beyond: "bv_inv v \<Longrightarrow> num_bits v \<le> i \<Longrightarrow> \<not> bits v i"
  by (simp add: bv_inv_def)

lemma bv_cases:
  assumes "bv_inv v"
  obtains (u8) w where "is_short v" "num_bits v < 9" "data_array v = U8 w"
    | (u16) w where "is_short v" "9 \<le> num_bits v" "num_bits v < 17" "data_array v = U16 w"
    | (u32) w where "is_short v" "17 \<le> num_bits v" "num_bits v < 33" "data_array v = U32 w"
    | (words) ws where "\<not> short_version v" "data_array v = Words ws" "length ws = data_array_size v"
  using assms by (cases "data_array v") (auto simp: bv_inv_def storage_fits_def data_array_size_def)

lemma short_read_eq:
  assumes "bv_inv v" and "is_short v"
    and "\<And>w. num_bits v < 9 \<Longrightarrow> data_array v = U8 w \<Longrightarrow> top_bit w = bits v \<Longrightarrow> f w = r"
    and "\<And>w. num_bits v < 17 \<Longrightarrow> data_array v = U16 w \<Longrightarrow> top_bit w = bits v \<Longrightarrow> g w = r"
    and "\<And>w. num_bits v < 33 \<Longrightarrow> data_array v = U32 w \<Longrightarrow> top_bit w = bits v \<Longrightarrow> h w = r"
  shows "short_read v f g h = r"
  using assms(1) by (cases rule: bv_cases) (use assms in \<open>auto simp: short_read_def bits_def\<close>)

lemma stored_update:
  assumes "bv_inv v" and "storage_fits (enable_short_version v) (num_bits v) m"
    and "storage_bit m = F" and "\<And>i. num_bits v \<le> i \<Longrightarrow> \<not> F i"
  shows "stored v (v\<lparr>data_array := m\<rparr>) F"
  using assms by (auto simp: stored_def bv_inv_def bits_def)

lemma short_write_stored:
  assumes "bv_inv v" and "is_short v" and beyond: "\<And>i. num_bits v \<le> i \<Longrightarrow> \<not> F i"
    and "\<And>w. num_bits v < 9 \<Longrightarrow> data_array v = U8 w \<Longrightarrow> top_bit w = bits v \<Longrightarrow> \<exists>w'. f w = Inr w' \<and> top_bit w' = F"
    and "\<And>w. num_bits v < 17 \<Longrightarrow> data_array v = U16 w \<Longrightarrow> top_bit w = bits v \<Longrightarrow> \<exists>w'. g w = Inr w' \<and> top_bit w' = F"
    and "\<And>w. num_bits v < 33 \<Longrightarrow> data_array v = U32 w \<Longrightarrow> top_bit w = bits v \<Longrightarrow> \<exists>w'. h w = Inr w' \<and> top_bit w' = F"
  shows "\<exists>v'. short_write v f g h = Inr v' \<and> stored v v' F"
  using assms(1)
proof (cases rule: bv_cases)
  case (u8 w)
  then obtain w' where "f w = Inr w'" "top_bit w' = F" using assms(4) by (auto simp: bits_def)
  with u8 stored_update [OF assms(1) _ _ beyond, of "U8 w'"] show ?thesis
    by (auto simp: short_write_def short_read_def storage_fits_def)
next
  case (u16 w)
  then obtain w' where "g w = Inr w'" "top_bit w' = F" using assms(5) by (auto simp: bits_def)
  with u16 stored_update [OF assms(1) _ _ beyond, of "U16 w'"] show ?thesis
    by (auto simp: short_write_def short_read_def storage_fits_def)
next
  case (u32 w)
  then obtain w' where "h w = Inr w'" "top_bit w' = F" using assms(6) by (auto simp: bits_def)
  with u32 stored_update [OF assms(1) _ _ beyond, of "U32 w'"] show ?thesis
    by (auto simp: short_write_def short_read_def storage_fits_def)
qed (use assms(2) in simp)

lemma not_short: "bv_inv v \<Longrightarrow> \<not> is_short v \<Longrightarrow> \<not> short_version v"
  by (auto simp: bv_inv_def)

lemma regular_words:
  assumes "bv_inv v" and "\<not> is_short v"
  obtains ws where "read_words v = Inr ws" "data_array v = Words ws" "length ws = data_array_size v" "bits v = words_bit ws"
  using assms(1) by (cases rule: bv_cases) (use assms(2) that in \<open>auto simp: read_words_def bits_def\<close>)

lemma write_words_stored:
  assumes "bv_inv v" and "\<not> is_short v" and "\<And>i. num_bits v \<le> i \<Longrightarrow> \<not> F i"
    and "\<And>ws. length ws = data_array_size v \<Longrightarrow> words_bit ws = bits v \<Longrightarrow>
           \<exists>ws'. f ws = Inr ws' \<and> length ws' = length ws \<and> words_bit ws' = F"
  shows "\<exists>v'. write_words v f = Inr v' \<and> stored v v' F"
proof -
  obtain ws where ws: "read_words v = Inr ws" "data_array v = Words ws" "length ws = data_array_size v" "bits v = words_bit ws"
    using regular_words [OF assms(1,2)] .
  obtain ws' where f: "f ws = Inr ws'" "length ws' = length ws" "words_bit ws' = F" using assms(4) ws by metis
  have "storage_fits (enable_short_version v) (num_bits v) (Words ws')"
    using assms(1) ws(2) f(2) by (auto simp: bv_inv_def storage_fits_def)
  with stored_update [OF assms(1) _ _ assms(3), of "Words ws'"] f show ?thesis
    by (auto simp: write_words_def ws(1))
qed

section \<open>Words and bits\<close>

lemma top_bit_drop_TopBit [simp]: "top_bit (drop_bit n (TopBit :: 'a::len word)) i \<longleftrightarrow> i = n \<and> i < LENGTH('a)"
  by auto

lemma top_bit_MaskBitRange [simp]:
  "top_bit (MaskBitRange s n :: 'a::len word) i \<longleftrightarrow> s \<le> i \<and> i < s + n \<and> i < LENGTH('a)"
  by (auto simp: MaskBitRange_def Let_def)

lemma top_bit_push_minus1 [simp]:
  "n \<le> LENGTH('a) \<Longrightarrow> top_bit (push_bit (LENGTH('a) - n) (- 1 :: 'a::len word)) i \<longleftrightarrow> i < n"
  by auto

lemma top_bit_combine_mask:
  "top_bit (combine_mask b w m) i \<longleftrightarrow> (if top_bit m i then b else top_bit w i)"
  by (auto simp: combine_mask_def dest: top_bit_less)

lemma words_bit_update:
  "k < length ws \<Longrightarrow> words_bit (ws[k := w]) i = (if i div 64 = k then top_bit w (i mod 64) else words_bit ws i)"
  by (auto simp: words_bit_def nth_list_update)

lemma words_bit_nth: "k < length ws \<Longrightarrow> j < 64 \<Longrightarrow> top_bit (ws ! k) j = words_bit ws (64 * k + j)"
  by (simp add: words_bit_def)

lemma memset_words_bits:
  assumes "start + n \<le> length ws"
  obtains ws' where "memset_words ws start x n = Inr ws'" "length ws' = length ws"
    "\<And>i. words_bit ws' i = (if start \<le> i div 64 \<and> i div 64 < start + n then top_bit x (i mod 64) else words_bit ws i)"
proof -
  let ?ws = "take start ws @ replicate n x @ drop (start + n) ws"
  have len: "length ?ws = length ws" using assms by simp
  have nth: "?ws ! k = (if start \<le> k \<and> k < start + n then x else ws ! k)" if "k < length ws" for k
    using that assms by (auto simp: nth_append)
  have "words_bit ?ws i = (if start \<le> i div 64 \<and> i div 64 < start + n then top_bit x (i mod 64) else words_bit ws i)" for i
    using assms unfolding words_bit_def len by (simp only: nth cong: conj_cong) simp
  moreover have "memset_words ws start x n = Inr ?ws" using assms by (simp add: memset_words_def)
  ultimately show ?thesis using that len by blast
qed

lemma split64:
  obtains q r where "(n :: nat) = 64 * q + r" "r < 64" "n div 64 = q" "n mod 64 = r"
  using that [of "n div 64" "n mod 64"] by simp

lemma num_bits_le_size: "num_bits v \<le> data_array_size v * 64"
  by (rule split64 [of "num_bits v"]) (simp add: data_array_size_def)

lemma size_le_num_bits: "data_array_size v * 64 < num_bits v + 64"
  by (rule split64 [of "num_bits v"]) (simp add: data_array_size_def)

lemma index_in_size: "i < num_bits v \<Longrightarrow> i div 64 < data_array_size v"
  using num_bits_le_size [of v] by (auto intro: less_mult_imp_div_less)

lemma div64_iff: "i div 64 = j div 64 \<and> i mod 64 = j mod 64 \<longleftrightarrow> i = (j :: nat)"
  by (metis mult_div_mod_eq)

section \<open>Single bits\<close>

lemma getBit_spec:
  assumes "bv_inv v" and "i < num_bits v"
  shows "getBit v i = Inr (bits v i)"
proof (cases "is_short v")
  case True
  then have "getBit v i = short_read v (\<lambda>w. Inr (top_bit w i)) (\<lambda>w. Inr (top_bit w i)) (\<lambda>w. Inr (top_bit w i))"
    using assms(2) by (simp add: getBit_def getBitShortVersion_def and_TopBit)
  also have "\<dots> = Inr (bits v i)" by (rule short_read_eq [OF assms(1) True]) simp_all
  finally show ?thesis .
next
  case False
  obtain ws where "read_words v = Inr ws" "length ws = data_array_size v" "bits v = words_bit ws"
    using regular_words [OF assms(1) False] .
  then show ?thesis using False assms index_in_size [OF assms(2)]
    by (auto simp: getBit_def getBitRegularVersion_def and_TopBit words_bit_def)
qed

lemma setBitShortVersion_bits:
  "i < LENGTH('a) \<Longrightarrow> top_bit (setBitShortVersion w i b) = (top_bit w)(i := b)" for w :: "'a::len word"
  by (rule ext) (auto simp: setBitShortVersion_def dest: top_bit_less)

lemma setBitRegularVersion_bits:
  assumes "i div 64 < length ws"
  shows "\<exists>ws'. setBitRegularVersion ws i b = Inr ws' \<and> length ws' = length ws \<and> words_bit ws' = (words_bit ws)(i := b)"
proof -
  let ?m = "NOT (drop_bit (i mod 64) TopBit) :: 64 word" and ?w = "ws ! (i div 64)"
  let ?op = "NOT (((if b then 1 else 0) - 1) OR ?m)"
  let ?x = "(?w AND ?m) OR ?op"
  have run: "setBitRegularVersion ws i b = Inr (ws[i div 64 := ?x])"
    using assms by (simp add: setBitRegularVersion_def Let_def)
  have x: "top_bit ?x j = (if j = i mod 64 then b else top_bit ?w j)" for j
    by (cases b) (auto dest: top_bit_less)
  have "words_bit (ws[i div 64 := ?x]) j = ((words_bit ws)(i := b)) j" for j
    unfolding words_bit_update [OF assms] x using assms div64_iff [of j i] by (auto simp: words_bit_def)
  then show ?thesis unfolding run
    by (intro exI [of _ "ws[i div 64 := ?x]"] conjI ext) (simp_all only: length_list_update)
qed

lemma setBit_spec:
  assumes "bv_inv v" and "i < num_bits v"
  shows "\<exists>v'. setBit v i b = Inr v' \<and> stored v v' ((bits v)(i := b))"
proof (cases "is_short v")
  case True
  have "\<exists>v'. short_write v (\<lambda>w. Inr (setBitShortVersion w i b)) (\<lambda>w. Inr (setBitShortVersion w i b))
      (\<lambda>w. Inr (setBitShortVersion w i b)) = Inr v' \<and> stored v v' ((bits v)(i := b))"
    using assms(2) bv_inv_beyond [OF assms(1)]
    by (intro short_write_stored [OF assms(1) True]) (auto simp: setBitShortVersion_bits)
  with True assms show ?thesis by (simp add: setBit_def)
next
  case False
  have "\<exists>v'. write_words v (\<lambda>ws. setBitRegularVersion ws i b) = Inr v' \<and> stored v v' ((bits v)(i := b))"
  proof (rule write_words_stored [OF assms(1) False])
    fix ws assume ws: "length ws = data_array_size v" "words_bit ws = bits v"
    show "\<exists>ws'. setBitRegularVersion ws i b = Inr ws' \<and> length ws' = length ws \<and> words_bit ws' = (bits v)(i := b)"
      using setBitRegularVersion_bits [of i ws b] index_in_size [OF assms(2)] by (simp add: ws)
  qed (use assms in \<open>auto simp: bv_inv_beyond\<close>)
  with False assms show ?thesis by (auto simp: setBit_def)
qed

text \<open>A loop that rewrites one word per position.\<close>

lemma fold_words:
  assumes "\<And>ws k. length ws = n \<Longrightarrow> k < limit \<Longrightarrow> step ws k = Inr (ws[k := f k (ws ! k)])"
    and "length ws = n" and "limit \<le> n"
  obtains ws' where "fold_res step ws [0..<limit] = Inr ws'" "length ws' = n"
    "\<And>k. k < n \<Longrightarrow> ws' ! k = (if k < limit then f k (ws ! k) else ws ! k)"
proof -
  have "\<exists>ws'. fold_res step ws [0..<limit] = Inr ws' \<and> length ws' = n
      \<and> (\<forall>k < n. ws' ! k = (if k < limit then f k (ws ! k) else ws ! k))"
    using assms(1,3)
  proof (induction limit)
    case 0
    then show ?case using assms(2) by simp
  next
    case (Suc m)
    then obtain ws' where "fold_res step ws [0..<m] = Inr ws'" "length ws' = n"
      "\<forall>k < n. ws' ! k = (if k < m then f k (ws ! k) else ws ! k)" by auto
    then show ?case using Suc.prems by (auto simp: fold_res_append nth_list_update less_Suc_eq)
  qed
  then show ?thesis using that by blast
qed

lemma setBitOn_spec:
  assumes "bv_inv v" and "i < num_bits v" and "\<not> short_version v"
  shows "\<exists>v'. setBitOn v i = Inr v' \<and> stored v v' ((bits v)(i := True))"
proof -
  have ns: "\<not> is_short v" using assms(3) by simp
  have "\<exists>v'. write_words v (\<lambda>ws. and_then (vec_at ws (i div 64)) (\<lambda>w.
      vec_set ws (i div 64) (w OR drop_bit (i mod 64) TopBit))) = Inr v' \<and> stored v v' ((bits v)(i := True))"
  proof (rule write_words_stored [OF assms(1) ns])
    fix ws assume ws: "length ws = data_array_size v" "words_bit ws = bits v"
    then have l: "i div 64 < length ws" using index_in_size [OF assms(2)] by simp
    have "words_bit (ws[i div 64 := ws ! (i div 64) OR drop_bit (i mod 64) TopBit]) j = ((bits v)(i := True)) j" for j
      unfolding words_bit_update [OF l] ws(2) [symmetric] using l div64_iff [of j i] by (auto simp: words_bit_def)
    then show "\<exists>ws'. and_then (vec_at ws (i div 64)) (\<lambda>w.
        vec_set ws (i div 64) (w OR drop_bit (i mod 64) TopBit)) = Inr ws' \<and> length ws' = length ws
        \<and> words_bit ws' = (bits v)(i := True)"
      using l by (auto simp: fun_eq_iff)
  qed (use assms in \<open>auto simp: bv_inv_beyond\<close>)
  with assms show ?thesis by (simp add: setBitOn_def)
qed

text \<open>A bit vector is an array of bits: in every representation, reading a bit after writing one gives
  the new value at its position and the old value everywhere else, the memory outside the bit is
  unchanged and stays clean beyond the last bit; an index beyond the end fails the check.\<close>

theorem setBit_getBit:
  assumes "bv_inv v"
  shows "if i < num_bits v
    then \<exists>v'. setBit v i b = Inr v' \<and> bv_inv v' \<and> num_bits v' = num_bits v
       \<and> (\<forall>j < num_bits v. getBit v' j = (if j = i then Inr b else getBit v j))
    else setBit v i b = Inl CheckFailed \<and> getBit v i = Inl CheckFailed"
proof (cases "i < num_bits v")
  case True
  obtain v' where v': "setBit v i b = Inr v'" "stored v v' ((bits v)(i := b))" using setBit_spec [OF assms True] by blast
  have n: "num_bits v' = num_bits v" using v'(2) unfolding stored_def by (metis select_convs(4) update_convs(5) BitVector.surjective)
  have "getBit v' j = (if j = i then Inr b else getBit v j)" if "j < num_bits v" for j
    using v'(2) getBit_spec [of v' j] getBit_spec [OF assms that] n that by (auto simp: stored_def)
  with True v' n show ?thesis by (auto simp: stored_def)
qed (simp add: setBit_def getBit_def)

section \<open>Sizes\<close>

text \<open>The two size computations are adjoint: a vector of \<open>n\<close> bits fits into \<open>b\<close> bytes exactly if \<open>n\<close> does
  not exceed the capacity that is reported for \<open>b\<close> bytes.  In particular the capacity is the largest
  possible one.\<close>

theorem BytesNeeded_le_iff: "BytesNeeded enable_short n \<le> b \<longleftrightarrow> n \<le> MaxCapacityForBytes enable_short b"
proof -
  have words: "(if n mod 64 \<noteq> 0 then (n div 64 + 1) * 8 else n div 64 * 8) \<le> b \<longleftrightarrow> n \<le> b div 8 * 64"
  proof (rule split64 [of n])
    fix q r assume n: "n = 64 * q + r" "r < 64" "n div 64 = q" "n mod 64 = r"
    have "m * 8 \<le> b \<longleftrightarrow> m \<le> b div 8" for m by (simp add: less_eq_div_iff_mult_less_eq)
    from this [of q] this [of "q + 1"] show ?thesis unfolding n(3,4) using n(1,2) by auto
  qed
  show ?thesis
  proof (cases "enable_short \<and> n < 33")
    case True
    have "64 \<le> b div 8 * 64" if "8 \<le> b" using div_le_mono [OF that, of 8] by simp
    with True show ?thesis by (auto simp: BytesNeeded_def MaxCapacityForBytes_def not_less)
  next
    case False
    then have "BytesNeeded enable_short n \<le> b \<longleftrightarrow> n \<le> b div 8 * 64"
      using words by (auto simp: BytesNeeded_def)
    moreover have "n \<le> b div 8 * 64 \<longleftrightarrow> n \<le> MaxCapacityForBytes enable_short b"
    proof (cases "enable_short")
      case True
      then have "33 \<le> n" using False by simp
      then show ?thesis using True by (auto simp: MaxCapacityForBytes_def)
    qed (simp add: MaxCapacityForBytes_def)
    ultimately show ?thesis by simp
  qed
qed

lemma storage_bit_zeroed [simp]: "\<not> storage_bit (zeroed m) i"
  by (cases m) (auto simp: words_bit_def)

lemma storage_fits_zeroed [simp]: "storage_fits e n (zeroed m) = storage_fits e n m"
  by (cases m) (auto simp: storage_fits_def)

lemma clear_spec: "bv_inv v \<Longrightarrow> stored v (clear v) (\<lambda>_. False)"
  unfolding clear_def by (rule stored_update) (auto simp: bv_inv_def)

lemma BitVector_owned_inv:
  assumes "storage_fits e n m"
  shows "bv_inv (BitVector_owned e m n True)" and "bits (BitVector_owned e m n True) i = False"
  using assms by (auto simp: BitVector_owned_def clear_def bv_inv_def bits_def)

section \<open>Word access\<close>

lemma getBitWord_spec:
  assumes "bv_inv v" and "\<not> short_version v" and "k < data_array_size v"
  shows "\<exists>w. getBitWord v k = Inr w \<and> (\<forall>j < 64. top_bit w j = bits v (64 * k + j))"
proof -
  obtain ws where "read_words v = Inr ws" "length ws = data_array_size v" "bits v = words_bit ws"
    using regular_words [OF assms(1)] assms(2) by blast
  then show ?thesis using assms by (simp add: getBitWord_def words_bit_nth)
qed

text \<open>\<^verbatim>\<open>setBitWord\<close> drops the bits beyond the end of the vector.\<close>

lemma setBitWord_spec:
  assumes "bv_inv v" and "\<not> short_version v" and k: "k < data_array_size v"
  shows "\<exists>v'. setBitWord v k x = Inr v' \<and>
    stored v v' (\<lambda>i. if i div 64 = k then i < num_bits v \<and> top_bit x (i mod 64) else bits v i)"
proof -
  define y where "y = (if k = data_array_size v - 1 \<and> num_bits v mod 64 \<noteq> 0
    then x AND push_bit (64 - num_bits v mod 64) (- 1) else x)"
  have y: "top_bit y (i mod 64) = (i < num_bits v \<and> top_bit x (i mod 64))" if "i div 64 = k" for i
  proof (rule split64 [of "num_bits v"], rule split64 [of i])
    fix q r q' r' assume n: "num_bits v = 64 * q + r" "r < 64" "num_bits v div 64 = q" "num_bits v mod 64 = r"
      and i: "i = 64 * q' + r'" "r' < 64" "i div 64 = q'" "i mod 64 = r'"
    have s: "data_array_size v = q + (if r \<noteq> 0 then 1 else 0)" by (simp add: data_array_size_def n(3,4))
    have m: "top_bit (push_bit (64 - r) (- 1 :: 64 word)) r' \<longleftrightarrow> r' < r"
      using top_bit_push_minus1 [where 'a=64, of r r'] n(2) by simp
    have q': "q' = k" using that i by simp
    show ?thesis using n(1,2) i(1,2) k unfolding y_def n(4) i(4) s q' [symmetric]
      by (auto simp: m simp del: push_bit_minus_one)
  qed
  have ns: "\<not> is_short v" using assms(2) by simp
  have "\<exists>v'. write_words v (\<lambda>ws. vec_set ws k y) = Inr v' \<and>
    stored v v' (\<lambda>i. if i div 64 = k then i < num_bits v \<and> top_bit x (i mod 64) else bits v i)"
  proof (rule write_words_stored [OF assms(1) ns])
    fix ws assume ws: "length ws = data_array_size v" "words_bit ws = bits v"
    have "words_bit (ws[k := y]) = (\<lambda>i. if i div 64 = k then i < num_bits v \<and> top_bit x (i mod 64) else bits v i)"
      using k y by (auto simp: words_bit_update ws fun_eq_iff)
    then show "\<exists>ws'. vec_set ws k y = Inr ws' \<and> length ws' = length ws \<and>
        words_bit ws' = (\<lambda>i. if i div 64 = k then i < num_bits v \<and> top_bit x (i mod 64) else bits v i)"
      using k by (simp add: ws)
  qed (use assms in \<open>auto simp: bv_inv_beyond\<close>)
  then show ?thesis using assms ns by (simp add: setBitWord_def y_def)
qed

section \<open>Ranges\<close>

lemma range_words:
  fixes i n se :: nat
  shows "64 * se \<le> i \<and> i < 64 * se + n \<longleftrightarrow>
    (se \<le> i div 64 \<and> i div 64 < se + n div 64) \<or> (i div 64 = se + n div 64 \<and> i mod 64 < n mod 64)"
proof (rule split64 [of n], rule split64 [of i])
  fix q r q' r' assume n: "n = 64 * q + r" "r < 64" "n div 64 = q" "n mod 64 = r"
    and i: "i = 64 * q' + r'" "r' < 64" "i div 64 = q'" "i mod 64 = r'"
  show ?thesis unfolding n(3,4) i(3,4) using n(1,2) i(1,2) by auto
qed

lemma set_range_tail_bits:
  assumes "se + n div 64 < length ws"
  obtains ws' where "set_range_tail ws se n b = Inr ws'" "length ws' = length ws"
    "\<And>i. words_bit ws' i = (if 64 * se \<le> i \<and> i < 64 * se + n then b else words_bit ws i)"
proof -
  let ?k = "se + n div 64" and ?m = "MaskBitRange 0 (n mod 64) :: 64 word"
  obtain ws1 where ws1: "memset_words ws se (if b then - 1 else 0) (n div 64) = Inr ws1" "length ws1 = length ws"
    "\<And>i. words_bit ws1 i = (if se \<le> i div 64 \<and> i div 64 < ?k
        then top_bit (if b then - 1 else 0 :: 64 word) (i mod 64) else words_bit ws i)"
    by (rule memset_words_bits [of se "n div 64" ws]) (use assms in auto)
  let ?ws = "ws1[?k := combine_mask b (ws1 ! ?k) ?m]"
  have "words_bit ?ws i = (if 64 * se \<le> i \<and> i < 64 * se + n then b else words_bit ws i)" for i
  proof (cases "i div 64 = ?k")
    case True
    then have "words_bit ?ws i = (if i mod 64 < n mod 64 then b else words_bit ws1 i)"
      using assms ws1(2) by (auto simp: words_bit_update top_bit_combine_mask words_bit_def)
    then show ?thesis using True by (auto simp: range_words ws1(3))
  next
    case False
    then have "words_bit ?ws i = words_bit ws1 i" using assms ws1(2) by (simp add: words_bit_update)
    then show ?thesis using False by (auto simp: range_words ws1(3))
  qed
  moreover have "set_range_tail ws se n b = Inr ?ws"
    using assms ws1 by (simp add: set_range_tail_def Let_def)
  ultimately show ?thesis using that [of ?ws] ws1(2) by simp
qed

lemma set_range_tail_overrun: "se + n div 64 = length ws \<Longrightarrow> set_range_tail ws se n b = Inl OutOfRange"
  by (simp add: set_range_tail_def memset_words_def vec_at_def Let_def)

text \<open>The last access of the loop is to the word that holds the bit after the range; it exists unless
  the range ends at the last bit of the last word.\<close>

definition overruns :: "BitVector \<Rightarrow> nat \<Rightarrow> nat \<Rightarrow> bool" where
  "overruns v s n \<longleftrightarrow> \<not> short_version v \<and> s + n = num_bits v \<and> num_bits v mod 64 = 0
     \<and> \<not> (s mod 64 \<noteq> 0 \<and> n + s mod 64 \<le> 64)"

lemma set_range_bits:
  assumes "s div 64 < length ws \<or> s mod 64 = 0"
    and "(s mod 64 \<noteq> 0 \<and> n + s mod 64 \<le> 64) \<or> (s + n) div 64 < length ws"
  obtains ws' where "setBitRangeRegularVersion ws s n b = Inr ws'" "length ws' = length ws"
    "\<And>i. words_bit ws' i = (if s \<le> i \<and> i < s + n then b else words_bit ws i)"
proof (rule split64 [of s])
  fix q r assume s: "s = 64 * q + r" "r < 64" "s div 64 = q" "s mod 64 = r"
  show thesis
  proof (cases "r = 0")
    case True
    then have "(s + n) div 64 = q + n div 64" using s by simp
    then obtain ws' where "set_range_tail ws q n b = Inr ws'" "length ws' = length ws"
      "\<And>i. words_bit ws' i = (if 64 * q \<le> i \<and> i < 64 * q + n then b else words_bit ws i)"
      using set_range_tail_bits [of q n ws b] assms s True by auto
    then show ?thesis using that [of ws'] s True by (simp add: setBitRangeRegularVersion_def)
  next
    case r: False
    let ?ws = "ws[q := combine_mask b (ws ! q) (MaskBitRange r n)]"
    have q: "q < length ws" using assms(1) s r by simp
    have first: "words_bit ?ws i = (if s \<le> i \<and> i < s + n \<and> i div 64 = q then b else words_bit ws i)" for i
    proof (rule split64 [of i])
      fix q' r' assume i: "i = 64 * q' + r'" "r' < 64" "i div 64 = q'" "i mod 64 = r'"
      show ?thesis unfolding words_bit_update [OF q] i(3,4)
        using q i s by (auto simp: top_bit_combine_mask words_bit_def)
    qed
    show ?thesis
    proof (cases "n + r \<le> 64")
      case True
      then have "i div 64 = q" if "s \<le> i" "i < s + n" for i using that s by auto
      then show ?thesis using that [of ?ws] True r s q first by (simp add: setBitRangeRegularVersion_def)
    next
      case False
      have e: "(s + n) div 64 = q + 1 + (n + r - 64) div 64"
      proof -
        have "s + n = 64 * (q + 1) + (n + r - 64)" using s(1) False by simp
        then show ?thesis by simp
      qed
      obtain ws' where ws': "set_range_tail ?ws (q + 1) (n + r - 64) b = Inr ws'" "length ws' = length ws"
        "\<And>i. words_bit ws' i = (if 64 * (q + 1) \<le> i \<and> i < 64 * (q + 1) + (n + r - 64) then b else words_bit ?ws i)"
        using set_range_tail_bits [of "q + 1" "n + r - 64" ?ws b] assms(2) s False e by auto
      have "words_bit ws' i = (if s \<le> i \<and> i < s + n then b else words_bit ws i)" for i
      proof (rule split64 [of i])
        fix q' r' assume i: "i = 64 * q' + r'" "r' < 64" "i div 64 = q'" "i mod 64 = r'"
        show ?thesis unfolding ws'(3) first i(3) using i(1,2) s(1,2) r False by auto
      qed
      then show ?thesis using that [of ws'] ws' r s q False by (simp add: setBitRangeRegularVersion_def)
    qed
  qed
qed

lemma setBitRangeShortVersion_bits:
  "s + n \<le> LENGTH('a) \<Longrightarrow> top_bit (setBitRangeShortVersion w s n b) = (\<lambda>i. if s \<le> i \<and> i < s + n then b else top_bit w i)"
  for w :: "'a::len word"
  by (rule ext) (auto simp: setBitRangeShortVersion_def top_bit_combine_mask)

lemma setBitRange_spec:
  assumes "bv_inv v" and wrap: "s + n < 2 ^ 64" and s: "s < num_bits v \<or> s = 0 \<and> num_bits v = 0"
    and n: "s + n \<le> num_bits v" and ok: "\<not> overruns v s n"
  shows "\<exists>v'. setBitRange v s n b = Inr v' \<and> stored v v' (\<lambda>i. if s \<le> i \<and> i < s + n then b else bits v i)"
proof -
  have a: "size_add s n = s + n" using wrap by (simp add: size_add_def)
  show ?thesis
  proof (cases "is_short v")
    case True
    have "\<exists>v'. short_write v (\<lambda>w. Inr (setBitRangeShortVersion w s n b)) (\<lambda>w. Inr (setBitRangeShortVersion w s n b))
        (\<lambda>w. Inr (setBitRangeShortVersion w s n b)) = Inr v' \<and> stored v v' (\<lambda>i. if s \<le> i \<and> i < s + n then b else bits v i)"
      using n bv_inv_beyond [OF assms(1)]
      by (intro short_write_stored [OF assms(1) True]) (auto simp: setBitRangeShortVersion_bits)
    with True s n a show ?thesis by (simp add: setBitRange_def)
  next
    case False
    have ns: "\<not> short_version v" using False assms(1) by (auto simp: bv_inv_def)
    have "\<exists>v'. write_words v (\<lambda>ws. setBitRangeRegularVersion ws s n b) = Inr v'
        \<and> stored v v' (\<lambda>i. if s \<le> i \<and> i < s + n then b else bits v i)"
    proof (rule write_words_stored [OF assms(1) False])
      fix ws assume ws: "length ws = data_array_size v" "words_bit ws = bits v"
      have 1: "s div 64 < length ws \<or> s mod 64 = 0" using s index_in_size [of s v] ws by auto
      have 2: "(s mod 64 \<noteq> 0 \<and> n + s mod 64 \<le> 64) \<or> (s + n) div 64 < length ws"
      proof (cases "s + n < num_bits v")
        case True
        then show ?thesis using index_in_size ws by simp
      next
        case eq: False
        with n have "s + n = num_bits v" by simp
        then show ?thesis using ok ns ws by (auto simp: overruns_def data_array_size_def)
      qed
      obtain ws' where "setBitRangeRegularVersion ws s n b = Inr ws'" "length ws' = length ws"
        "\<And>i. words_bit ws' i = (if s \<le> i \<and> i < s + n then b else words_bit ws i)"
        using set_range_bits [OF 1 2] by blast
      then show "\<exists>ws'. setBitRangeRegularVersion ws s n b = Inr ws' \<and> length ws' = length ws \<and>
          words_bit ws' = (\<lambda>i. if s \<le> i \<and> i < s + n then b else bits v i)"
        using ws(2) by (auto simp: fun_eq_iff)
    qed (use n bv_inv_beyond [OF assms(1)] in auto)
    with ns s n a show ?thesis by (simp add: setBitRange_def)
  qed
qed

lemma setBitRange_overrun:
  assumes inv: "bv_inv v" and wrap: "s + n < 2 ^ 64" and s: "s < num_bits v \<or> s = 0 \<and> num_bits v = 0"
    and ov: "overruns v s n"
  shows "setBitRange v s n b = Inl OutOfRange"
proof -
  have o: "\<not> short_version v" "s + n = num_bits v" "num_bits v mod 64 = 0" "\<not> (s mod 64 \<noteq> 0 \<and> n + s mod 64 \<le> 64)"
    using ov by (auto simp: overruns_def)
  obtain ws where ws: "read_words v = Inr ws" "length ws = data_array_size v"
    using regular_words [OF inv] o(1) by blast
  have len: "length ws = (s + n) div 64" using o ws(2) by (simp add: data_array_size_def)
  have "setBitRangeRegularVersion ws s n b = Inl OutOfRange"
  proof (rule split64 [of s])
    fix q r assume s': "s = 64 * q + r" "r < 64" "s div 64 = q" "s mod 64 = r"
    show ?thesis
    proof (cases "r = 0")
      case True
      then have "q + n div 64 = length ws" using len s' by simp
      then show ?thesis using set_range_tail_overrun [of q n ws b] True s' by (simp add: setBitRangeRegularVersion_def)
    next
      case False
      then have big: "64 < n + r" using o(4) s' by simp
      have e: "s + n = 64 * (q + 1) + (n + r - 64)" using s'(1) big by simp
      then have l: "q + 1 + (n + r - 64) div 64 = length ws" using len by simp
      then have "q < length ws" by simp
      then show ?thesis
        using set_range_tail_overrun [of "q + 1" "n + r - 64" "ws[q := combine_mask b (ws ! q) (MaskBitRange r n)]" b]
          l False s' big by (simp add: setBitRangeRegularVersion_def)
    qed
  qed
  then show ?thesis using s o wrap ws(1) by (simp add: setBitRange_def write_words_def size_add_def)
qed


section \<open>Whole vectors\<close>

lemma FlipLimitedBits_bits:
  assumes "n \<le> LENGTH('a)"
  shows "top_bit (FlipLimitedBits w n) i \<longleftrightarrow> i < LENGTH('a) \<and> (n = 0 \<or> i < n) \<and> \<not> top_bit (w :: 'a::len word) i"
  using assms by (auto simp: FlipLimitedBits_def Let_def)

lemma FlipLimitedBits_fun:
  "0 < n \<Longrightarrow> n \<le> LENGTH('a) \<Longrightarrow> top_bit (FlipLimitedBits (w :: 'a::len word) n) = (\<lambda>i. i < n \<and> \<not> top_bit w i)"
  by (auto simp: FlipLimitedBits_bits fun_eq_iff)

lemma flipBits_spec:
  assumes "bv_inv v"
  shows "\<exists>v'. flipBits v = Inr v' \<and> stored v v' (\<lambda>i. i < num_bits v \<and> \<not> bits v i)"
proof (cases "num_bits v = 0")
  case True
  then have "bits v = (\<lambda>i. i < num_bits v \<and> \<not> bits v i)" using bv_inv_beyond [OF assms] by auto
  then show ?thesis using True assms by (auto simp: flipBits_def stored_def)
next
  case nz: False
  show ?thesis
  proof (cases "is_short v")
    case True
    have "\<exists>v'. short_write v (\<lambda>w. Inr (FlipLimitedBits w (num_bits v))) (\<lambda>w. Inr (FlipLimitedBits w (num_bits v)))
        (\<lambda>w. Inr (FlipLimitedBits w (num_bits v))) = Inr v' \<and> stored v v' (\<lambda>i. i < num_bits v \<and> \<not> bits v i)"
      using nz by (intro short_write_stored [OF assms True]) (simp_all add: FlipLimitedBits_fun)
    with True nz show ?thesis by (simp add: flipBits_def)
  next
    case False
    let ?l = "data_array_size v - 1"
    have "\<exists>v'. write_words v (\<lambda>ws.
        and_then (fold_res (\<lambda>ws position. and_then (vec_at ws position) (\<lambda>w. vec_set ws position (NOT w))) ws [0..<?l]) (\<lambda>ws1.
        and_then (vec_at ws1 ?l) (\<lambda>w. vec_set ws1 ?l (FlipLimitedBits w (num_bits v mod 64))))) = Inr v'
        \<and> stored v v' (\<lambda>i. i < num_bits v \<and> \<not> bits v i)"
    proof (rule write_words_stored [OF assms False])
      fix ws assume ws: "length ws = data_array_size v" "words_bit ws = bits v"
      let ?step = "\<lambda>ws position. and_then (vec_at ws position) (\<lambda>w. vec_set ws position (NOT w)) :: 64 word list result"
      have l: "?l < length ws" using nz ws num_bits_le_size [of v] by (cases "data_array_size v") auto
      obtain ws1 where ws1: "fold_res ?step ws [0..<?l] = Inr ws1" "length ws1 = length ws"
        "\<And>k. k < length ws \<Longrightarrow> ws1 ! k = (if k < ?l then NOT (ws ! k) else ws ! k)"
        by (rule fold_words [where f = "\<lambda>_ w. NOT w" and n = "length ws" and limit = ?l and ws = ws and step = ?step])
          (use l in simp_all)
      let ?ws = "ws1[?l := FlipLimitedBits (ws1 ! ?l) (num_bits v mod 64)]"
      have "words_bit ?ws i = (i < num_bits v \<and> \<not> bits v i)" for i
      proof (rule split64 [of i], rule split64 [of "num_bits v"])
        fix q r q' r' assume n: "num_bits v = 64 * q + r" "r < 64" "num_bits v div 64 = q" "num_bits v mod 64 = r"
          and i: "i = 64 * q' + r'" "r' < 64" "i div 64 = q'" "i mod 64 = r'"
        have s: "data_array_size v = q + (if r \<noteq> 0 then 1 else 0)" by (simp add: data_array_size_def n(3,4))
        have l': "?l < length ws1" using l ws1(2) by simp
        have lq: "?l = (if r = 0 then q - 1 else q)" "r = 0 \<Longrightarrow> 0 < q" using s nz n(1) by auto
        show ?thesis
        proof (cases "q' = ?l")
          case True
          have "words_bit ?ws i = ((r = 0 \<or> r' < r) \<and> \<not> top_bit (ws ! ?l) r')"
            unfolding words_bit_update [OF l'] i(3,4) n(4) using True i(2) n(2) ws1(3) [OF l]
            by (simp add: FlipLimitedBits_bits)
          also have "(r = 0 \<or> r' < r) = (i < num_bits v)"
            using n(1,2) i(1,2) lq True by (cases "r = 0") auto
          finally show ?thesis using True l i by (simp add: words_bit_def flip: ws(2))
        next
          case False
          have "words_bit ?ws i = words_bit ws1 i" unfolding words_bit_update [OF l'] i(3) using False by simp
          also have "\<dots> = (q' < ?l \<and> \<not> top_bit (ws ! q') r')"
          proof (cases "q' < length ws")
            case True
            then have "q' < ?l" using False ws(1) by simp
            then show ?thesis unfolding words_bit_def i(3,4) using i(2) ws1(2) ws1(3) [OF True] True by simp
          qed (use ws1(2) i l in \<open>simp add: words_bit_def\<close>)
          also have "(q' < ?l) = (i < num_bits v \<and> q' < length ws)"
            using n(1,2) i(1,2) lq False ws(1) s by (cases "r = 0") auto
          finally have "words_bit ?ws i = ((i < num_bits v \<and> q' < length ws) \<and> \<not> top_bit (ws ! q') r')" .
          moreover have "i < num_bits v \<Longrightarrow> q' < length ws" using index_in_size [of i v] i(3) ws(1) by simp
          moreover have "words_bit ws i = (q' < length ws \<and> top_bit (ws ! q') r')" by (simp add: words_bit_def i(3,4))
          ultimately show ?thesis unfolding ws(2) [symmetric] by blast
        qed
      qed
      then show "\<exists>ws'. and_then (fold_res ?step ws [0..<?l]) (\<lambda>ws1.
          and_then (vec_at ws1 ?l) (\<lambda>w. vec_set ws1 ?l (FlipLimitedBits w (num_bits v mod 64)))) = Inr ws'
          \<and> length ws' = length ws \<and> words_bit ws' = (\<lambda>i. i < num_bits v \<and> \<not> bits v i)"
        using ws1(1,2) l by (intro exI [of _ ?ws] conjI ext) simp_all
    qed simp
    with False nz show ?thesis by (auto simp: flipBits_def)
  qed
qed

lemma combine_words_bits:
  assumes "limit \<le> length ws" and "limit \<le> length us"
    and f: "\<And>a b j. j < 64 \<Longrightarrow> top_bit (f a b) j = g (top_bit a j) (top_bit b j)"
  obtains ws' where "combine_words f limit us ws = Inr ws'" "length ws' = length ws"
    "\<And>i. words_bit ws' i = (if i div 64 < limit then g (words_bit ws i) (words_bit us i) else words_bit ws i)"
proof -
  obtain ws' where ws': "combine_words f limit us ws = Inr ws'" "length ws' = length ws"
    "\<And>k. k < length ws \<Longrightarrow> ws' ! k = (if k < limit then f (ws ! k) (us ! k) else ws ! k)"
    unfolding combine_words_def
    by (rule fold_words [where f = "\<lambda>k a. f a (us ! k)" and n = "length ws" and limit = limit and ws = ws
          and step = "\<lambda>ws position. and_then (vec_at ws position) (\<lambda>a. and_then (vec_at us position) (\<lambda>b.
            vec_set ws position (f a b)))"])
      (use assms(1,2) in simp_all)
  have "words_bit ws' i = (if i div 64 < limit then g (words_bit ws i) (words_bit us i) else words_bit ws i)" for i
  proof (cases "i div 64 < length ws")
    case True
    then show ?thesis unfolding words_bit_def ws'(2) using assms(1,2) f ws'(3) [OF True] by simp
  qed (use assms(1) ws'(2) in \<open>simp add: words_bit_def\<close>)
  with ws' that show ?thesis by blast
qed

lemma same_kind:
  assumes "bv_inv v" and "bv_inv u" and "num_bits u = num_bits v" and "enable_short_version u = enable_short_version v"
  shows "data_array v = U8 w \<Longrightarrow> num_bits v \<noteq> 0 \<Longrightarrow> \<exists>x. data_array u = U8 x \<and> top_bit x = bits u"
    and "data_array v = U16 w' \<Longrightarrow> \<exists>x. data_array u = U16 x \<and> top_bit x = bits u"
    and "data_array v = U32 w'' \<Longrightarrow> \<exists>x. data_array u = U32 x \<and> top_bit x = bits u"
    and "data_array_size u = data_array_size v" and "short_version u = short_version v"
  using assms
  by (auto simp: bv_inv_def storage_fits_def bits_def data_array_size_def split: storage.splits)

lemma short_combine_stored:
  assumes "bv_inv v" and "bv_inv u" and "num_bits u = num_bits v" and "enable_short_version u = enable_short_version v"
    and "is_short v" and "\<not> op False False"
    and "\<And>a b. top_bit (f a b) = (\<lambda>i. op (top_bit a i) (top_bit b i))"
    and "\<And>a b. top_bit (g a b) = (\<lambda>i. op (top_bit a i) (top_bit b i))"
    and "\<And>a b. top_bit (h a b) = (\<lambda>i. op (top_bit a i) (top_bit b i))"
  shows "\<exists>v'. short_combine f g h v u = Inr v' \<and> stored v v' (\<lambda>i. op (bits v i) (bits u i))"
proof (cases "num_bits v = 0")
  case True
  then have "bits v i = False" "bits u i = False" for i
    using bv_inv_beyond [OF assms(1)] bv_inv_beyond [OF assms(2)] assms(3) by auto
  then have "(\<lambda>i. op (bits v i) (bits u i)) = bits v" using assms(6) by (simp add: fun_eq_iff)
  with True assms(1) show ?thesis by (simp add: short_combine_def stored_def)
next
  case False
  note K = same_kind [OF assms(1-4)]
  have "\<exists>v'. short_write v
        (\<lambda>w. case data_array u of U8 x \<Rightarrow> Inr (f w x) | _ \<Rightarrow> Inl UndefinedBehaviour)
        (\<lambda>w. case data_array u of U16 x \<Rightarrow> Inr (g w x) | _ \<Rightarrow> Inl UndefinedBehaviour)
        (\<lambda>w. case data_array u of U32 x \<Rightarrow> Inr (h w x) | _ \<Rightarrow> Inl UndefinedBehaviour) = Inr v'
      \<and> stored v v' (\<lambda>i. op (bits v i) (bits u i))"
  proof (rule short_write_stored [OF assms(1,5)])
    show "\<not> op (bits v i) (bits u i)" if "num_bits v \<le> i" for i
      using that bv_inv_beyond [OF assms(1)] bv_inv_beyond [OF assms(2)] assms(3,6) by simp
  next
    fix w assume "data_array v = U8 w" "top_bit w = bits v"
    moreover obtain x where "data_array u = U8 x" "top_bit x = bits u" using K(1) calculation False by blast
    ultimately show "\<exists>w'. (case data_array u of U8 x \<Rightarrow> Inr (f w x) | _ \<Rightarrow> Inl UndefinedBehaviour) = Inr w'
        \<and> top_bit w' = (\<lambda>i. op (bits v i) (bits u i))" by (simp add: assms(7))
  next
    fix w assume "data_array v = U16 w" "top_bit w = bits v"
    moreover obtain x where "data_array u = U16 x" "top_bit x = bits u" using K(2) calculation by blast
    ultimately show "\<exists>w'. (case data_array u of U16 x \<Rightarrow> Inr (g w x) | _ \<Rightarrow> Inl UndefinedBehaviour) = Inr w'
        \<and> top_bit w' = (\<lambda>i. op (bits v i) (bits u i))" by (simp add: assms(8))
  next
    fix w assume "data_array v = U32 w" "top_bit w = bits v"
    moreover obtain x where "data_array u = U32 x" "top_bit x = bits u" using K(3) calculation by blast
    ultimately show "\<exists>w'. (case data_array u of U32 x \<Rightarrow> Inr (h w x) | _ \<Rightarrow> Inl UndefinedBehaviour) = Inr w'
        \<and> top_bit w' = (\<lambda>i. op (bits v i) (bits u i))" by (simp add: assms(9))
  qed
  with False show ?thesis by (simp add: short_combine_def)
qed

lemma words_combine_stored:
  assumes "bv_inv v" and "\<not> is_short v" and "\<not> op False False"
    and "\<And>i. num_bits v \<le> i \<Longrightarrow> i div 64 < limit \<Longrightarrow> \<not> op False (words_bit us i)"
    and "limit \<le> data_array_size v" and "limit \<le> length us"
    and "\<And>a b j. j < 64 \<Longrightarrow> top_bit (f a b) j = op (top_bit a j) (top_bit b j)"
  shows "\<exists>v'. write_words v (combine_words f limit us) = Inr v'
    \<and> stored v v' (\<lambda>i. if i div 64 < limit then op (bits v i) (words_bit us i) else bits v i)"
proof (rule write_words_stored [OF assms(1,2)])
  fix ws assume ws: "length ws = data_array_size v" "words_bit ws = bits v"
  obtain ws' where "combine_words f limit us ws = Inr ws'" "length ws' = length ws"
    "\<And>i. words_bit ws' i = (if i div 64 < limit then op (words_bit ws i) (words_bit us i) else words_bit ws i)"
    by (rule combine_words_bits [of limit ws us f op]) (use assms(5-7) ws(1) in simp_all)
  then show "\<exists>ws'. combine_words f limit us ws = Inr ws' \<and> length ws' = length ws \<and>
      words_bit ws' = (\<lambda>i. if i div 64 < limit then op (bits v i) (words_bit us i) else bits v i)"
    by (intro exI [of _ ws'] conjI ext) (simp_all add: ws(2))
next
  fix i assume "num_bits v \<le> i"
  then show "\<not> (if i div 64 < limit then op (bits v i) (words_bit us i) else bits v i)"
    using bv_inv_beyond [OF assms(1)] assms(4) by simp
qed

lemma words_combine_same:
  assumes "bv_inv v" and "bv_inv u" and "num_bits u = num_bits v" and "enable_short_version u = enable_short_version v"
    and "\<not> is_short v" and "\<not> op False False"
    and "\<And>a b j. j < 64 \<Longrightarrow> top_bit (f a b) j = op (top_bit a j) (top_bit b j)"
  shows "\<exists>v'. and_then (read_words u) (\<lambda>us. write_words v (combine_words f (data_array_size v) us)) = Inr v'
    \<and> stored v v' (\<lambda>i. op (bits v i) (bits u i))"
proof -
  note K = same_kind [OF assms(1-4)]
  obtain us where us: "read_words u = Inr us" "length us = data_array_size u" "bits u = words_bit us"
    using regular_words [OF assms(2)] K(5) assms(4,5) by metis
  have "\<exists>v'. write_words v (combine_words f (data_array_size v) us) = Inr v'
      \<and> stored v v' (\<lambda>i. if i div 64 < data_array_size v then op (bits v i) (words_bit us i) else bits v i)"
    using bv_inv_beyond [OF assms(2)] us K(4) assms(3,6,7)
    by (intro words_combine_stored [where op = op, OF assms(1,5,6)]) auto
  moreover have "(if i div 64 < data_array_size v then op (bits v i) (words_bit us i) else bits v i) = op (bits v i) (bits u i)" for i
  proof (cases "i < num_bits v")
    case True
    then show ?thesis using index_in_size us(3) by simp
  next
    case False
    then show ?thesis using bv_inv_beyond [OF assms(1)] bv_inv_beyond [OF assms(2)] assms(3,6) us(3) by auto
  qed
  ultimately show ?thesis using us(1) by simp
qed

lemma intersectWith_spec:
  assumes "bv_inv v" and "bv_inv u" and "num_bits u = num_bits v" and "enable_short_version u = enable_short_version v"
  shows "\<exists>v'. intersectWith v u = Inr v' \<and> stored v v' (\<lambda>i. bits v i \<and> bits u i)"
proof (cases "is_short v")
  case True
  then show ?thesis using short_combine_stored [OF assms True, of "(\<and>)" "(AND)" "(AND)" "(AND)"] assms(3)
    by (simp add: intersectWith_def fun_eq_iff)
next
  case False
  then show ?thesis using words_combine_same [OF assms False, of "(\<and>)" "(AND)"] assms(3) not_short [OF assms(1) False]
    unfolding intersectWith_def by simp
qed

lemma unionWith_spec:
  assumes "bv_inv v" and "bv_inv u" and "num_bits u = num_bits v" and "enable_short_version u = enable_short_version v"
  shows "\<exists>v'. unionWith v u = Inr v' \<and> stored v v' (\<lambda>i. bits v i \<or> bits u i)"
proof (cases "is_short v")
  case True
  then show ?thesis using short_combine_stored [OF assms True, of "(\<or>)" "(OR)" "(OR)" "(OR)"] assms(3)
    by (simp add: unionWith_def fun_eq_iff)
next
  case False
  then show ?thesis using words_combine_same [OF assms False, of "(\<or>)" "(OR)"] assms(3) not_short [OF assms(1) False]
    unfolding unionWith_def by simp
qed

text \<open>C27. The set operations compute intersection, union and complement of the sets of positions, for every
  representation: two vectors of the same length and template argument are combined bit by bit, a
  vector is flipped within its length, and the memory beyond the last bit stays clean.\<close>

theorem set_operations_correct:
  assumes "bv_inv v" and "bv_inv u" and "num_bits u = num_bits v" and "enable_short_version u = enable_short_version v"
  shows "(\<exists>v'. intersectWith v u = Inr v' \<and> stored v v' (\<lambda>i. bits v i \<and> bits u i))
    \<and> (\<exists>v'. unionWith v u = Inr v' \<and> stored v v' (\<lambda>i. bits v i \<or> bits u i))
    \<and> (\<exists>v'. flipBits v = Inr v' \<and> stored v v' (\<lambda>i. i < num_bits v \<and> \<not> bits v i))"
  using intersectWith_spec [OF assms] unionWith_spec [OF assms] flipBits_spec [OF assms(1)] by blast

lemma assignFrom_spec:
  assumes "bv_inv v" and "bv_inv u" and "num_bits u = num_bits v" and "enable_short_version u = enable_short_version v"
  shows "\<exists>v'. assignFrom v u = Inr v' \<and> stored v v' (bits u)"
  using assms stored_update [OF assms(1), of "data_array u" "bits u"]
  by (simp add: assignFrom_def bv_inv_def bits_def)

lemma size_mono: "num_bits v \<le> num_bits u \<Longrightarrow> data_array_size v \<le> data_array_size u"
proof -
  assume le: "num_bits v \<le> num_bits u"
  have "data_array_size v * 64 < data_array_size u * 64 + 64"
    using le size_le_num_bits [of v] num_bits_le_size [of u] by linarith
  then show ?thesis by simp
qed

lemma assignFromLonger_spec:
  assumes "bv_inv v" and "bv_inv u" and le: "num_bits v \<le> num_bits u"
    and e: "\<not> enable_short_version v" "\<not> enable_short_version u"
  shows "\<exists>v'. assignFromLonger v u = Inr v' \<and> stored v v' (\<lambda>i. i < num_bits v \<and> bits u i)"
proof -
  obtain us where us: "read_words u = Inr us" "length us = data_array_size u" "bits u = words_bit us"
    using regular_words [OF assms(2)] e(2) by blast
  let ?n = "data_array_size v" and ?r = "num_bits v mod 64"
  have n: "?n \<le> length us" using size_mono [OF le] us(2) by simp
  have copy: "words_bit (take ?n us) i = (i div 64 < ?n \<and> words_bit us i)" for i
    using n by (auto simp: words_bit_def)
  let ?f = "\<lambda>ws. and_then (memcpy_words us ?n) (\<lambda>ws1. if ?r \<noteq> 0 then
      and_then (vec_at ws1 (?n - 1)) (\<lambda>w. vec_set ws1 (?n - 1) (w AND MaskBitRange 0 ?r)) else Inr ws1)"
  have "\<exists>v'. write_words v ?f = Inr v' \<and> stored v v' (\<lambda>i. i < num_bits v \<and> bits u i)"
  proof (rule write_words_stored [OF assms(1)])
    fix ws :: "64 word list" assume ws: "length ws = ?n"
    show "\<exists>ws'. ?f ws = Inr ws' \<and> length ws' = length ws \<and> words_bit ws' = (\<lambda>i. i < num_bits v \<and> bits u i)"
    proof (cases "?r = 0")
      case True
      have "i div 64 < ?n \<longleftrightarrow> i < num_bits v" for i
        using True by (rule_tac split64 [of i], rule_tac split64 [of "num_bits v"]) (auto simp: data_array_size_def)
      then show ?thesis using True n ws by (simp add: memcpy_words_def fun_eq_iff copy us(3))
    next
      case False
      let ?ws = "(take ?n us)[?n - 1 := take ?n us ! (?n - 1) AND MaskBitRange 0 ?r]"
      have l: "?n - 1 < length (take ?n us)" using False n by (simp add: data_array_size_def)
      have "words_bit ?ws i = (i < num_bits v \<and> bits u i)" for i
      proof (rule split64 [of i], rule split64 [of "num_bits v"])
        fix q r q' r' assume m: "num_bits v = 64 * q + r" "r < 64" "num_bits v div 64 = q" "num_bits v mod 64 = r"
          and i: "i = 64 * q' + r'" "r' < 64" "i div 64 = q'" "i mod 64 = r'"
        have s: "?n = q + 1" using False by (simp add: data_array_size_def m(3,4))
        have iff: "i < num_bits v \<longleftrightarrow> q' < q \<or> q' = q \<and> r' < r" using m(1,2) i(1,2) by auto
        show ?thesis unfolding words_bit_update [OF l] i(3,4) m(4) copy iff us(3) using s n i
          by (auto simp: words_bit_def)
      qed
      moreover have "?f ws = Inr ?ws" using False n l by (simp add: memcpy_words_def)
      ultimately show ?thesis using ws n by (intro exI [of _ ?ws] conjI ext) simp_all
    qed
  qed (use e in simp_all)
  then show ?thesis using e le us(1) by (simp add: assignFromLonger_def)
qed

lemma unsetFrom_spec:
  assumes "bv_inv v" and "bv_inv u" and e: "\<not> enable_short_version v" "\<not> enable_short_version u"
  shows "\<exists>v'. unsetFrom v u = Inr v' \<and> stored v v' (\<lambda>i. bits v i \<and> \<not> bits u i)"
proof -
  obtain us where us: "read_words u = Inr us" "length us = data_array_size u" "bits u = words_bit us"
    using regular_words [OF assms(2)] e(2) by blast
  let ?l = "if data_array_size v < data_array_size u then data_array_size v else data_array_size u"
  have "\<exists>v'. write_words v (combine_words (\<lambda>a b. a AND NOT b) ?l us) = Inr v' \<and>
      stored v v' (\<lambda>i. if i div 64 < ?l then bits v i \<and> \<not> words_bit us i else bits v i)"
    using us(2) e by (intro words_combine_stored [where op = "\<lambda>a b. a \<and> \<not> b", OF assms(1)]) auto
  moreover have "(if i div 64 < ?l then bits v i \<and> \<not> words_bit us i else bits v i) = (bits v i \<and> \<not> bits u i)" for i
  proof (cases "i div 64 < data_array_size v")
    case True
    then show ?thesis using us(2,3) by (auto simp: words_bit_def)
  next
    case False
    then have "\<not> bits v i" using index_in_size [of i v] bv_inv_beyond [OF assms(1), of i] by (meson not_less)
    then show ?thesis by simp
  qed
  ultimately show ?thesis using us(1) e by (simp add: unsetFrom_def)
qed

text \<open>Between vectors of different lengths, regular vectors only: assigning from a longer vector takes its
  bits up to the own length, and unsetting removes exactly the positions of the other vector,
  whichever one is longer.\<close>

theorem mixed_length_operations_correct:
  assumes "bv_inv v" and "bv_inv u" and "\<not> enable_short_version v" and "\<not> enable_short_version u"
  shows "(\<exists>v'. unsetFrom v u = Inr v' \<and> stored v v' (\<lambda>i. bits v i \<and> \<not> bits u i))
    \<and> (if num_bits v \<le> num_bits u
       then \<exists>v'. assignFromLonger v u = Inr v' \<and> stored v v' (\<lambda>i. i < num_bits v \<and> bits u i)
       else assignFromLonger v u = Inl CheckFailed)"
  using unsetFrom_spec [OF assms] assignFromLonger_spec [OF assms(1,2) _ assms(3,4)] assms(3)
  by (auto simp: assignFromLonger_def)

section \<open>Witnesses\<close>

definition short_example :: BitVector where
  "short_example = BitVector_owned True (U8 0) 5 True"

definition long_example :: BitVector where
  "long_example = BitVector_owned False (Words [0, 0]) 128 True"

lemma short_example_inv: "bv_inv short_example" and long_example_inv: "bv_inv long_example"
  unfolding short_example_def long_example_def
  by (rule BitVector_owned_inv, simp add: storage_fits_def)+

lemma example_sizes [simp]:
  "num_bits short_example = 5" "enable_short_version short_example" "short_version short_example"
  "num_bits long_example = 128" "\<not> enable_short_version long_example" "\<not> short_version long_example"
  by (simp_all add: short_example_def long_example_def BitVector_owned_def clear_def)

theorem setBit_getBit_witness:
  "bv_inv short_example \<and> (\<exists>v'. setBit short_example 3 True = Inr v' \<and> getBit v' 3 = Inr True)"
  using short_example_inv setBit_getBit [OF short_example_inv, of 3 True] by auto


theorem set_operations_correct_witness:
  "bv_inv short_example \<and> (\<exists>v'. intersectWith short_example short_example = Inr v')"
  using short_example_inv set_operations_correct [OF short_example_inv short_example_inv] by blast

theorem mixed_length_operations_correct_witness:
  "bv_inv long_example \<and> (\<exists>v'. unsetFrom long_example long_example = Inr v')"
  using long_example_inv mixed_length_operations_correct [OF long_example_inv long_example_inv] by auto

end
