(* ===== verification/BitVectorShifts.thy ===== *)
theory BitVectorShifts
  imports BitVectors
begin

unbundle bit_operations_syntax

text \<open>
  Shifting the tail of a bit vector, as the column stores do with their null bitmaps when tuples are
  deleted or inserted: \<^verbatim>\<open>shiftTailForward\<close> moves the bits behind a gap to its start, \<^verbatim>\<open>shiftTailBackward\<close>
  opens a gap.  The words are rewritten in place; sums of positions wrap at 64 bits.
\<close>

section \<open>Operations\<close>

definition memmove_words :: "64 word list \<Rightarrow> nat \<Rightarrow> nat \<Rightarrow> nat \<Rightarrow> 64 word list result" where
  "memmove_words ws dest src num_words =
     (if dest + num_words \<le> length ws \<and> src + num_words \<le> length ws
      then Inr (take dest ws @ take num_words (drop src ws) @ drop (dest + num_words) ws) else Inl OutOfRange)"

definition zero_from :: "64 word list \<Rightarrow> nat \<Rightarrow> 64 word list result" where
  "zero_from ws dest_element = memset_words ws dest_element 0 (length ws - dest_element)"

function forward_loop :: "64 word list \<Rightarrow> nat \<Rightarrow> nat \<Rightarrow> nat \<Rightarrow> (64 word list \<times> nat \<times> nat) result" where
  "forward_loop ws dest_element src_element src_lower_bits =
     (if src_element < length ws - 1 then
        and_then (vec_at ws src_element) (\<lambda>a.
        and_then (vec_at ws (src_element + 1)) (\<lambda>b.
        and_then (vec_set ws dest_element (push_bit src_lower_bits a OR drop_bit (64 - src_lower_bits) b)) (\<lambda>ws1.
          forward_loop ws1 (dest_element + 1) (src_element + 1) src_lower_bits)))
      else Inr (ws, dest_element, src_element))"
  by pat_completeness auto
termination
  by (relation "measure (\<lambda>(ws, d, s, l). length ws - s)") (auto simp: res_simps)

declare forward_loop.simps [simp del]

text \<open>The whole words, from an element to an element, and the zeroes at the end.\<close>

definition forward_words :: "64 word list \<Rightarrow> nat \<Rightarrow> nat \<Rightarrow> nat \<Rightarrow> 64 word list result" where
  "forward_words ws dest_element src_element src_lower_bits =
     (if src_lower_bits \<noteq> 0 then
        and_then (forward_loop ws dest_element src_element src_lower_bits) (\<lambda>(ws1, dest1, src1).
        and_then (vec_at ws1 src1) (\<lambda>a.
        and_then (vec_set ws1 dest1 (push_bit src_lower_bits a)) (\<lambda>ws2. zero_from ws2 (dest1 + 1))))
      else
        and_then (memmove_words ws dest_element src_element (length ws - src_element)) (\<lambda>ws1.
          zero_from ws1 (dest_element + (length ws - src_element))))"

definition shiftTailForwardRegularVersion :: "64 word list \<Rightarrow> nat \<Rightarrow> nat \<Rightarrow> 64 word list result" where
  "shiftTailForwardRegularVersion ws tail_start shift_distance =
     (if shift_distance = 0 then Inr ws
      else
        (let dest_element = tail_start div 64;
             dest_lower_bits = tail_start mod 64;
             src_element = size_add tail_start shift_distance div 64;
             src_lower_bits = size_add tail_start shift_distance mod 64 in
         if src_element \<ge> length ws then
           (if dest_lower_bits \<noteq> 0 then
              and_then (vec_at ws dest_element) (\<lambda>w.
              and_then (vec_set ws dest_element (w AND MaskBitRange 0 dest_lower_bits)) (\<lambda>ws1.
                zero_from ws1 (dest_element + 1)))
            else zero_from ws dest_element)
         else if dest_lower_bits \<noteq> 0 then
           and_then (vec_at ws dest_element) (\<lambda>d.
           and_then (vec_at ws src_element) (\<lambda>a.
           and_then (vec_set ws dest_element
              ((d AND MaskBitRange 0 dest_lower_bits) OR drop_bit dest_lower_bits (push_bit src_lower_bits a))) (\<lambda>ws1.
             if dest_lower_bits < src_lower_bits then
               (let dest_lower_bits1 = dest_lower_bits + (64 - src_lower_bits); src_element1 = src_element + 1 in
                if src_element1 = length ws then zero_from ws1 (dest_element + 1)
                else
                  and_then (vec_at ws1 src_element1) (\<lambda>b.
                  and_then (vec_at ws1 dest_element) (\<lambda>d1.
                  and_then (vec_set ws1 dest_element (d1 OR drop_bit dest_lower_bits1 b)) (\<lambda>ws2.
                    forward_words ws2 (dest_element + 1) src_element1 (64 - dest_lower_bits1)))))
             else
               (let src_lower_bits1 = src_lower_bits + (64 - dest_lower_bits) in
                forward_words ws1 (dest_element + 1) (src_element + src_lower_bits1 div 64) (src_lower_bits1 mod 64)))))
         else forward_words ws dest_element src_element src_lower_bits))"

text \<open>The shifts of a short vector are performed in a 32-bit type.\<close>

definition shiftTailForwardShortVersion :: "nat \<Rightarrow> nat \<Rightarrow> 'a::len word \<Rightarrow> 'a word result" where
  "shiftTailForwardShortVersion tail_start shift_distance w =
     and_then (check UndefinedBehaviour (size_add tail_start shift_distance < 32 \<and> shift_distance < 32)) (\<lambda>_.
       (let head = w AND MaskBitRange 0 tail_start;
            tail = w AND MaskBitRange (size_add tail_start shift_distance) LENGTH('a) in
        Inr (head OR push_bit shift_distance tail)))"

definition shiftTailForward :: "BitVector \<Rightarrow> nat \<Rightarrow> nat \<Rightarrow> BitVector result" where
  "shiftTailForward v tail_start shift_distance =
     and_then (check CheckFailed (tail_start < num_bits v)) (\<lambda>_.
       if is_short v then
         short_write v (shiftTailForwardShortVersion tail_start shift_distance)
           (shiftTailForwardShortVersion tail_start shift_distance)
           (shiftTailForwardShortVersion tail_start shift_distance)
       else write_words v (\<lambda>ws. shiftTailForwardRegularVersion ws tail_start shift_distance))"

function backward_loop :: "64 word list \<Rightarrow> nat \<Rightarrow> nat \<Rightarrow> nat \<Rightarrow> nat \<Rightarrow> 64 word list result" where
  "backward_loop ws element low shift_elements shift_lower_bits =
     (if element > low then
        and_then (vec_at ws (element - shift_elements)) (\<lambda>a.
        and_then (vec_at ws (element - shift_elements - 1)) (\<lambda>b.
        and_then (vec_set ws element (drop_bit shift_lower_bits a OR push_bit (64 - shift_lower_bits) b)) (\<lambda>ws1.
          backward_loop ws1 (element - 1) low shift_elements shift_lower_bits)))
      else Inr ws)"
  by pat_completeness auto
termination
  by (relation "measure (\<lambda>(ws, e, low, s, l). e)") auto

declare backward_loop.simps [simp del]

text \<open>\<open>&=\<close> on one element.\<close>

definition and_word :: "64 word list \<Rightarrow> nat \<Rightarrow> 64 word \<Rightarrow> 64 word list result" where
  "and_word ws element m = and_then (vec_at ws element) (\<lambda>w. vec_set ws element (w AND m))"

text \<open>The branch with a shift inside words, after the construction of the shifted elements.\<close>

definition backward_first_words :: "64 word list \<Rightarrow> 64 word \<Rightarrow> nat \<Rightarrow> nat \<Rightarrow> nat \<Rightarrow> nat \<Rightarrow> 64 word list result" where
  "backward_first_words ws tail_bits te tlb se sl =
     (if se \<noteq> 0 then
        and_then (vec_set ws (te + se) (drop_bit sl tail_bits)) (\<lambda>ws1.
        and_then (if tlb \<noteq> 0 then and_word ws1 te (NOT (MaskBitRange tlb 64)) else Inr ws1) (\<lambda>ws2.
          memset_words ws2 (te + 1) 0 (se - 1)))
      else
        and_then (vec_at ws te) (\<lambda>w.
          if tlb \<noteq> 0 then
            vec_set ws te ((w AND MaskBitRange 0 tlb) OR drop_bit sl (w AND MaskBitRange tlb 64))
          else vec_set ws te (drop_bit sl w)))"

definition shiftTailBackwardRegularVersion :: "nat \<Rightarrow> 64 word list \<Rightarrow> nat \<Rightarrow> nat \<Rightarrow> 64 word list result" where
  "shiftTailBackwardRegularVersion n ws tail_start shift_distance =
     (if shift_distance = 0 then Inr ws
      else
        (let te = tail_start div 64; tlb = tail_start mod 64 in
         if size_add tail_start shift_distance > n then
           (let full_words = length ws - te - (if tlb \<noteq> 0 then 1 else 0) in
            and_then (if full_words \<noteq> 0 then memset_words ws (te + (if tlb \<noteq> 0 then 1 else 0)) 0 full_words else Inr ws) (\<lambda>ws1.
              if tlb \<noteq> 0 then and_word ws1 te (NOT (MaskBitRange tlb 64)) else Inr ws1))
         else
           (let se = shift_distance div 64; sl = shift_distance mod 64 in
            and_then (vec_at ws te) (\<lambda>w.
              (let tail_bits = drop_bit tlb (push_bit tlb w) in
               and_then
                 (if sl \<noteq> 0 then
                    and_then (backward_loop ws (length ws - 1) (te + se + 1) se sl) (\<lambda>ws1.
                    and_then (if te + se + 1 < length ws then
                                and_then (vec_at ws1 (te + 1)) (\<lambda>a.
                                  vec_set ws1 (te + se + 1) (drop_bit sl a OR push_bit (64 - sl) tail_bits))
                              else Inr ws1) (\<lambda>ws2.
                      backward_first_words ws2 tail_bits te tlb se sl))
                  else
                    and_then (memmove_words ws (te + se) te (length ws - te - se)) (\<lambda>ws1.
                      if tlb \<noteq> 0 then
                        and_then (and_word ws1 te (MaskBitRange 0 tlb)) (\<lambda>ws2.
                        and_then (and_word ws2 (te + se) (MaskBitRange tlb 64)) (\<lambda>ws3.
                          memset_words ws3 (te + 1) 0 (se - 1)))
                      else memset_words ws1 te 0 se))
                 (\<lambda>ws4. if n mod 64 \<noteq> 0 then and_word ws4 (length ws - 1) (MaskBitRange 0 (n mod 64)) else Inr ws4))))))"

definition shiftTailBackwardShortVersion :: "nat \<Rightarrow> nat \<Rightarrow> 'a::len word \<Rightarrow> 'a word result" where
  "shiftTailBackwardShortVersion tail_start shift_distance w =
     and_then (check UndefinedBehaviour (shift_distance < 32)) (\<lambda>_.
       (let head = w AND MaskBitRange 0 tail_start;
            tail = w AND MaskBitRange tail_start LENGTH('a) in
        Inr (head OR drop_bit shift_distance tail)))"

definition shiftTailBackward :: "BitVector \<Rightarrow> nat \<Rightarrow> nat \<Rightarrow> BitVector result" where
  "shiftTailBackward v tail_start shift_distance =
     and_then (check CheckFailed (tail_start < num_bits v)) (\<lambda>_.
       if is_short v then
         short_write v (shiftTailBackwardShortVersion tail_start shift_distance)
           (shiftTailBackwardShortVersion tail_start shift_distance)
           (shiftTailBackwardShortVersion tail_start shift_distance)
       else write_words v (\<lambda>ws. shiftTailBackwardRegularVersion (num_bits v) ws tail_start shift_distance))"

section \<open>Moving words\<close>

lemma words_bitI:
  assumes "length ws' = n" and "\<And>k j. k < n \<Longrightarrow> j < 64 \<Longrightarrow> top_bit (ws' ! k) j = G (64 * k + j)"
    and "\<And>i. 64 * n \<le> i \<Longrightarrow> \<not> G i"
  shows "words_bit ws' i = G i"
proof (rule split64 [of i])
  fix q r assume i: "i = 64 * q + r" "r < 64" "i div 64 = q" "i mod 64 = r"
  show ?thesis
  proof (cases "q < n")
    case True
    then show ?thesis using assms(1) assms(2) [OF True i(2)] i by (simp add: words_bit_def)
  next
    case False
    then have "64 * n \<le> i" using i(1) by simp
    then show ?thesis using assms(1) assms(3) False i(3) by (simp add: words_bit_def)
  qed
qed

lemma words_bit_beyond: "64 * length ws \<le> i \<Longrightarrow> \<not> words_bit ws i"
  by (rule split64 [of i]) (auto simp: words_bit_def)

lemma words_bit_other: "i div 64 \<noteq> k \<Longrightarrow> words_bit (ws[k := w]) i = words_bit ws i"
  by (cases "k < length ws") (simp_all add: words_bit_update list_update_beyond)

text \<open>A word made of the end of one word and the start of the next one.\<close>

lemma joined_bits:
  assumes "0 < sl" and "sl < 64" and "k < length ws" and "j < 64"
  shows "top_bit (push_bit sl (ws ! k) OR drop_bit (64 - sl) b) j =
    (if j + sl < 64 then words_bit ws (64 * k + sl + j) else top_bit b (j + sl - 64))"
proof (cases "j + sl < 64")
  case True
  then have "words_bit ws (64 * k + sl + j) = top_bit (ws ! k) (j + sl)"
    using words_bit_nth [OF assms(3) True] by (simp add: ac_simps)
  then show ?thesis using True assms(2) by auto
next
  case False
  then have "j - (64 - sl) = j + sl - 64" using assms(2) by simp
  then show ?thesis using False assms(4) by (auto dest: top_bit_less)
qed

lemma forward_loop_spec:
  assumes "dest \<le> src" and "src < length ws" and sl: "0 < sl" "sl < 64"
  shows "\<exists>ws'. forward_loop ws dest src sl = Inr (ws', dest + (length ws - 1 - src), length ws - 1) \<and> length ws' = length ws
    \<and> (\<forall>i. words_bit ws' i = (if dest \<le> i div 64 \<and> i div 64 < dest + (length ws - 1 - src)
          then words_bit ws (64 * src + sl + (i - 64 * dest)) else words_bit ws i))"
  using assms(1,2)
proof (induction "length ws - 1 - src" arbitrary: ws dest src)
  case 0
  then show ?case by (subst forward_loop.simps) auto
next
  case (Suc m)
  let ?w = "push_bit sl (ws ! src) OR drop_bit (64 - sl) (ws ! (src + 1))" and ?n = "length ws"
  let ?ws = "ws[dest := ?w]"
  have s1: "src + 1 < ?n" and d: "dest < ?n" using Suc.hyps(2) Suc.prems by auto
  have w: "top_bit ?w j = words_bit ws (64 * src + sl + j)" if "j < 64" for j
  proof -
    have "top_bit (ws ! (src + 1)) (j + sl - 64) = words_bit ws (64 * src + sl + j)" if "\<not> j + sl < 64"
      using words_bit_nth [OF s1, of "j + sl - 64"] that sl \<open>j < 64\<close> by (simp add: algebra_simps)
    then show ?thesis using joined_bits [OF sl Suc.prems(2) that] by auto
  qed
  obtain ws' where ws': "forward_loop ?ws (dest + 1) (src + 1) sl = Inr (ws', dest + 1 + (?n - 1 - (src + 1)), ?n - 1)"
    "length ws' = ?n"
    "\<And>i. words_bit ws' i = (if dest + 1 \<le> i div 64 \<and> i div 64 < dest + 1 + (?n - 1 - (src + 1))
          then words_bit ?ws (64 * (src + 1) + sl + (i - 64 * (dest + 1))) else words_bit ?ws i)"
  proof -
    have "m = length ?ws - 1 - (src + 1)" "dest + 1 \<le> src + 1" "src + 1 < length ?ws"
      using Suc.hyps(2) Suc.prems(1) s1 by simp_all
    from Suc.hyps(1) [OF this, unfolded length_list_update] that show thesis by blast
  qed
  have e: "dest + 1 + (?n - 1 - (src + 1)) = dest + (?n - 1 - src)" using s1 by simp
  have run: "forward_loop ws dest src sl = Inr (ws', dest + (?n - 1 - src), ?n - 1)"
  proof -
    have "src < ?n - 1" using s1 by simp
    then show ?thesis using s1 d ws'(1) e by (subst forward_loop.simps) simp
  qed
  have "words_bit ws' i = (if dest \<le> i div 64 \<and> i div 64 < dest + (?n - 1 - src)
          then words_bit ws (64 * src + sl + (i - 64 * dest)) else words_bit ws i)" for i
  proof (rule split64 [of i])
    fix q r assume i: "i = 64 * q + r" "r < 64" "i div 64 = q" "i mod 64 = r"
    show ?thesis
    proof (cases "q = dest")
      case True
      then have "words_bit ws' i = words_bit ?ws i" unfolding ws'(3) i(3) by simp
      also have "\<dots> = top_bit ?w r" using d i True by (simp add: words_bit_update)
      also have "\<dots> = words_bit ws (64 * src + sl + r)" by (rule w [OF i(2)])
      finally have "words_bit ws' i = words_bit ws (64 * src + sl + (i - 64 * dest))" using True i by simp
      moreover have "dest \<le> i div 64 \<and> i div 64 < dest + (?n - 1 - src)" using True i(3) s1 by linarith
      ultimately show ?thesis by (simp only: if_P)
    next
      case False
      have far: "words_bit ?ws (64 * (src + 1) + sl + x) = words_bit ws (64 * (src + 1) + sl + x)" for x
      proof (rule words_bit_other)
        have "64 * (src + 1) \<le> 64 * (src + 1) + sl + x" by simp
        then have "src + 1 \<le> (64 * (src + 1) + sl + x) div 64" using div_le_mono by fastforce
        then show "(64 * (src + 1) + sl + x) div 64 \<noteq> dest" using Suc.prems(1) by simp
      qed
      have near: "words_bit ?ws i = words_bit ws i" using False i(3) by (intro words_bit_other) simp
      show ?thesis
      proof (cases "dest \<le> q \<and> q < dest + (?n - 1 - src)")
        case True
        then have c: "dest + 1 \<le> q \<and> q < dest + (?n - 1 - src)" using False by auto
        have "64 * (src + 1) + sl + (i - 64 * (dest + 1)) = 64 * src + sl + (i - 64 * dest)" using c i(1) by simp
        then show ?thesis unfolding ws'(3) far e i(3) if_P [OF True] if_P [OF c] by (simp only:)
      next
        case f: False
        then have g: "\<not> (dest + 1 \<le> q \<and> q < dest + (?n - 1 - src))" by auto
        show ?thesis unfolding ws'(3) e i(3) if_not_P [OF f] if_not_P [OF g] by (rule near)
      qed
    qed
  qed
  with run ws'(2) show ?case by blast
qed

lemma zero_from_bits:
  assumes "d \<le> length ws"
  obtains ws' where "zero_from ws d = Inr ws'" "length ws' = length ws"
    "\<And>i. words_bit ws' i = (i < 64 * d \<and> words_bit ws i)"
proof -
  obtain ws' where ws': "memset_words ws d 0 (length ws - d) = Inr ws'" "length ws' = length ws"
    "\<And>i. words_bit ws' i = (if d \<le> i div 64 \<and> i div 64 < d + (length ws - d) then top_bit (0 :: 64 word) (i mod 64) else words_bit ws i)"
    by (rule memset_words_bits [of d "length ws - d" ws]) (use assms in auto)
  have "words_bit ws' i = (i < 64 * d \<and> words_bit ws i)" for i
    unfolding ws'(3) using assms by (rule_tac split64 [of i]) (auto simp: words_bit_def)
  with ws' that show ?thesis by (simp add: zero_from_def)
qed

lemma memmove_bits:
  assumes "dest + n \<le> length ws" and "src + n \<le> length ws"
  obtains ws' where "memmove_words ws dest src n = Inr ws'" "length ws' = length ws"
    "\<And>k. k < length ws \<Longrightarrow> ws' ! k = (if dest \<le> k \<and> k < dest + n then ws ! (src + (k - dest)) else ws ! k)"
proof -
  let ?ws = "take dest ws @ take n (drop src ws) @ drop (dest + n) ws"
  have "?ws ! k = (if dest \<le> k \<and> k < dest + n then ws ! (src + (k - dest)) else ws ! k)" if "k < length ws" for k
    using that assms by (auto simp: nth_append)
  moreover have "length ?ws = length ws" using assms by simp
  ultimately show ?thesis using that [of ?ws] assms by (simp add: memmove_words_def)
qed

lemma forward_words_spec:
  assumes "dest \<le> src" and "src < length ws \<or> src = length ws \<and> sl = 0" and "sl < 64"
  obtains ws' where "forward_words ws dest src sl = Inr ws'" "length ws' = length ws"
    "\<And>i. words_bit ws' i = words_bit ws (if i < 64 * dest then i else 64 * src + sl + (i - 64 * dest))"
proof (cases "sl = 0")
  case True
  let ?n = "length ws"
  have s: "src \<le> ?n" using assms(2) by auto
  obtain ws1 where ws1: "memmove_words ws dest src (?n - src) = Inr ws1" "length ws1 = ?n"
    "\<And>k. k < ?n \<Longrightarrow> ws1 ! k = (if dest \<le> k \<and> k < dest + (?n - src) then ws ! (src + (k - dest)) else ws ! k)"
    by (rule memmove_bits [of dest "?n - src" ws src]) (use assms(1) s in auto)
  obtain ws' where ws': "zero_from ws1 (dest + (?n - src)) = Inr ws'" "length ws' = length ws1"
    "\<And>i. words_bit ws' i = (i < 64 * (dest + (?n - src)) \<and> words_bit ws1 i)"
    by (rule zero_from_bits [of "dest + (?n - src)" ws1]) (use assms(1) s ws1(2) in auto)
  have "words_bit ws' i = words_bit ws (if i < 64 * dest then i else 64 * src + sl + (i - 64 * dest))" for i
  proof (rule split64 [of i])
    fix q r assume i: "i = 64 * q + r" "r < 64" "i div 64 = q" "i mod 64 = r"
    show ?thesis
    proof (cases "q < dest")
      case a: True
      then have "words_bit ws1 i = words_bit ws i" using i ws1(2) ws1(3) [of q] by (auto simp: words_bit_def)
      then show ?thesis using a i ws'(3) by simp
    next
      case a: False
      then have e: "64 * src + sl + (i - 64 * dest) = 64 * (src + (q - dest)) + r" using True i(1) by (simp add: algebra_simps)
      have "words_bit ws (64 * (src + (q - dest)) + r) = (q < dest + (?n - src) \<and> top_bit (ws ! (src + (q - dest))) r)"
        using i(2) a s by (auto simp: words_bit_def)
      moreover have "words_bit ws1 i = top_bit (ws ! (src + (q - dest))) r" if "q < dest + (?n - src)"
      proof -
        have "q < ?n" using that assms(1) s by linarith
        then show ?thesis using that a i ws1(2) ws1(3) [of q] by (simp add: words_bit_def)
      qed
      moreover have "i < 64 * (dest + (?n - src)) \<longleftrightarrow> q < dest + (?n - src)" using i(1,2) by auto
      ultimately show ?thesis using a i e ws'(3) by auto
    qed
  qed
  then show ?thesis using that [of ws'] ws1 ws' True by (simp add: forward_words_def)
next
  case False
  let ?n = "length ws" and ?m = "length ws - 1 - src"
  have s: "src < ?n" and sl: "0 < sl" using assms(2) False by auto
  obtain ws1 where ws1: "forward_loop ws dest src sl = Inr (ws1, dest + ?m, ?n - 1)" "length ws1 = ?n"
    "\<And>i. words_bit ws1 i = (if dest \<le> i div 64 \<and> i div 64 < dest + ?m
          then words_bit ws (64 * src + sl + (i - 64 * dest)) else words_bit ws i)"
    using forward_loop_spec [OF assms(1) s sl assms(3)] by blast
  let ?w = "push_bit sl (ws1 ! (?n - 1))"
  have d: "dest + ?m < ?n" using assms(1) s by simp
  obtain ws' where ws': "zero_from (ws1[dest + ?m := ?w]) (dest + ?m + 1) = Inr ws'" "length ws' = ?n"
    "\<And>i. words_bit ws' i = (i < 64 * (dest + ?m + 1) \<and> words_bit (ws1[dest + ?m := ?w]) i)"
    by (rule zero_from_bits [of "dest + ?m + 1" "ws1[dest + ?m := ?w]"]) (use d ws1(2) in auto)
  have last: "top_bit ?w j = words_bit ws (64 * (?n - 1) + sl + j)" if "j < 64" for j
  proof (cases "j + sl < 64")
    case True
    have "top_bit (ws1 ! (?n - 1)) (j + sl) = words_bit ws1 (64 * (?n - 1) + (j + sl))"
      using words_bit_nth [of "?n - 1" ws1 "j + sl"] True ws1(2) s by simp
    also have "\<dots> = words_bit ws (64 * (?n - 1) + (j + sl))"
      unfolding ws1(3) using True assms(1) s d by auto
    finally show ?thesis by (simp add: ac_simps)
  next
    case f: False
    then have "\<not> words_bit ws (64 * (?n - 1) + sl + j)" using s by (intro words_bit_beyond) auto
    then show ?thesis using f by (auto dest: top_bit_less)
  qed
  have "words_bit ws' i = words_bit ws (if i < 64 * dest then i else 64 * src + sl + (i - 64 * dest))" for i
  proof (rule split64 [of i])
    fix q r assume i: "i = 64 * q + r" "r < 64" "i div 64 = q" "i mod 64 = r"
    consider "q < dest + ?m" | "q = dest + ?m" | "dest + ?m < q" by linarith
    then show ?thesis
    proof cases
      case 1
      then have "words_bit ws' i = words_bit ws1 i" unfolding ws'(3) using i by (simp add: words_bit_other)
      moreover have "q < dest \<longleftrightarrow> i < 64 * dest" using i(1,2) by auto
      ultimately show ?thesis unfolding ws1(3) i(3) using 1 by auto
    next
      case 2
      then have "words_bit ws' i = top_bit ?w r" unfolding ws'(3) using i d ws1(2) by (simp add: words_bit_update)
      also have "\<dots> = words_bit ws (64 * (?n - 1) + sl + r)" by (rule last [OF i(2)])
      also have "64 * (?n - 1) + sl + r = 64 * src + sl + (i - 64 * dest)" using i(1) 2 s by (simp add: algebra_simps)
      finally show ?thesis using 2 i(1) by simp
    next
      case 3
      then have "\<not> words_bit ws' i" unfolding ws'(3) using i(1) by auto
      moreover have "\<not> words_bit ws (64 * src + sl + (i - 64 * dest))" using 3 i(1) s by (intro words_bit_beyond) auto
      ultimately show ?thesis using 3 i(1) by simp
    qed
  qed
  then show ?thesis using that [of ws'] ws1(1,2) ws'(1,2) False d s by (simp add: forward_words_def)
qed

section \<open>Shifting forward\<close>

lemma shift_out:
  assumes "T div 64 < length ws" and "length ws \<le> (T + D) div 64"
  obtains ws' where
    "(if T mod 64 \<noteq> 0 then
        and_then (vec_at ws (T div 64)) (\<lambda>w.
        and_then (vec_set ws (T div 64) (w AND MaskBitRange 0 (T mod 64))) (\<lambda>ws1. zero_from ws1 (T div 64 + 1)))
      else zero_from ws (T div 64)) = Inr ws'" "length ws' = length ws"
    "\<And>i. words_bit ws' i = words_bit ws (if i < T then i else i + D)"
proof (rule split64 [of T])
  fix q r assume T: "T = 64 * q + r" "r < 64" "T div 64 = q" "T mod 64 = r"
  have big: "64 * length ws \<le> T + D" using assms(2) by (simp add: less_eq_div_iff_mult_less_eq mult.commute)
  then have beyond: "\<not> words_bit ws (i + D)" if "T \<le> i" for i using that by (intro words_bit_beyond) simp
  have q: "q < length ws" using assms(1) T(3) by simp
  show thesis
  proof (cases "r = 0")
    case True
    obtain ws' where "zero_from ws q = Inr ws'" "length ws' = length ws" "\<And>i. words_bit ws' i = (i < 64 * q \<and> words_bit ws i)"
      by (rule zero_from_bits [of q ws]) (use q in auto)
    then show ?thesis using that [of ws'] True T beyond by (auto simp: not_less)
  next
    case False
    let ?ws = "ws[q := ws ! q AND MaskBitRange 0 r]"
    obtain ws' where ws': "zero_from ?ws (q + 1) = Inr ws'" "length ws' = length ws"
      "\<And>i. words_bit ws' i = (i < 64 * (q + 1) \<and> words_bit ?ws i)"
      by (rule zero_from_bits [of "q + 1" ?ws]) (use q in auto)
    have "words_bit ws' i = words_bit ws (if i < T then i else i + D)" for i
    proof (rule split64 [of i])
      fix q' r' assume i: "i = 64 * q' + r'" "r' < 64" "i div 64 = q'" "i mod 64 = r'"
      have "words_bit ws' i = (i < T \<and> words_bit ws i)"
        unfolding ws'(3) words_bit_update [OF q] i(3,4) using i T(1,2) q by (auto simp: words_bit_def)
      then show ?thesis using beyond by (auto simp: not_less)
    qed
    then show ?thesis using that [of ws'] ws' False T q by simp
  qed
qed

text \<open>The tail starts inside a word: its first word is completed, then whole words follow.\<close>

definition forward_unaligned_run :: "64 word list \<Rightarrow> nat \<Rightarrow> nat \<Rightarrow> nat \<Rightarrow> nat \<Rightarrow> 64 word list result" where
  "forward_unaligned_run ws q r s sl =
     (let ws1 = ws[q := (ws ! q AND MaskBitRange 0 r) OR drop_bit r (push_bit sl (ws ! s))] in
      if r < sl then
        (if s + 1 = length ws then zero_from ws1 (q + 1)
         else forward_words (ws1[q := ws1 ! q OR drop_bit (r + (64 - sl)) (ws1 ! (s + 1))])
           (q + 1) (s + 1) (64 - (r + (64 - sl))))
      else forward_words ws1 (q + 1) (s + (sl + (64 - r)) div 64) ((sl + (64 - r)) mod 64))"

lemma forward_finish:
  assumes q: "q < length ws" and r: "r < 64"
    and w: "\<And>j. j < 64 \<Longrightarrow> top_bit w j = words_bit ws (if j < r then 64 * q + j else 64 * q + j + D)"
    and src: "64 * src + sl = 64 * (q + 1) + D" "q + 1 \<le> src" "src < length ws \<or> src = length ws \<and> sl = 0" "sl < 64"
  obtains ws' where "forward_words (ws[q := w]) (q + 1) src sl = Inr ws'" "length ws' = length ws"
    "\<And>i. words_bit ws' i = words_bit ws (if i < 64 * q + r then i else i + D)"
proof -
  obtain ws' where ws': "forward_words (ws[q := w]) (q + 1) src sl = Inr ws'" "length ws' = length ws"
    "\<And>i. words_bit ws' i = words_bit (ws[q := w]) (if i < 64 * (q + 1) then i else 64 * src + sl + (i - 64 * (q + 1)))"
    by (rule forward_words_spec [of "q + 1" src "ws[q := w]" sl]) (use src in auto)
  have "words_bit ws' i = words_bit ws (if i < 64 * q + r then i else i + D)" for i
  proof (rule split64 [of i])
    fix q' r' assume i: "i = 64 * q' + r'" "r' < 64" "i div 64 = q'" "i mod 64 = r'"
    consider "q' < q" | "q' = q" | "q < q'" by linarith
    then show ?thesis
    proof cases
      case 1
      then show ?thesis unfolding ws'(3) using i by (simp add: words_bit_other)
    next
      case 2
      then have "words_bit ws' i = top_bit w r'" unfolding ws'(3) using i q by (simp add: words_bit_update)
      then show ?thesis using w [OF i(2)] 2 i(1) by (simp split: if_splits)
    next
      case 3
      then have e: "64 * src + sl + (i - 64 * (q + 1)) = i + D" using src(1) i(1) by simp
      have "64 * src \<le> i + D" using e by linarith
      then have "src \<le> (i + D) div 64" by (simp add: less_eq_div_iff_mult_less_eq mult.commute)
      then have "words_bit (ws[q := w]) (i + D) = words_bit ws (i + D)" using src(2) by (intro words_bit_other) simp
      then show ?thesis unfolding ws'(3) e using 3 i(1) r by simp
    qed
  qed
  with ws' that show ?thesis by blast
qed

lemma forward_unaligned:
  assumes t: "T = 64 * q + r" "r < 64" and d: "T + D = 64 * s + sl" "sl < 64"
    and q: "q < length ws" "s < length ws" "q \<le> s" and r0: "r \<noteq> 0" and D0: "D \<noteq> 0"
  obtains ws' where "forward_unaligned_run ws q r s sl = Inr ws'" "length ws' = length ws"
    "\<And>i. words_bit ws' i = words_bit ws (if i < T then i else i + D)"
proof -
  let ?x = "(ws ! q AND MaskBitRange 0 r) OR drop_bit r (push_bit sl (ws ! s))"
  have D: "64 * q + j + D = 64 * s + sl + (j - r)" if "r \<le> j" for j using t d that by simp
  have x: "top_bit ?x j = (if j < r then words_bit ws (64 * q + j) else j - r + sl < 64 \<and> words_bit ws (64 * q + j + D))"
    if "j < 64" for j
  proof (cases "j < r")
    case True
    then show ?thesis using that words_bit_nth [OF q(1) that] by simp
  next
    case False
    then have "top_bit ?x j = top_bit (ws ! s) (j - r + sl)" using that by simp
    also have "\<dots> = (j - r + sl < 64 \<and> words_bit ws (64 * s + (j - r + sl)))"
      using words_bit_nth [OF q(2), of "j - r + sl"] top_bit_less [of "ws ! s" "j - r + sl"] by auto
    finally show ?thesis using D [of j] False by (simp add: ac_simps)
  qed
  show ?thesis
  proof (cases "r < sl")
    case True
    show ?thesis
    proof (cases "s + 1 = length ws")
      case last: True
      obtain ws' where ws': "zero_from (ws[q := ?x]) (q + 1) = Inr ws'" "length ws' = length ws"
        "\<And>i. words_bit ws' i = (i < 64 * (q + 1) \<and> words_bit (ws[q := ?x]) i)"
        by (rule zero_from_bits [of "q + 1" "ws[q := ?x]"]) (use q in auto)
      have "words_bit ws' i = words_bit ws (if i < T then i else i + D)" for i
      proof (rule split64 [of i])
        fix q' r' assume i: "i = 64 * q' + r'" "r' < 64" "i div 64 = q'" "i mod 64 = r'"
        have out: "\<not> words_bit ws (i + D)" if "64 * (s + 1) \<le> i + D" using that last by (intro words_bit_beyond) simp
        consider "q' < q" | "q' = q" | "q < q'" by linarith
        then show ?thesis
        proof cases
          case 1
          then show ?thesis unfolding ws'(3) using i t by (simp add: words_bit_other)
        next
          case 2
          then have "words_bit ws' i = top_bit ?x r'" unfolding ws'(3) using i q by (simp add: words_bit_update)
          also have "\<dots> = words_bit ws (if i < T then i else i + D)"
          proof (cases "r' < r")
            case r': True
            then show ?thesis using x [OF i(2)] 2 i(1) t(1) by simp
          next
            case r': False
            then have e: "i + D = 64 * s + sl + (r' - r)" using D [of r'] 2 i(1) by simp
            have "r' - r + sl < 64" if "words_bit ws (i + D)"
            proof (rule ccontr)
              assume "\<not> r' - r + sl < 64"
              then have "64 * (s + 1) \<le> i + D" unfolding e by simp
              then show False using that out by blast
            qed
            then show ?thesis using x [OF i(2)] r' 2 i(1) t(1) by auto
          qed
          finally show ?thesis .
        next
          case 3
          then have "64 * (s + 1) \<le> i + D" using i(1) t(1) d(1) True by simp
          then show ?thesis unfolding ws'(3) using 3 i t out by auto
        qed
      qed
      then show ?thesis using that [of ws'] ws' True last by (simp add: forward_unaligned_run_def Let_def)
    next
      case False
      let ?y = "?x OR drop_bit (r + (64 - sl)) (ws ! (s + 1))"
      have s1: "s + 1 < length ws" using False q by simp
      have y: "top_bit ?y j = words_bit ws (if j < r then 64 * q + j else 64 * q + j + D)" if "j < 64" for j
      proof -
        have "top_bit (drop_bit (r + (64 - sl)) (ws ! (s + 1))) j \<longleftrightarrow>
            r + (64 - sl) \<le> j \<and> words_bit ws (64 * (s + 1) + (j - (r + (64 - sl))))"
          using that words_bit_nth [OF s1, of "j - (r + (64 - sl))"] by auto
        moreover have "64 * (s + 1) + (j - (r + (64 - sl))) = 64 * q + j + D" if "r + (64 - sl) \<le> j"
          using that D [of j] d(2) by simp
        ultimately have b: "top_bit (drop_bit (r + (64 - sl)) (ws ! (s + 1))) j \<longleftrightarrow>
            r + (64 - sl) \<le> j \<and> words_bit ws (64 * q + j + D)" by (cases "r + (64 - sl) \<le> j") (simp_all only: simp_thms)
        have "top_bit ?y j \<longleftrightarrow> (if j < r then words_bit ws (64 * q + j) else j - r + sl < 64 \<and> words_bit ws (64 * q + j + D))
              \<or> r + (64 - sl) \<le> j \<and> words_bit ws (64 * q + j + D)"
          using top_bit_or [of ?x "drop_bit (r + (64 - sl)) (ws ! (s + 1))" j] b x [OF that] by (simp only:)
        moreover have "j < r \<Longrightarrow> \<not> r + (64 - sl) \<le> j" "\<not> j < r \<Longrightarrow> j - r + sl < 64 \<or> r + (64 - sl) \<le> j"
          using d(2) by linarith+
        ultimately show ?thesis by (cases "j < r") (simp_all only: if_True if_False, blast+)
      qed
      obtain ws' where ws': "forward_words (ws[q := ?y]) (q + 1) (s + 1) (sl - r) = Inr ws'" "length ws' = length ws"
        "\<And>i. words_bit ws' i = words_bit ws (if i < 64 * q + r then i else i + D)"
        by (rule forward_finish [OF q(1) t(2) y, of "s + 1" "sl - r"]) (use s1 True t(1) d q in simp_all)
      have "forward_unaligned_run ws q r s sl = forward_words (ws[q := ?y]) (q + 1) (s + 1) (sl - r)"
        using True False q d(2) s1 by (simp add: forward_unaligned_run_def Let_def)
      then show ?thesis using that [of ws'] ws' t(1) by simp
    qed
  next
    case False
    have sq: "q < s" using False t d D0 q(3) by (cases "q = s") auto
    have y: "top_bit ?x j = words_bit ws (if j < r then 64 * q + j else 64 * q + j + D)" if "j < 64" for j
      using x [OF that] False that by auto
    let ?sl = "sl + (64 - r)"
    have src: "64 * (s + ?sl div 64) + ?sl mod 64 = 64 * (q + 1) + D"
    proof -
      have "64 * (s + ?sl div 64) + ?sl mod 64 = 64 * s + ?sl" by simp
      also have "\<dots> = 64 * (q + 1) + D" using t d by simp
      finally show ?thesis .
    qed
    have range: "s + ?sl div 64 < length ws \<or> s + ?sl div 64 = length ws \<and> ?sl mod 64 = 0"
    proof (cases "sl = r")
      case True
      then have "?sl = 64" using t(2) by simp
      then show ?thesis using q(2) by auto
    next
      case ne: False
      then have "?sl < 64" using False t(2) by linarith
      then show ?thesis using q(2) by simp
    qed
    obtain ws' where ws': "forward_words (ws[q := ?x]) (q + 1) (s + ?sl div 64) (?sl mod 64) = Inr ws'" "length ws' = length ws"
      "\<And>i. words_bit ws' i = words_bit ws (if i < 64 * q + r then i else i + D)"
      by (rule forward_finish [OF q(1) t(2) y src _ range]) (use sq in auto)
    then show ?thesis using that [of ws'] False t(1) by (simp add: forward_unaligned_run_def Let_def)
  qed
qed

lemma forward_eq:
  assumes "D \<noteq> 0" and "size_add T D = T + D" and "(T + D) div 64 < length ws" and "T div 64 < length ws"
  shows "shiftTailForwardRegularVersion ws T D =
    (if T mod 64 \<noteq> 0 then forward_unaligned_run ws (T div 64) (T mod 64) ((T + D) div 64) ((T + D) mod 64)
     else forward_words ws (T div 64) ((T + D) div 64) ((T + D) mod 64))"
  using assms by (simp add: shiftTailForwardRegularVersion_def forward_unaligned_run_def Let_def)

lemma forward_regular:
  assumes T: "T div 64 < length ws" and wrap: "T + D < 2 ^ 64"
  obtains ws' where "shiftTailForwardRegularVersion ws T D = Inr ws'" "length ws' = length ws"
    "\<And>i. words_bit ws' i = words_bit ws (if i < T then i else i + D)"
proof (cases "D = 0")
  case True
  then show ?thesis using that [of ws] by (simp add: shiftTailForwardRegularVersion_def)
next
  case D0: False
  have add: "size_add T D = T + D" using wrap by (simp add: size_add_def)
  show ?thesis
  proof (cases "length ws \<le> (T + D) div 64")
    case True
    show ?thesis by (rule shift_out [OF T True])
      (use that D0 add True in \<open>simp add: shiftTailForwardRegularVersion_def Let_def\<close>)
  next
    case inside: False
    then have in_range: "(T + D) div 64 < length ws" by simp
    note run = forward_eq [OF D0 add in_range T]
    show ?thesis
    proof (rule split64 [of T], rule split64 [of "T + D"])
      fix q r s sl assume t: "T = 64 * q + r" "r < 64" "T div 64 = q" "T mod 64 = r"
        and d: "T + D = 64 * s + sl" "sl < 64" "(T + D) div 64 = s" "(T + D) mod 64 = sl"
      have le: "q \<le> s" using div_le_mono [of T "T + D" 64] t(3) d(3) by simp
      have q: "q < length ws" "s < length ws" using T t(3) in_range d(3) by simp_all
      show thesis
      proof (cases "r = 0")
        case True
        obtain ws' where ws': "forward_words ws q s sl = Inr ws'" "length ws' = length ws"
          "\<And>i. words_bit ws' i = words_bit ws (if i < 64 * q then i else 64 * s + sl + (i - 64 * q))"
          by (rule forward_words_spec [of q s ws sl]) (use q le d in auto)
        have e: "(if i < 64 * q then i else 64 * s + sl + (i - 64 * q)) = (if i < T then i else i + D)" for i
          using t(1) True d(1) by auto
        have "shiftTailForwardRegularVersion ws T D = Inr ws'" using run ws'(1) True t(3,4) d(3,4) by simp
        with that ws'(2,3) show ?thesis unfolding e by blast
      next
        case False
        obtain ws' where ws': "forward_unaligned_run ws q r s sl = Inr ws'" "length ws' = length ws"
          "\<And>i. words_bit ws' i = words_bit ws (if i < T then i else i + D)"
          by (rule forward_unaligned [OF t(1,2) d(1,2) q le False D0], rule that)
        have "shiftTailForwardRegularVersion ws T D = Inr ws'" using run ws'(1) False t(3,4) d(3,4) by simp
        with that ws'(2,3) show ?thesis by blast
      qed
    qed
  qed
qed

lemma forward_short:
  assumes "T + D < 32" and "top_bit w = f"
  shows "\<exists>w'. shiftTailForwardShortVersion T D (w :: 'a::len word) = Inr w'
    \<and> top_bit w' = (\<lambda>i. f (if i < T then i else i + D))"
proof -
  have add: "size_add T D = T + D" using assms by (simp add: size_add_def)
  let ?w = "(w AND MaskBitRange 0 T) OR push_bit D (w AND MaskBitRange (T + D) LENGTH('a))"
  have "top_bit ?w i = top_bit w (if i < T then i else i + D)" for i
    by (auto dest: top_bit_less)
  then show ?thesis using assms(1) add unfolding assms(2) [symmetric]
    by (simp add: shiftTailForwardShortVersion_def Let_def fun_eq_iff)
qed

lemma forward_short_undefined:
  "T + D < 2 ^ 64 \<Longrightarrow> 32 \<le> T + D \<Longrightarrow> shiftTailForwardShortVersion T D (w :: 'a::len word) = Inl UndefinedBehaviour"
  by (simp add: shiftTailForwardShortVersion_def check_def size_add_def)

text \<open>C30. Shifting forward: the bits before the start of the tail stay, bit \<open>i\<close> of the tail becomes the bit at
  distance \<open>D\<close> behind it, and zeroes are filled in at the end, for any distance.  A short vector
  needs the end of the gap to be within 32 bits; beyond, the shift is undefined.\<close>

theorem shiftTailForward_correct:
  assumes "bv_inv v" and "T < num_bits v" and "T + D < 2 ^ 64"
  shows "if short_version v \<and> 32 \<le> T + D then shiftTailForward v T D = Inl UndefinedBehaviour
    else \<exists>v'. shiftTailForward v T D = Inr v' \<and> stored v v' (\<lambda>i. bits v (if i < T then i else i + D))"
proof (cases "is_short v")
  case True
  have sv: "short_version v" "num_bits v < 33" using True assms(1) by (auto simp: bv_inv_def)
  show ?thesis
  proof (cases "32 \<le> T + D")
    case b: True
    have "short_write v (shiftTailForwardShortVersion T D) (shiftTailForwardShortVersion T D)
        (shiftTailForwardShortVersion T D) = Inl UndefinedBehaviour"
      unfolding short_write_def using assms(3) b
      by (intro short_read_eq [OF assms(1) True]) (simp_all add: forward_short_undefined)
    then show ?thesis using True b sv assms(2) by (simp add: shiftTailForward_def)
  next
    case False
    then have less: "T + D < 32" by simp
    have "\<not> bits v (if i < T then i else i + D)" if "num_bits v \<le> i" for i
      using that assms(2) bv_inv_beyond [OF assms(1)] by simp
    then have "\<exists>v'. short_write v (shiftTailForwardShortVersion T D) (shiftTailForwardShortVersion T D)
        (shiftTailForwardShortVersion T D) = Inr v' \<and> stored v v' (\<lambda>i. bits v (if i < T then i else i + D))"
      by (intro short_write_stored [OF assms(1) True] forward_short [OF less])
    then show ?thesis using True False assms(2) by (simp add: shiftTailForward_def)
  qed
next
  case False
  have "\<exists>v'. write_words v (\<lambda>ws. shiftTailForwardRegularVersion ws T D) = Inr v'
      \<and> stored v v' (\<lambda>i. bits v (if i < T then i else i + D))"
  proof (rule write_words_stored [OF assms(1) False])
    fix ws assume ws: "length ws = data_array_size v" "words_bit ws = bits v"
    have "T div 64 < length ws" using index_in_size [OF assms(2)] ws(1) by simp
    then obtain ws' where "shiftTailForwardRegularVersion ws T D = Inr ws'" "length ws' = length ws"
      "\<And>i. words_bit ws' i = words_bit ws (if i < T then i else i + D)"
      using forward_regular [OF _ assms(3)] by blast
    then show "\<exists>ws'. shiftTailForwardRegularVersion ws T D = Inr ws' \<and> length ws' = length ws
        \<and> words_bit ws' = (\<lambda>i. bits v (if i < T then i else i + D))" using ws(2) by auto
  next
    fix i assume "num_bits v \<le> i"
    then show "\<not> bits v (if i < T then i else i + D)" using assms(2) bv_inv_beyond [OF assms(1)] by simp
  qed
  then show ?thesis using not_short [OF assms(1) False] assms(2) by (simp add: shiftTailForward_def)
qed

section \<open>Shifting backward\<close>

lemma backward_loop_spec:
  assumes "se < low" and "el < length ws"
  shows "\<exists>ws'. backward_loop ws el low se sl = Inr ws' \<and> length ws' = length ws
    \<and> (\<forall>k < length ws. ws' ! k = (if low < k \<and> k \<le> el
          then drop_bit sl (ws ! (k - se)) OR push_bit (64 - sl) (ws ! (k - se - 1)) else ws ! k))"
  using assms(2)
proof (induction el arbitrary: ws)
  case 0
  then show ?case by (subst backward_loop.simps) simp
next
  case (Suc el)
  show ?case
  proof (cases "low < Suc el")
    case False
    then show ?thesis by (subst backward_loop.simps) auto
  next
    case True
    let ?f = "\<lambda>ws k. drop_bit sl (ws ! (k - se)) OR push_bit (64 - sl) (ws ! (k - se - 1))"
    let ?ws = "ws[Suc el := ?f ws (Suc el)]"
    have "el < length ?ws" using Suc.prems by simp
    from Suc.IH [OF this] obtain ws' where ws': "backward_loop ?ws el low se sl = Inr ws'" "length ws' = length ws"
      "\<And>k. k < length ws \<Longrightarrow> ws' ! k = (if low < k \<and> k \<le> el then ?f ?ws k else ?ws ! k)" by auto
    have "backward_loop ws (Suc el) low se sl = Inr ws'"
      using True Suc.prems ws'(1) by (subst backward_loop.simps) simp
    moreover have "ws' ! k = (if low < k \<and> k \<le> Suc el then ?f ws k else ws ! k)" if "k < length ws" for k
      using ws'(3) [OF that] True Suc.prems by (auto simp: nth_list_update le_Suc_eq)
    ultimately show ?thesis using ws'(2) by blast
  qed
qed

lemma split_bits:
  assumes "0 < sl" and "sl < 64" and "j < 64"
  shows "top_bit (drop_bit sl a OR push_bit (64 - sl) (b :: 64 word)) j =
    (if sl \<le> j then top_bit a (j - sl) else top_bit b (j + (64 - sl)))"
  using assms by (auto dest: top_bit_less)

text \<open>What opening a gap of \<open>D\<close> bits at position \<open>T\<close> means.\<close>

definition gap :: "(nat \<Rightarrow> bool) \<Rightarrow> nat \<Rightarrow> nat \<Rightarrow> nat \<Rightarrow> bool" where
  "gap B T D i \<longleftrightarrow> (if i < T then B i else T + D \<le> i \<and> B (i - D))"

text \<open>What the code does for whole words: when the gap starts at a word boundary and is longer than a word,
  but not a whole number of words, the first word of the gap keeps its bits.\<close>

definition moved :: "(nat \<Rightarrow> bool) \<Rightarrow> nat \<Rightarrow> nat \<Rightarrow> nat \<Rightarrow> bool" where
  "moved B T D i \<longleftrightarrow>
     (if T mod 64 = 0 \<and> D mod 64 \<noteq> 0 \<and> 64 < D \<and> T \<le> i \<and> i < T + 64 then B i else gap B T D i)"

lemma moved_gap: "T mod 64 \<noteq> 0 \<or> D mod 64 = 0 \<or> D < 64 \<Longrightarrow> moved B T D = gap B T D"
  by (auto simp: moved_def fun_eq_iff)

lemma memset_nth:
  assumes "start + n \<le> length ws"
  obtains ws' where "memset_words ws start x n = Inr ws'" "length ws' = length ws"
    "\<And>k. k < length ws \<Longrightarrow> ws' ! k = (if start \<le> k \<and> k < start + n then x else ws ! k)"
proof -
  let ?ws = "take start ws @ replicate n x @ drop (start + n) ws"
  have "?ws ! k = (if start \<le> k \<and> k < start + n then x else ws ! k)" if "k < length ws" for k
    using that assms by (auto simp: nth_append)
  moreover have "length ?ws = length ws" using assms by simp
  ultimately show ?thesis using that [of ?ws] assms by (simp add: memset_words_def)
qed

text \<open>The words from the second one of the shifted tail on.\<close>

lemma backward_later_words:
  assumes T: "T = 64 * te + tlb" "tlb < 64" and D: "D = 64 * se + sl" "0 < sl" "sl < 64" and te: "te + se < length ws"
  obtains ws2 where
    "and_then (backward_loop ws (length ws - 1) (te + se + 1) se sl) (\<lambda>ws1.
       if te + se + 1 < length ws then
         and_then (vec_at ws1 (te + 1)) (\<lambda>a.
           vec_set ws1 (te + se + 1) (drop_bit sl a OR push_bit (64 - sl) (drop_bit tlb (push_bit tlb (ws ! te)))))
       else Inr ws1) = Inr ws2" "length ws2 = length ws"
    "\<And>k. k \<le> te + se \<Longrightarrow> ws2 ! k = ws ! k"
    "\<And>k j. te + se < k \<Longrightarrow> k < length ws \<Longrightarrow> j < 64 \<Longrightarrow> top_bit (ws2 ! k) j = gap (words_bit ws) T D (64 * k + j)"
proof -
  let ?n = "length ws" and ?m = "te + se + 1" and ?tb = "drop_bit tlb (push_bit tlb (ws ! te))"
  obtain ws1 where ws1: "backward_loop ws (?n - 1) ?m se sl = Inr ws1" "length ws1 = ?n"
    "\<And>k. k < ?n \<Longrightarrow> ws1 ! k = (if ?m < k \<and> k \<le> ?n - 1
        then drop_bit sl (ws ! (k - se)) OR push_bit (64 - sl) (ws ! (k - se - 1)) else ws ! k)"
  proof -
    have "se < ?m" "?n - 1 < ?n" using te by simp_all
    from backward_loop_spec [OF this, of sl] that show thesis by blast
  qed
  let ?b = "drop_bit sl (ws ! (te + 1)) OR push_bit (64 - sl) ?tb"
  let ?ws = "if ?m < ?n then ws1[?m := ?b] else ws1"
  have early: "ws1 ! k = ws ! k" if "k \<le> ?m" "k < ?n" for k using ws1(3) [OF that(2)] that(1) by simp
  have later: "top_bit (?ws ! k) j = gap (words_bit ws) T D (64 * k + j)" if k: "te + se < k" "k < ?n" and j: "j < 64" for k j
  proof -
    have i: "\<not> 64 * k + j < T" using k(1) T by simp
    obtain e where e: "k = Suc (te + se + e)" using k(1) by (auto simp: less_iff_Suc_add)
    have shift: "64 * (k - se) + (j - sl) = 64 * k + j - D" if "sl \<le> j" using e D(1) that by simp
    have shift': "64 * (k - se - 1) + (j + (64 - sl)) = 64 * k + j - D" if "\<not> sl \<le> j" using e D(1,3) that by simp
    show ?thesis
    proof (cases "k = ?m")
      case True
      have gap: "gap (words_bit ws) T D (64 * k + j) \<longleftrightarrow> (sl \<le> j \<or> tlb \<le> j + (64 - sl)) \<and> words_bit ws (64 * k + j - D)"
        using i True T D by (auto simp: gap_def)
      have "top_bit (?ws ! k) j = top_bit ?b j" using True k(2) ws1(2) by simp
      also have "\<dots> = (if sl \<le> j then top_bit (ws ! (te + 1)) (j - sl) else top_bit ?tb (j + (64 - sl)))"
        by (rule split_bits [OF D(2,3) j])
      also have "\<dots> = gap (words_bit ws) T D (64 * k + j)"
      proof (cases "sl \<le> j")
        case sl: True
        have "top_bit (ws ! (te + 1)) (j - sl) = words_bit ws (64 * (te + 1) + (j - sl))"
          using True k(2) j by (intro words_bit_nth) auto
        then show ?thesis using sl gap shift [OF sl] True by simp
      next
        case sl: False
        have "top_bit (ws ! te) (j + (64 - sl)) = words_bit ws (64 * te + (j + (64 - sl)))"
          using te sl D(3) by (intro words_bit_nth) auto
        then show ?thesis using sl gap shift' [OF sl] True D(3) by auto
      qed
      finally show ?thesis .
    next
      case False
      then have k2: "?m < k" using k(1) by simp
      have "64 * (te + se + 2) \<le> 64 * k" using k2 by simp
      then have "T + D \<le> 64 * k + j" using T D by simp
      then have gap: "gap (words_bit ws) T D (64 * k + j) \<longleftrightarrow> words_bit ws (64 * k + j - D)" using i by (simp add: gap_def)
      have "?ws ! k = drop_bit sl (ws ! (k - se)) OR push_bit (64 - sl) (ws ! (k - se - 1))"
        using False k2 k(2) ws1(3) [OF k(2)] by auto
      then have "top_bit (?ws ! k) j = (if sl \<le> j then top_bit (ws ! (k - se)) (j - sl) else top_bit (ws ! (k - se - 1)) (j + (64 - sl)))"
        using split_bits [OF D(2,3) j] by simp
      also have "\<dots> = words_bit ws (64 * k + j - D)"
      proof (cases "sl \<le> j")
        case True
        have "top_bit (ws ! (k - se)) (j - sl) = words_bit ws (64 * (k - se) + (j - sl))"
          using k(2) j by (intro words_bit_nth) auto
        then show ?thesis using True shift [OF True] by simp
      next
        case sl: False
        have "top_bit (ws ! (k - se - 1)) (j + (64 - sl)) = words_bit ws (64 * (k - se - 1) + (j + (64 - sl)))"
          using k(2) sl D(3) by (intro words_bit_nth) auto
        then show ?thesis using sl shift' [OF sl] by simp
      qed
      finally show ?thesis using gap by simp
    qed
  qed
  have "and_then (backward_loop ws (?n - 1) ?m se sl) (\<lambda>ws1. if ?m < ?n then and_then (vec_at ws1 (te + 1)) (\<lambda>a.
           vec_set ws1 ?m (drop_bit sl a OR push_bit (64 - sl) ?tb)) else Inr ws1) = Inr ?ws"
    using ws1(1,2) early [of "te + 1"] by auto
  moreover have "length ?ws = ?n" using ws1(2) by simp
  moreover have "?ws ! k = ws ! k" if "k \<le> te + se" for k using that te early [of k] by auto
  ultimately show ?thesis using that [of ?ws] later by blast
qed

lemma top_bit_tail: "j < 64 \<Longrightarrow> top_bit (drop_bit tlb (push_bit tlb (w :: 64 word))) j \<longleftrightarrow> tlb \<le> j \<and> top_bit w j"
  by auto

lemma backward_first_words_spec:
  assumes T: "T = 64 * te + tlb" "tlb < 64" and D: "D = 64 * se + sl" "0 < sl" "sl < 64" and te: "te + se < length ws"
    and ws2: "length ws2 = length ws" "\<And>k. k \<le> te + se \<Longrightarrow> ws2 ! k = ws ! k"
    and late: "\<And>k j. te + se < k \<Longrightarrow> k < length ws \<Longrightarrow> j < 64 \<Longrightarrow> top_bit (ws2 ! k) j = gap (words_bit ws) T D (64 * k + j)"
  obtains ws3 where "backward_first_words ws2 (drop_bit tlb (push_bit tlb (ws ! te))) te tlb se sl = Inr ws3"
    "length ws3 = length ws"
    "\<And>k j. k < length ws \<Longrightarrow> j < 64 \<Longrightarrow> top_bit (ws3 ! k) j = moved (words_bit ws) T D (64 * k + j)"
proof (cases "se = 0")
  case True
  let ?w = "ws ! te" and ?n = "length ws"
  let ?x = "if tlb \<noteq> 0 then (?w AND MaskBitRange 0 tlb) OR drop_bit sl (?w AND MaskBitRange tlb 64) else drop_bit sl ?w"
  let ?ws = "ws2[te := ?x]"
  have te': "te < ?n" using te by simp
  have x: "top_bit ?x j = gap (words_bit ws) T D (64 * te + j)" if "j < 64" for j
  proof -
    have "top_bit ?x j \<longleftrightarrow> j < tlb \<and> top_bit ?w j \<or> tlb + sl \<le> j \<and> top_bit ?w (j - sl)"
      using that by (auto dest: top_bit_less)
    moreover have "top_bit ?w (j - sl) = words_bit ws (64 * te + (j - sl))" using that by (intro words_bit_nth te') simp
    moreover have "top_bit ?w j = words_bit ws (64 * te + j)" by (intro words_bit_nth te' that)
    ultimately show ?thesis using T D(1,2) True by (auto simp: gap_def)
  qed
  have "top_bit (?ws ! k) j = gap (words_bit ws) T D (64 * k + j)" if "k < ?n" "j < 64" for k j
  proof -
    consider "k < te" | "k = te" | "te < k" by linarith
    then show ?thesis
    proof cases
      case 1
      then show ?thesis using ws2 that T(1) by (simp add: gap_def words_bit_nth)
    next
      case 2
      then show ?thesis using x [OF that(2)] ws2(1) te' by simp
    next
      case 3
      then show ?thesis using late [OF _ that] True by simp
    qed
  qed
  moreover have "backward_first_words ws2 (drop_bit tlb (push_bit tlb ?w)) te tlb se sl = Inr ?ws"
    using True ws2(1) ws2(2) [of te] te' by (auto simp: backward_first_words_def)
  moreover have "moved (words_bit ws) T D = gap (words_bit ws) T D" using D True by (intro moved_gap) simp
  ultimately show ?thesis using that [of ?ws] ws2(1) by simp
next
  case False
  let ?w = "ws ! te" and ?n = "length ws"
  let ?tb = "drop_bit tlb (push_bit tlb ?w)" and ?head = "if tlb \<noteq> 0 then ?w AND NOT (MaskBitRange tlb 64) else ?w"
  let ?ws = "(ws2[te + se := drop_bit sl ?tb])[te := ?head]"
  obtain ws3 where ws3: "memset_words ?ws (te + 1) 0 (se - 1) = Inr ws3" "length ws3 = length ?ws"
    "\<And>k. k < length ?ws \<Longrightarrow> ws3 ! k = (if te + 1 \<le> k \<and> k < te + 1 + (se - 1) then 0 else ?ws ! k)"
    by (rule memset_nth [of "te + 1" "se - 1" ?ws]) (use te ws2(1) False in auto)
  have same: "(ws2[te + se := x])[te := ?w] = ws2[te + se := x]" for x
  proof -
    have "ws2[te + se := x] ! te = ?w" using False ws2(2) [of te] by simp
    then show ?thesis by (metis list_update_id)
  qed
  have run: "backward_first_words ws2 ?tb te tlb se sl = Inr ws3"
    using False ws2(1) ws2(2) [of te] te ws3(1) same
    by (cases "tlb = 0") (simp_all add: backward_first_words_def and_word_def)
  have "top_bit (ws3 ! k) j = moved (words_bit ws) T D (64 * k + j)" if k: "k < ?n" and j: "j < 64" for k j
  proof -
    have nth: "ws3 ! k = (if te < k \<and> k < te + se then 0 else if k = te then ?head else if k = te + se then drop_bit sl ?tb else ws2 ! k)"
      using ws3(3) [of k] k ws2(1) te False by (auto simp: nth_list_update)
    have stale: "(T \<le> 64 * k + j \<and> 64 * k + j < T + 64 \<and> T mod 64 = 0) \<longleftrightarrow> k = te \<and> tlb = 0" using T j by auto
    have long: "64 < D" "D mod 64 \<noteq> 0" using D False by auto
    have gap: "moved (words_bit ws) T D (64 * k + j) =
        (if k = te \<and> tlb = 0 then words_bit ws (64 * k + j) else gap (words_bit ws) T D (64 * k + j))"
      using stale long unfolding moved_def by auto
    consider "k < te" | "k = te" | "te < k" "k < te + se" | "k = te + se" | "te + se < k" by linarith
    then show ?thesis
    proof cases
      case 1
      then show ?thesis unfolding nth gap using ws2(2) [of k] j k T(1) by (simp add: gap_def words_bit_nth)
    next
      case 2
      have "top_bit ?head j \<longleftrightarrow> (tlb = 0 \<or> j < tlb) \<and> words_bit ws (64 * te + j)" using j words_bit_nth [of te ws j] te by auto
      then show ?thesis unfolding nth gap using 2 T D(1) j False by (auto simp: gap_def)
    next
      case 3
      then have "\<not> T + D \<le> 64 * k + j" "\<not> 64 * k + j < T" using T D(1,2) j by auto
      then show ?thesis unfolding nth gap using 3 by (simp add: gap_def)
    next
      case 4
      have "top_bit (drop_bit sl ?tb) j \<longleftrightarrow> sl \<le> j \<and> tlb \<le> j - sl \<and> words_bit ws (64 * te + (j - sl))"
        using j words_bit_nth [of te ws "j - sl"] te by auto
      moreover have "64 * k + j - D = 64 * te + (j - sl)" if "sl \<le> j" using that 4 D(1) by simp
      moreover have "\<not> 64 * k + j < T" using 4 T False by simp
      moreover have "T + D \<le> 64 * k + j \<longleftrightarrow> sl \<le> j \<and> tlb \<le> j - sl" using 4 T D(1) by auto
      ultimately show ?thesis unfolding nth gap using 4 False by (auto simp: gap_def)
    next
      case 5
      then show ?thesis unfolding nth gap using late [OF 5 k j] by simp
    qed
  qed
  with run ws3(2) ws2(1) that show ?thesis by simp
qed

lemma backward_zero:
  assumes T: "T = 64 * te + tlb" "tlb < 64" and te: "te < length ws" and out: "\<And>i. T \<le> i \<Longrightarrow> \<not> G i"
    and keep: "\<And>i. i < T \<Longrightarrow> G i = words_bit ws i"
  obtains ws' where
    "(let full_words = length ws - te - (if tlb \<noteq> 0 then 1 else 0) in
      and_then (if full_words \<noteq> 0 then memset_words ws (te + (if tlb \<noteq> 0 then 1 else 0)) 0 full_words else Inr ws) (\<lambda>ws1.
        if tlb \<noteq> 0 then and_word ws1 te (NOT (MaskBitRange tlb 64)) else Inr ws1)) = Inr ws'"
    "length ws' = length ws" "\<And>i. words_bit ws' i = G i"
proof -
  let ?n = "length ws" and ?o = "if tlb \<noteq> 0 then 1 else (0 :: nat)"
  let ?f = "?n - te - ?o"
  obtain ws1 where ws1: "memset_words ws (te + ?o) 0 ?f = Inr ws1" "length ws1 = ?n"
    "\<And>k. k < ?n \<Longrightarrow> ws1 ! k = (if te + ?o \<le> k \<and> k < te + ?o + ?f then 0 else ws ! k)"
    by (rule memset_nth [of "te + ?o" ?f ws]) (use te in auto)
  have all: "(if ?f \<noteq> 0 then memset_words ws (te + ?o) 0 ?f else Inr ws) = Inr ws1"
  proof (cases "?f = 0")
    case True
    then have "ws1 = ws" using ws1(2,3) by (intro nth_equalityI) auto
    then show ?thesis using True by simp
  qed (use ws1(1) in simp)
  let ?ws = "if tlb \<noteq> 0 then ws1[te := ws ! te AND NOT (MaskBitRange tlb 64)] else ws1"
  have "words_bit ?ws i = G i" for i
  proof (rule words_bitI [of _ ?n])
    fix k j assume k: "k < ?n" and j: "j < (64 :: nat)"
    have w: "top_bit (ws ! k) j = words_bit ws (64 * k + j)" by (rule words_bit_nth [OF k j])
    consider "k < te" | "k = te" "tlb \<noteq> 0" | "te \<le> k" "k = te \<Longrightarrow> tlb = 0" by linarith
    then show "top_bit (?ws ! k) j = G (64 * k + j)"
    proof cases
      case 1
      then have "64 * k + j < T" using T(1) j by simp
      then show ?thesis using keep w 1 ws1(3) [OF k] by simp
    next
      case 2
      then have "top_bit (?ws ! k) j \<longleftrightarrow> j < tlb \<and> top_bit (ws ! k) j" using k j ws1(2) by auto
      moreover have "64 * k + j < T \<longleftrightarrow> j < tlb" using T(1) 2(1) by simp
      ultimately show ?thesis unfolding w using keep [of "64 * k + j"] out [of "64 * k + j"] by (cases "j < tlb") simp_all
    next
      case 3
      then have "T \<le> 64 * k + j" using T by (cases "k = te") auto
      moreover have "?ws ! k = 0" using 3 ws1(3) [OF k] k by (cases "k = te") auto
      ultimately show ?thesis using out by simp
    qed
  qed (use ws1(2) out te T in auto)
  moreover have "ws1 ! te = ws ! te" if "tlb \<noteq> 0" using ws1(3) [OF te] that by simp
  then have "(if tlb \<noteq> 0 then and_word ws1 te (NOT (MaskBitRange tlb 64)) else Inr ws1) = Inr ?ws"
    using ws1(2) te by (simp add: and_word_def)
  then have "(let full_words = ?f in and_then (if full_words \<noteq> 0 then memset_words ws (te + ?o) 0 full_words else Inr ws) (\<lambda>ws1.
        if tlb \<noteq> 0 then and_word ws1 te (NOT (MaskBitRange tlb 64)) else Inr ws1)) = Inr ?ws"
    unfolding Let_def all by simp
  moreover have "length ?ws = ?n" using ws1(2) by simp
  ultimately show ?thesis using that by blast
qed

lemma mask_last_word:
  assumes "length ws = n div 64 + (if n mod 64 \<noteq> 0 then 1 else 0)" and "0 < n"
    and B: "\<And>k j. k < length ws \<Longrightarrow> j < 64 \<Longrightarrow> top_bit (ws ! k) j = H (64 * k + j)"
  obtains ws' where
    "(if n mod 64 \<noteq> 0 then and_word ws (length ws - 1) (MaskBitRange 0 (n mod 64)) else Inr ws) = Inr ws'"
    "length ws' = length ws" "\<And>i. words_bit ws' i = (i < n \<and> H i)"
proof (rule split64 [of n])
  fix q r assume n: "n = 64 * q + r" "r < 64" "n div 64 = q" "n mod 64 = r"
  let ?m = "ws ! (length ws - 1) AND MaskBitRange 0 r"
  let ?ws = "if r \<noteq> 0 then ws[length ws - 1 := ?m] else ws"
  have len: "length ws = q + (if r \<noteq> 0 then 1 else 0)" using assms(1) n(3,4) by simp
  have "words_bit ?ws i = (i < n \<and> H i)" for i
  proof (rule words_bitI [of _ "length ws"])
    fix k j assume k: "k < length ws" and j: "j < (64 :: nat)"
    show "top_bit (?ws ! k) j = (64 * k + j < n \<and> H (64 * k + j))"
    proof (cases "r \<noteq> 0 \<and> k = q")
      case True
      then have "top_bit (?ws ! k) j \<longleftrightarrow> j < r \<and> top_bit (ws ! k) j" using len k j by auto
      then show ?thesis using B [OF k j] True n(1) by auto
    next
      case False
      then have "?ws ! k = ws ! k" "k < q" using len k by (auto split: if_splits)
      then show ?thesis using B [OF k j] n(1) j by auto
    qed
  qed (use len n(1,2) in \<open>auto split: if_splits\<close>)
  moreover have "(if n mod 64 \<noteq> 0 then and_word ws (length ws - 1) (MaskBitRange 0 (n mod 64)) else Inr ws) = Inr ?ws"
    using len n(4) by (auto simp: and_word_def)
  ultimately show thesis using that [of ?ws] by simp
qed

text \<open>A gap of whole words moves words only.\<close>

lemma backward_aligned_words:
  assumes se: "0 < se" and te: "te + se \<le> length ws" "tlb \<noteq> 0 \<Longrightarrow> te + se < length ws"
  obtains ws' where
    "and_then (memmove_words ws (te + se) te (length ws - te - se)) (\<lambda>ws1.
       if tlb \<noteq> 0 then
         and_then (and_word ws1 te (MaskBitRange 0 tlb)) (\<lambda>ws2.
         and_then (and_word ws2 (te + se) (MaskBitRange tlb 64)) (\<lambda>ws3.
           memset_words ws3 (te + 1) 0 (se - 1)))
       else memset_words ws1 te 0 se) = Inr ws'" "length ws' = length ws"
    "\<And>k. k < length ws \<Longrightarrow> ws' ! k = (if k < te then ws ! k
        else if k = te then (if tlb \<noteq> 0 then ws ! te AND MaskBitRange 0 tlb else 0)
        else if k < te + se then 0
        else if k = te + se \<and> tlb \<noteq> 0 then ws ! te AND MaskBitRange tlb 64 else ws ! (k - se))"
proof -
  let ?n = "length ws"
  obtain ws1 where ws1: "memmove_words ws (te + se) te (?n - te - se) = Inr ws1" "length ws1 = ?n"
    "\<And>k. k < ?n \<Longrightarrow> ws1 ! k = (if te + se \<le> k \<and> k < te + se + (?n - te - se) then ws ! (te + (k - (te + se))) else ws ! k)"
    by (rule memmove_bits [of "te + se" "?n - te - se" ws te]) (use te(1) in auto)
  have nth1: "ws1 ! k = (if te + se \<le> k then ws ! (k - se) else ws ! k)" if "k < ?n" for k
    using ws1(3) [OF that] that te(1) by (auto intro: arg_cong [where f = "(!) ws"])
  show ?thesis
  proof (cases "tlb = 0")
    case True
    obtain ws' where ws': "memset_words ws1 te 0 se = Inr ws'" "length ws' = length ws1"
      "\<And>k. k < length ws1 \<Longrightarrow> ws' ! k = (if te \<le> k \<and> k < te + se then 0 else ws1 ! k)"
      by (rule memset_nth [of te se ws1]) (use te(1) ws1(2) in auto)
    show ?thesis by (rule that [of ws']) (use True ws1(1,2) ws' nth1 se in auto)
  next
    case False
    let ?ws = "(ws1[te := ws ! te AND MaskBitRange 0 tlb])[te + se := ws ! te AND MaskBitRange tlb 64]"
    have t: "te < ?n" "te + se < ?n" using te(2) [OF False] by simp_all
    obtain ws' where ws': "memset_words ?ws (te + 1) 0 (se - 1) = Inr ws'" "length ws' = length ?ws"
      "\<And>k. k < length ?ws \<Longrightarrow> ws' ! k = (if te + 1 \<le> k \<and> k < te + 1 + (se - 1) then 0 else ?ws ! k)"
      by (rule memset_nth [of "te + 1" "se - 1" ?ws]) (use t(2) ws1(2) in auto)
    have run: "and_word ws1 te (MaskBitRange 0 tlb) = Inr (ws1[te := ws ! te AND MaskBitRange 0 tlb])"
      "and_word (ws1[te := ws ! te AND MaskBitRange 0 tlb]) (te + se) (MaskBitRange tlb 64) = Inr ?ws"
      using t se nth1 [OF t(1)] nth1 [OF t(2)] ws1(2) by (simp_all add: and_word_def)
    show ?thesis
    proof (rule that [of ws'])
      fix k assume k: "k < ?n"
      show "ws' ! k = (if k < te then ws ! k else if k = te then (if tlb \<noteq> 0 then ws ! te AND MaskBitRange 0 tlb else 0)
        else if k < te + se then 0 else if k = te + se \<and> tlb \<noteq> 0 then ws ! te AND MaskBitRange tlb 64 else ws ! (k - se))"
        using ws'(3) [of k] k nth1 [OF k] ws1(2) False se by (auto simp: nth_list_update)
    qed (use False ws1(1,2) run ws'(1,2) in simp_all)
  qed
qed

lemma backward_aligned_bits:
  assumes T: "T = 64 * te + tlb" "tlb < 64" and D: "D = 64 * se" and se: "0 < se" and k: "k < length ws" and j: "j < 64"
  shows "top_bit (if k < te then ws ! k
        else if k = te then (if tlb \<noteq> 0 then ws ! te AND MaskBitRange 0 tlb else 0)
        else if k < te + se then 0
        else if k = te + se \<and> tlb \<noteq> 0 then ws ! te AND MaskBitRange tlb 64 else ws ! (k - se)) j
      = gap (words_bit ws) T D (64 * k + j)"
proof -
  have w: "top_bit (ws ! k) j = words_bit ws (64 * k + j)" by (rule words_bit_nth [OF k j])
  have w': "top_bit (ws ! (k - se)) j = words_bit ws (64 * k + j - D)" if "te + se \<le> k"
  proof -
    have "64 * k + j - D = 64 * (k - se) + j" using that D by simp
    then show ?thesis using words_bit_nth [of "k - se" ws j] k j by simp
  qed
  consider "k < te" | "k = te" | "te < k" "k < te + se" | "k = te + se" | "te + se < k" by linarith
  then show ?thesis
  proof cases
    case 1
    then show ?thesis using w T(1) j by (simp add: gap_def)
  next
    case 2
    then have "\<not> T + D \<le> 64 * k + j" "64 * k + j < T \<longleftrightarrow> j < tlb" using T D se j by auto
    then show ?thesis using 2 w j by (simp add: gap_def)
  next
    case 3
    then have "\<not> T + D \<le> 64 * k + j" "\<not> 64 * k + j < T" using T D j by auto
    then show ?thesis using 3 by (simp add: gap_def)
  next
    case 4
    then have "T + D \<le> 64 * k + j \<longleftrightarrow> tlb \<le> j" "\<not> 64 * k + j < T" using T D se j by auto
    moreover have "k - se = te" using 4 by simp
    ultimately show ?thesis using 4 se w' j by (auto simp: gap_def)
  next
    case 5
    have "64 * (te + se + 1) \<le> 64 * k" using 5 by simp
    then have "T + D \<le> 64 * k + j" "\<not> 64 * k + j < T" using T D by simp_all
    then show ?thesis using 5 w' by (simp add: gap_def)
  qed
qed

lemma backward_regular_shifted:
  assumes len: "length ws = n div 64 + (if n mod 64 \<noteq> 0 then 1 else 0)" and T: "T < n" and D: "D \<noteq> 0"
    and wrap: "T + D < 2 ^ 64" and fits: "T + D \<le> n"
  obtains ws' where "shiftTailBackwardRegularVersion n ws T D = Inr ws'" "length ws' = length ws"
    "\<And>i. words_bit ws' i = (i < n \<and> moved (words_bit ws) T D i)"
proof (rule split64 [of T], rule split64 [of D], rule split64 [of n])
  fix te tlb se sl q r
  assume t: "T = 64 * te + tlb" "tlb < 64" "T div 64 = te" "T mod 64 = tlb"
    and d: "D = 64 * se + sl" "sl < 64" "D div 64 = se" "D mod 64 = sl"
    and n: "n = 64 * q + r" "r < 64" "n div 64 = q" "n mod 64 = r"
  have size: "length ws = q + (if r \<noteq> 0 then 1 else 0)" using len n by simp
  have te: "te < length ws" using T t(1) n(1,2) size by (cases "r = 0") auto
  have add: "\<not> n < size_add T D" using wrap fits by (simp add: size_add_def)
  let ?tb = "drop_bit tlb (push_bit tlb (ws ! te))"
  let ?body = "if sl \<noteq> 0 then
      and_then (and_then (backward_loop ws (length ws - 1) (te + se + 1) se sl) (\<lambda>ws1.
         if te + se + 1 < length ws then
           and_then (vec_at ws1 (te + 1)) (\<lambda>a.
             vec_set ws1 (te + se + 1) (drop_bit sl a OR push_bit (64 - sl) ?tb))
         else Inr ws1)) (\<lambda>ws2. backward_first_words ws2 ?tb te tlb se sl)
    else
      and_then (memmove_words ws (te + se) te (length ws - te - se)) (\<lambda>ws1.
        if tlb \<noteq> 0 then
          and_then (and_word ws1 te (MaskBitRange 0 tlb)) (\<lambda>ws2.
          and_then (and_word ws2 (te + se) (MaskBitRange tlb 64)) (\<lambda>ws3.
            memset_words ws3 (te + 1) 0 (se - 1)))
        else memset_words ws1 te 0 se)"
  obtain ws4 where ws4: "?body = Inr ws4" "length ws4 = length ws"
    "\<And>k j. k < length ws \<Longrightarrow> j < 64 \<Longrightarrow> top_bit (ws4 ! k) j = moved (words_bit ws) T D (64 * k + j)"
  proof (cases "sl = 0")
    case True
    then have se: "0 < se" "D = 64 * se" using D d(1) by auto
    have moved: "moved (words_bit ws) T D = gap (words_bit ws) T D" using d(4) True by (simp add: moved_gap)
    have bound: "te + se \<le> length ws" "tlb \<noteq> 0 \<Longrightarrow> te + se < length ws"
      using fits t(1) d(1) n(1,2) size by (cases "r = 0"; simp)+
    show ?thesis
      by (rule backward_aligned_words [OF se(1) bound], assumption)
        (use moved that True backward_aligned_bits [OF t(1,2) se(2,1)] in simp)
  next
    case False
    then have sl: "0 < sl" by simp
    have bound: "te + se < length ws" using fits t(1) d(1) n(1,2) size sl by (cases "r = 0") auto
    show ?thesis
    proof (rule backward_later_words [OF t(1,2) d(1) sl d(2) bound])
      fix ws2
      assume ws2: "and_then (backward_loop ws (length ws - 1) (te + se + 1) se sl) (\<lambda>ws1.
         if te + se + 1 < length ws then
           and_then (vec_at ws1 (te + 1)) (\<lambda>a.
             vec_set ws1 (te + se + 1) (drop_bit sl a OR push_bit (64 - sl) ?tb))
         else Inr ws1) = Inr ws2" "length ws2 = length ws"
        "\<And>k. k \<le> te + se \<Longrightarrow> ws2 ! k = ws ! k"
        "\<And>k j. te + se < k \<Longrightarrow> k < length ws \<Longrightarrow> j < 64 \<Longrightarrow> top_bit (ws2 ! k) j = gap (words_bit ws) T D (64 * k + j)"
      show ?thesis
      proof (rule backward_first_words_spec [OF t(1,2) d(1) sl d(2) bound ws2(2-4)])
        fix ws3 assume ws3: "backward_first_words ws2 ?tb te tlb se sl = Inr ws3" "length ws3 = length ws"
          "\<And>k j. k < length ws \<Longrightarrow> j < 64 \<Longrightarrow> top_bit (ws3 ! k) j = moved (words_bit ws) T D (64 * k + j)"
        show ?thesis by (rule that [OF _ ws3(2,3)]) (simp_all only: False ws2(1) ws3(1) if_True if_False and_then.simps not_False_eq_True)
      qed
    qed
  qed
  have n0: "0 < n" using T by simp
  obtain ws' where ws': "(if n mod 64 \<noteq> 0 then and_word ws4 (length ws4 - 1) (MaskBitRange 0 (n mod 64)) else Inr ws4) = Inr ws'"
    "length ws' = length ws4" "\<And>i. words_bit ws' i = (i < n \<and> moved (words_bit ws) T D i)"
    by (rule mask_last_word [of ws4 n "moved (words_bit ws) T D"]) (use len ws4(2,3) n0 in auto)
  have "shiftTailBackwardRegularVersion n ws T D
      = and_then ?body (\<lambda>ws4. if n mod 64 \<noteq> 0 then and_word ws4 (length ws - 1) (MaskBitRange 0 (n mod 64)) else Inr ws4)"
    unfolding shiftTailBackwardRegularVersion_def Let_def t(3,4) d(3,4) if_not_P [OF D] if_not_P [OF add]
    using te by (simp add: and_then_assoc)
  also have "\<dots> = Inr ws'" using ws4(1) ws'(1) unfolding ws4(2) by simp
  finally show thesis using that ws'(2,3) ws4(2) by simp
qed

lemma backward_regular:
  assumes len: "length ws = n div 64 + (if n mod 64 \<noteq> 0 then 1 else 0)" and T: "T < n" and wrap: "T + D < 2 ^ 64"
    and beyond: "\<And>i. n \<le> i \<Longrightarrow> \<not> words_bit ws i"
  obtains ws' where "shiftTailBackwardRegularVersion n ws T D = Inr ws'" "length ws' = length ws"
    "\<And>i. words_bit ws' i = (i < n \<and> (if T + D \<le> n then moved (words_bit ws) T D i else gap (words_bit ws) T D i))"
proof -
  consider "D = 0" | "D \<noteq> 0" "T + D \<le> n" | "D \<noteq> 0" "\<not> T + D \<le> n" by blast
  then show ?thesis
  proof cases
    case 1
    have "words_bit ws i = (i < n \<and> gap (words_bit ws) T 0 i)" for i
      using beyond [of i] by (cases "i < n") (auto simp: gap_def)
    then show ?thesis using that [of ws] 1 T by (simp add: shiftTailBackwardRegularVersion_def moved_gap)
  next
    case 2
    show ?thesis by (rule backward_regular_shifted [OF len T 2(1) wrap 2(2)]) (use that 2(2) in simp)
  next
    case 3
    have te: "T div 64 < length ws"
    proof (rule split64 [of T], rule split64 [of n])
      fix te tlb q r assume "T = 64 * te + tlb" "T div 64 = te" and "n = 64 * q + r" "r < 64" "n div 64 = q" "n mod 64 = r"
      then show ?thesis using T len by (cases "r = 0") auto
    qed
    have add: "n < size_add T D" using wrap 3(2) by (simp add: size_add_def)
    let ?G = "\<lambda>i. i < n \<and> gap (words_bit ws) T D i"
    have out: "\<not> ?G i" if "T \<le> i" for i using that 3(2) by (auto simp: gap_def)
    have keep: "?G i = words_bit ws i" if "i < T" for i using that T by (auto simp: gap_def)
    have t: "T = 64 * (T div 64) + T mod 64" "T mod 64 < 64" by simp_all
    show ?thesis by (rule backward_zero [OF t te out keep], assumption, assumption)
      (use that 3 add in \<open>simp add: shiftTailBackwardRegularVersion_def Let_def\<close>)
  qed
qed

lemma backward_short:
  assumes "D < 32" and "top_bit w = f"
  shows "\<exists>w'. shiftTailBackwardShortVersion T D (w :: 'a::len word) = Inr w'
    \<and> top_bit w' = (\<lambda>i. i < LENGTH('a) \<and> gap f T D i)"
proof -
  let ?w = "(w AND MaskBitRange 0 T) OR drop_bit D (w AND MaskBitRange T LENGTH('a))"
  have "top_bit ?w i = (i < LENGTH('a) \<and> gap (top_bit w) T D i)" for i
    by (auto simp: gap_def dest: top_bit_less)
  then show ?thesis using assms(1) unfolding assms(2) [symmetric]
    by (simp add: shiftTailBackwardShortVersion_def Let_def fun_eq_iff)
qed

lemma backward_words:
  assumes inv: "bv_inv v" and "\<not> short_version v" and T: "T < num_bits v" and wrap: "T + D < 2 ^ 64"
  shows "\<exists>v'. shiftTailBackward v T D = Inr v' \<and> stored v v' (\<lambda>i. i < num_bits v \<and>
    (if T + D \<le> num_bits v then moved (bits v) T D i else gap (bits v) T D i))"
proof -
  have False: "\<not> is_short v" using assms(2) by simp
  have "\<exists>v'. write_words v (\<lambda>ws. shiftTailBackwardRegularVersion (num_bits v) ws T D) = Inr v' \<and> stored v v' (\<lambda>i. i < num_bits v \<and>
    (if T + D \<le> num_bits v then moved (bits v) T D i else gap (bits v) T D i))" (is "\<exists>v'. _ v' \<and> stored v v' ?F")
  proof (rule write_words_stored [OF inv False])
    fix ws assume ws: "length ws = data_array_size v" "words_bit ws = bits v"
    have beyond: "\<not> words_bit ws i" if "num_bits v \<le> i" for i using bv_inv_beyond [OF inv that] ws(2) by simp
    show "\<exists>ws'. shiftTailBackwardRegularVersion (num_bits v) ws T D = Inr ws' \<and> length ws' = length ws \<and> words_bit ws' = ?F"
      by (rule backward_regular [OF ws(1) [unfolded data_array_size_def] T wrap beyond], assumption)
        (simp add: ws(2) fun_eq_iff)
  qed simp
  moreover have "shiftTailBackward v T D = write_words v (\<lambda>ws. shiftTailBackwardRegularVersion (num_bits v) ws T D)"
    using assms(2) T by (simp add: shiftTailBackward_def)
  ultimately show ?thesis by (simp only:)
qed


text \<open>In the second of these situations the first word of the gap keeps its old contents.\<close>

theorem shiftTailBackward_stale_word:
  assumes "bv_inv v" and "\<not> short_version v" and "T + D \<le> num_bits v" and "num_bits v < 2 ^ 64"
    and "T mod 64 = 0" and "D mod 64 \<noteq> 0" and "64 < D"
  shows "\<exists>v'. shiftTailBackward v T D = Inr v' \<and> (\<forall>j < 64. bits v' (T + j) = bits v (T + j))"
proof -
  have T: "T < num_bits v" "T + D < 2 ^ 64" using assms by simp_all
  obtain v' where v': "shiftTailBackward v T D = Inr v'" "bits v' = (\<lambda>i. i < num_bits v \<and>
      (if T + D \<le> num_bits v then moved (bits v) T D i else gap (bits v) T D i))"
    using backward_words [OF assms(1,2) T] by (auto simp: stored_def)
  have "bits v' (T + j) = bits v (T + j)" if "j < 64" for j
    using that assms(3,5-7) by (simp add: v'(2) moved_def)
  with v'(1) show ?thesis by simp
qed

section \<open>Witnesses\<close>

theorem shiftTailForward_correct_witness:
  "bv_inv short_example \<and> (2 :: nat) + 30 < 2 ^ 64 \<and> shiftTailForward short_example 2 30 = Inl UndefinedBehaviour
   \<and> (\<exists>v'. shiftTailForward long_example 3 70 = Inr v')"
  using short_example_inv shiftTailForward_correct [OF short_example_inv, of 2 30]
    shiftTailForward_correct [OF long_example_inv, of 3 70] by auto


definition full_long :: BitVector where
  "full_long = BitVector_external False (Words [- 1, - 1]) 128"

lemma full_long_bits: "bits full_long i \<longleftrightarrow> i < 128"
proof (rule split64 [of i])
  fix q r assume i: "i = 64 * q + r" "r < 64" "i div 64 = q" "i mod 64 = r"
  have "words_bit [- 1, - 1] i \<longleftrightarrow> q < 2"
    using i by (cases q; cases "q - 1") (auto simp: words_bit_def)
  then show ?thesis using i(1,2) by (auto simp: full_long_def BitVector_external_def bits_def)
qed

lemma full_long_inv: "bv_inv full_long"
  using full_long_bits by (simp add: bv_inv_def storage_fits_def) (simp add: full_long_def BitVector_external_def)

theorem shiftTailBackward_stale_word_witness:
  "bv_inv full_long \<and> \<not> gap (bits full_long) 0 65 7 \<and> (\<exists>v'. shiftTailBackward full_long 0 65 = Inr v' \<and> bits v' 7)"
proof -
  have "\<not> short_version full_long" "num_bits full_long = 128" by (simp_all add: full_long_def BitVector_external_def)
  then obtain v' where "shiftTailBackward full_long 0 65 = Inr v'" "bits v' 7 = bits full_long 7"
    using shiftTailBackward_stale_word [OF full_long_inv, of 0 65] by auto
  then show ?thesis using full_long_inv full_long_bits by (simp add: gap_def)
qed

end
