(* ===== verification/EvictionPolicies.thy ===== *)
theory EvictionPolicies
  imports Prelude
begin

text \<open>
  The eviction policies of the buffer pool (\<^verbatim>\<open>EvictionPolicy\<close>): evicting any block, a random block, or by
  LRU-K.  A policy is told about blocks that are created, referenced, unreferenced, evicted or
  deleted, and chooses unreferenced blocks to evict.

  What the standard library leaves open is an argument: the element an unordered set begins with, the
  order in which it is iterated, the numbers of a random distribution, and the readings of the clock.
  Times are in nanoseconds since the epoch of the clock, in 64 bits; an overflow is undefined.  The
  number of references held on one block is taken to be below the range of its counter.
\<close>

type_synonym block = nat

section \<open>The interface\<close>

text \<open>The virtual methods of \<^verbatim>\<open>EvictionPolicy\<close>; \<open>'t\<close> is what a call learns from its environment.\<close>

record ('t, 's) EvictionPolicy =
  chooseBlockToEvict :: "'t \<Rightarrow> 's \<Rightarrow> (block option \<times> 's) result"
  blockCreated :: "block \<Rightarrow> 's \<Rightarrow> 's result"
  blockEvicted :: "block \<Rightarrow> 's \<Rightarrow> 's result"
  blockReferenced :: "'t \<Rightarrow> block \<Rightarrow> 's \<Rightarrow> 's result"
  blockUnreferenced :: "block \<Rightarrow> 's \<Rightarrow> 's result"
  blockDeleted :: "block \<Rightarrow> 's \<Rightarrow> 's result"
  getRefCount :: "block \<Rightarrow> 's \<Rightarrow> nat result"

section \<open>Any block\<close>

record EvictAny =
  any_ref_counts :: "block \<rightharpoonup> nat"
  any_nonreferenced_blocks :: "block set"

definition new_any :: EvictAny where
  "new_any = \<lparr>any_ref_counts = Map.empty, any_nonreferenced_blocks = {}\<rparr>"

definition any_choose :: "(block set \<Rightarrow> block) \<Rightarrow> EvictAny \<Rightarrow> (block option \<times> EvictAny) result" where
  "any_choose begin_of s =
     (if any_nonreferenced_blocks s = {} then Inr (None, s)
      else (let it = begin_of (any_nonreferenced_blocks s) in
        Inr (Some it, s\<lparr>any_ref_counts := (any_ref_counts s)(it := None),
                        any_nonreferenced_blocks := any_nonreferenced_blocks s - {it}\<rparr>)))"

definition any_created :: "block \<Rightarrow> EvictAny \<Rightarrow> EvictAny result" where
  "any_created b s = Inr (s\<lparr>any_ref_counts := (any_ref_counts s)(b \<mapsto> 0),
     any_nonreferenced_blocks := insert b (any_nonreferenced_blocks s)\<rparr>)"

definition any_evicted :: "block \<Rightarrow> EvictAny \<Rightarrow> EvictAny result" where
  "any_evicted b s = Inr (s\<lparr>any_ref_counts := (any_ref_counts s)(b := None),
     any_nonreferenced_blocks := any_nonreferenced_blocks s - {b}\<rparr>)"

definition any_referenced :: "block \<Rightarrow> EvictAny \<Rightarrow> EvictAny result" where
  "any_referenced b s =
     (let n = (case any_ref_counts s b of None \<Rightarrow> 0 | Some n \<Rightarrow> n);
          s1 = s\<lparr>any_ref_counts := (any_ref_counts s)(b \<mapsto> n + 1)\<rparr> in
      Inr (if n = 0 then s1\<lparr>any_nonreferenced_blocks := any_nonreferenced_blocks s1 - {b}\<rparr> else s1))"

definition any_unreferenced :: "block \<Rightarrow> EvictAny \<Rightarrow> EvictAny result" where
  "any_unreferenced b s =
     (case any_ref_counts s b of
        None \<Rightarrow> Inl CheckFailed
      | Some n \<Rightarrow> and_then (check CheckFailed (n > 0)) (\<lambda>_.
          (let s1 = s\<lparr>any_ref_counts := (any_ref_counts s)(b \<mapsto> n - 1)\<rparr> in
           Inr (if n - 1 = 0 then s1\<lparr>any_nonreferenced_blocks := insert b (any_nonreferenced_blocks s1)\<rparr> else s1))))"

definition any_getRefCount :: "block \<Rightarrow> EvictAny \<Rightarrow> nat result" where
  "any_getRefCount b s = (case any_ref_counts s b of None \<Rightarrow> Inl CheckFailed | Some n \<Rightarrow> Inr n)"

definition EvictAnyBlockEvictionPolicy :: "(block set \<Rightarrow> block, EvictAny) EvictionPolicy" where
  "EvictAnyBlockEvictionPolicy =
     \<lparr>chooseBlockToEvict = any_choose, blockCreated = any_created, blockEvicted = any_evicted,
      blockReferenced = (\<lambda>_. any_referenced), blockUnreferenced = any_unreferenced,
      blockDeleted = (\<lambda>_ s. Inr s), getRefCount = any_getRefCount\<rparr>"

section \<open>A random block\<close>

record UniformRandom =
  uniform_ref_counts :: "block \<rightharpoonup> nat"
  uniform_nonreferenced_blocks :: "block list"

definition new_uniform :: UniformRandom where
  "new_uniform = \<lparr>uniform_ref_counts = Map.empty, uniform_nonreferenced_blocks = []\<rparr>"

text \<open>\<open>rng n\<close> is a number drawn between 0 and \<open>n\<close>.\<close>

definition uniform_choose :: "(nat \<Rightarrow> nat) \<Rightarrow> UniformRandom \<Rightarrow> (block option \<times> UniformRandom) result" where
  "uniform_choose rng s =
     (let bs = uniform_nonreferenced_blocks s in
      if bs = [] then Inr (None, s)
      else (let i = rng (length bs - 1) in
        and_then (vec_at bs i) (\<lambda>b.
          Inr (Some b, s\<lparr>uniform_ref_counts := (uniform_ref_counts s)(b := None),
                         uniform_nonreferenced_blocks := take i bs @ drop (i + 1) bs\<rparr>))))"

definition uniform_created :: "block \<Rightarrow> UniformRandom \<Rightarrow> UniformRandom result" where
  "uniform_created b s = Inr (s\<lparr>uniform_ref_counts := (uniform_ref_counts s)(b \<mapsto> 0),
     uniform_nonreferenced_blocks := uniform_nonreferenced_blocks s @ [b]\<rparr>)"

text \<open>The search for a block in the list and its removal.\<close>

definition erase_nonreferenced :: "block \<Rightarrow> UniformRandom \<Rightarrow> UniformRandom result" where
  "erase_nonreferenced b s =
     and_then (check CheckFailed (b \<in> set (uniform_nonreferenced_blocks s))) (\<lambda>_.
       Inr (s\<lparr>uniform_nonreferenced_blocks := remove_first (\<lambda>c. c = b) (uniform_nonreferenced_blocks s)\<rparr>))"

definition uniform_evicted :: "block \<Rightarrow> UniformRandom \<Rightarrow> UniformRandom result" where
  "uniform_evicted b s =
     (case uniform_ref_counts s b of
        None \<Rightarrow> Inr s
      | Some n \<Rightarrow> erase_nonreferenced b (s\<lparr>uniform_ref_counts := (uniform_ref_counts s)(b := None)\<rparr>))"

definition uniform_referenced :: "block \<Rightarrow> UniformRandom \<Rightarrow> UniformRandom result" where
  "uniform_referenced b s =
     (case uniform_ref_counts s b of
        None \<Rightarrow> Inr (s\<lparr>uniform_ref_counts := (uniform_ref_counts s)(b \<mapsto> 1)\<rparr>)
      | Some n \<Rightarrow>
          (let s1 = s\<lparr>uniform_ref_counts := (uniform_ref_counts s)(b \<mapsto> n + 1)\<rparr> in
           if n + 1 = 1 then erase_nonreferenced b s1 else Inr s1))"

definition uniform_unreferenced :: "block \<Rightarrow> UniformRandom \<Rightarrow> UniformRandom result" where
  "uniform_unreferenced b s =
     (case uniform_ref_counts s b of
        None \<Rightarrow> Inl CheckFailed
      | Some n \<Rightarrow> and_then (check CheckFailed (n > 0)) (\<lambda>_.
          (let s1 = s\<lparr>uniform_ref_counts := (uniform_ref_counts s)(b \<mapsto> n - 1)\<rparr> in
           Inr (if n - 1 = 0 then s1\<lparr>uniform_nonreferenced_blocks := uniform_nonreferenced_blocks s1 @ [b]\<rparr> else s1))))"

definition uniform_getRefCount :: "block \<Rightarrow> UniformRandom \<Rightarrow> nat result" where
  "uniform_getRefCount b s = (case uniform_ref_counts s b of None \<Rightarrow> Inl CheckFailed | Some n \<Rightarrow> Inr n)"

definition UniformRandomEvictionPolicy :: "(nat \<Rightarrow> nat, UniformRandom) EvictionPolicy" where
  "UniformRandomEvictionPolicy =
     \<lparr>chooseBlockToEvict = uniform_choose, blockCreated = uniform_created, blockEvicted = uniform_evicted,
      blockReferenced = (\<lambda>_. uniform_referenced), blockUnreferenced = uniform_unreferenced,
      blockDeleted = (\<lambda>_ s. Inr s), getRefCount = uniform_getRefCount\<rparr>"

section \<open>LRU-K\<close>

text \<open>Time points and durations of the clock; \<open>to_microseconds\<close> is the conversion of a duration, which
  truncates.\<close>

definition kMinTime :: int where
  "kMinTime = - (2 ^ 63)"

definition ticks :: "int \<Rightarrow> int result" where
  "ticks x = (if - (2 ^ 63) \<le> x \<and> x < 2 ^ 63 then Inr x else Inl UndefinedBehaviour)"

definition to_microseconds :: "int \<Rightarrow> int" where
  "to_microseconds d = (if 0 \<le> d then d div 1000 else - (- d div 1000))"

record BlockInfo =
  ref_list :: "int list"
  last_reference :: int
  ref_count :: nat
  in_memory :: bool

text \<open>The constructor leaves \<^verbatim>\<open>last_reference_\<close> to its default, the epoch.\<close>

definition new_BlockInfo :: "nat \<Rightarrow> BlockInfo" where
  "new_BlockInfo k = \<lparr>ref_list = replicate k kMinTime, last_reference = 0, ref_count = 0, in_memory = False\<rparr>"

text \<open>The loop that moves the reference times back by one place, with the shift in nanoseconds.\<close>

fun move_times :: "int \<Rightarrow> int list \<Rightarrow> int list result" where
  "move_times shift [] = Inr []"
| "move_times shift (r # rs) = and_then (ticks (r + shift)) (\<lambda>r'. and_then (move_times shift rs) (\<lambda>rs'. Inr (r' # rs')))"

definition addReferenceTime :: "int \<Rightarrow> bool \<Rightarrow> BlockInfo \<Rightarrow> BlockInfo result" where
  "addReferenceTime time currently_in_memory info =
     (if currently_in_memory then
        and_then (ticks (last_reference info - hd (ref_list info))) (\<lambda>d.
        and_then (move_times (1000 * to_microseconds d) (butlast (ref_list info))) (\<lambda>rs.
          Inr (info\<lparr>ref_list := time # rs\<rparr>)))
      else Inr (info\<lparr>ref_list := time # butlast (ref_list info)\<rparr>))"

definition blockReferencedHelper :: "int \<Rightarrow> int \<Rightarrow> BlockInfo \<Rightarrow> (bool \<times> BlockInfo) result" where
  "blockReferencedHelper time period info =
     and_then (if in_memory info then
                 and_then (ticks (time - last_reference info)) (\<lambda>d.
                   if d > 1000 * period then addReferenceTime time True info else Inr info)
               else and_then (addReferenceTime time False info) (\<lambda>info1. Inr (info1\<lparr>in_memory := True\<rparr>)))
       (\<lambda>info2. Inr (ref_count info2 = 0, info2\<lparr>last_reference := time, ref_count := ref_count info2 + 1\<rparr>))"

text \<open>\<open>BlockInfoComparator\<close>.  The times are readings of the clock, or the epoch, so that their difference does
  not overflow.\<close>

definition past_corrl_period :: "int \<Rightarrow> int \<Rightarrow> BlockInfo \<Rightarrow> bool" where
  "past_corrl_period time period info \<longleftrightarrow> time - last_reference info > 1000 * period"

definition info_less :: "int \<Rightarrow> int \<Rightarrow> BlockInfo \<Rightarrow> BlockInfo \<Rightarrow> bool" where
  "info_less time period lhs rhs =
     (let lhs_past = past_corrl_period time period lhs; rhs_past = past_corrl_period time period rhs in
      if lhs_past = rhs_past then last (ref_list lhs) < last (ref_list rhs) else lhs_past)"

record LRUK =
  lru_k :: nat
  lru_blocks :: "block \<rightharpoonup> BlockInfo"
  correlated_reference_period :: int
  lru_nonreferenced_blocks :: "block set"

definition new_LRUK :: "nat \<Rightarrow> int \<Rightarrow> LRUK" where
  "new_LRUK k period = \<lparr>lru_k = k, lru_blocks = Map.empty, correlated_reference_period = period, lru_nonreferenced_blocks = {}\<rparr>"

text \<open>Access by the index operator, which constructs a missing entry.\<close>

definition lru_info :: "LRUK \<Rightarrow> block \<Rightarrow> BlockInfo" where
  "lru_info s b = (case lru_blocks s b of None \<Rightarrow> new_BlockInfo (lru_k s) | Some info \<Rightarrow> info)"

definition put_info :: "LRUK \<Rightarrow> block \<Rightarrow> BlockInfo \<Rightarrow> LRUK" where
  "put_info s b info = s\<lparr>lru_blocks := (lru_blocks s)(b \<mapsto> info)\<rparr>"

fun smallest_loop :: "int \<Rightarrow> LRUK \<Rightarrow> block list \<Rightarrow> block option \<Rightarrow> block option" where
  "smallest_loop time s [] smallest = smallest"
| "smallest_loop time s (b # bs) smallest =
     smallest_loop time s bs
       (if in_memory (lru_info s b)
          \<and> (smallest = None \<or> info_less time (correlated_reference_period s) (lru_info s b) (lru_info s (the smallest)))
        then Some b else smallest)"

text \<open>The environment gives the time and the order in which a set is iterated.\<close>

definition lru_choose :: "int \<times> (block set \<Rightarrow> block list) \<Rightarrow> LRUK \<Rightarrow> (block option \<times> LRUK) result" where
  "lru_choose env s =
     (let (time, order) = env in
      case smallest_loop time s (order (lru_nonreferenced_blocks s)) None of
        None \<Rightarrow> Inr (None, s)
      | Some b \<Rightarrow>
          and_then (check CheckFailed (ref_count (lru_info s b) = 0)) (\<lambda>_.
            Inr (Some b, (put_info s b ((lru_info s b)\<lparr>in_memory := False\<rparr>))
                   \<lparr>lru_nonreferenced_blocks := lru_nonreferenced_blocks s - {b}\<rparr>)))"

definition lru_created :: "block \<Rightarrow> LRUK \<Rightarrow> LRUK result" where
  "lru_created b s = Inr ((put_info s b ((lru_info s b)\<lparr>in_memory := True\<rparr>))
     \<lparr>lru_nonreferenced_blocks := insert b (lru_nonreferenced_blocks s)\<rparr>)"

definition lru_evicted :: "block \<Rightarrow> LRUK \<Rightarrow> LRUK result" where
  "lru_evicted b s =
     and_then (check CheckFailed (ref_count (lru_info s b) = 0)) (\<lambda>_.
       Inr ((put_info s b ((lru_info s b)\<lparr>in_memory := False\<rparr>))
         \<lparr>lru_nonreferenced_blocks := lru_nonreferenced_blocks s - {b}\<rparr>))"

text \<open>Known and unknown blocks are handled alike, but under different locks.\<close>

definition lru_referenced :: "int \<times> (block set \<Rightarrow> block list) \<Rightarrow> block \<Rightarrow> LRUK \<Rightarrow> LRUK result" where
  "lru_referenced env b s =
     and_then (blockReferencedHelper (fst env) (correlated_reference_period s) (lru_info s b)) (\<lambda>(first, info).
       (let s1 = put_info s b info in
        Inr (if first then s1\<lparr>lru_nonreferenced_blocks := lru_nonreferenced_blocks s1 - {b}\<rparr> else s1)))"

definition lru_unreferenced :: "block \<Rightarrow> LRUK \<Rightarrow> LRUK result" where
  "lru_unreferenced b s =
     (case lru_blocks s b of
        None \<Rightarrow> Inl CheckFailed
      | Some info \<Rightarrow> and_then (check CheckFailed (ref_count info > 0)) (\<lambda>_.
          (let s1 = put_info s b (info\<lparr>ref_count := ref_count info - 1\<rparr>) in
           Inr (if ref_count info - 1 = 0
                then s1\<lparr>lru_nonreferenced_blocks := insert b (lru_nonreferenced_blocks s1)\<rparr> else s1))))"

definition lru_deleted :: "block \<Rightarrow> LRUK \<Rightarrow> LRUK result" where
  "lru_deleted b s = Inr (s\<lparr>lru_blocks := (lru_blocks s)(b := None),
     lru_nonreferenced_blocks := lru_nonreferenced_blocks s - {b}\<rparr>)"

definition lru_getRefCount :: "block \<Rightarrow> LRUK \<Rightarrow> nat result" where
  "lru_getRefCount b s = (case lru_blocks s b of None \<Rightarrow> Inl CheckFailed | Some info \<Rightarrow> Inr (ref_count info))"

definition LRUKEvictionPolicyImpl :: "(int \<times> (block set \<Rightarrow> block list), LRUK) EvictionPolicy" where
  "LRUKEvictionPolicyImpl =
     \<lparr>chooseBlockToEvict = lru_choose, blockCreated = lru_created, blockEvicted = lru_evicted,
      blockReferenced = lru_referenced, blockUnreferenced = lru_unreferenced,
      blockDeleted = lru_deleted, getRefCount = lru_getRefCount\<rparr>"

definition ConstructLRUKEvictionPolicy :: "nat \<Rightarrow> int \<Rightarrow> LRUK result" where
  "ConstructLRUKEvictionPolicy k period = (if k \<in> {1, 2, 3} then Inr (new_LRUK k period) else Inl FatalLog)"

section \<open>What a policy promises\<close>

text \<open>The contents of the buffer pool: the blocks in memory with their reference counts.  Events are the calls
  of the storage manager, with the answer of the policy.\<close>

type_synonym pool = "block \<rightharpoonup> nat"

datatype event = Created block | Referenced block | Unreferenced block | Evicted block | Chosen "block option"

fun pool_after :: "pool \<Rightarrow> event \<Rightarrow> pool" where
  "pool_after p (Created b) = p(b \<mapsto> 0)"
| "pool_after p (Referenced b) = p(b \<mapsto> (case p b of None \<Rightarrow> 1 | Some n \<Rightarrow> n + 1))"
| "pool_after p (Unreferenced b) = p(b \<mapsto> the (p b) - 1)"
| "pool_after p (Evicted b) = p(b := None)"
| "pool_after p (Chosen None) = p"
| "pool_after p (Chosen (Some b)) = p(b := None)"

text \<open>What the storage manager may do.\<close>

fun allowed :: "pool \<Rightarrow> event \<Rightarrow> bool" where
  "allowed p (Created b) \<longleftrightarrow> p b = None"
| "allowed p (Referenced b) \<longleftrightarrow> True"
| "allowed p (Unreferenced b) \<longleftrightarrow> (case p b of None \<Rightarrow> False | Some n \<Rightarrow> n > 0)"
| "allowed p (Evicted b) \<longleftrightarrow> p b = Some 0"
| "allowed p (Chosen r) \<longleftrightarrow> True"

text \<open>What the policy answers: a block that is not referenced, and none only if there is none.\<close>

fun promised :: "pool \<Rightarrow> event \<Rightarrow> bool" where
  "promised p (Chosen (Some b)) \<longleftrightarrow> p b = Some 0"
| "promised p (Chosen None) \<longleftrightarrow> Some 0 \<notin> range p"
| "promised p e \<longleftrightarrow> True"

fun all_events :: "(pool \<Rightarrow> event \<Rightarrow> bool) \<Rightarrow> pool \<Rightarrow> event list \<Rightarrow> bool" where
  "all_events P p [] \<longleftrightarrow> True"
| "all_events P p (e # es) \<longleftrightarrow> P p e \<and> all_events P (pool_after p e) es"

text \<open>Calls of a policy.\<close>

inductive policy_step :: "('t, 's) EvictionPolicy \<Rightarrow> ('t \<Rightarrow> bool) \<Rightarrow> 's \<Rightarrow> event \<Rightarrow> 's \<Rightarrow> bool"
  for P :: "('t, 's) EvictionPolicy" and env_ok :: "'t \<Rightarrow> bool" where
  "blockCreated P b s = Inr s' \<Longrightarrow> policy_step P env_ok s (Created b) s'"
| "env_ok t \<Longrightarrow> blockReferenced P t b s = Inr s' \<Longrightarrow> policy_step P env_ok s (Referenced b) s'"
| "blockUnreferenced P b s = Inr s' \<Longrightarrow> policy_step P env_ok s (Unreferenced b) s'"
| "blockEvicted P b s = Inr s' \<Longrightarrow> policy_step P env_ok s (Evicted b) s'"
| "env_ok t \<Longrightarrow> chooseBlockToEvict P t s = Inr (r, s') \<Longrightarrow> policy_step P env_ok s (Chosen r) s'"

inductive policy_run :: "('t, 's) EvictionPolicy \<Rightarrow> ('t \<Rightarrow> bool) \<Rightarrow> 's \<Rightarrow> event list \<Rightarrow> 's \<Rightarrow> bool"
  for P :: "('t, 's) EvictionPolicy" and env_ok :: "'t \<Rightarrow> bool" where
  no_calls: "policy_run P env_ok s [] s"
| one_call: "policy_step P env_ok s e s1 \<Longrightarrow> policy_run P env_ok s1 es s' \<Longrightarrow> policy_run P env_ok s (e # es) s'"

text \<open>The contract of a policy: every allowed call except for a reference succeeds, and every call that
  succeeds does to the pool what the event says and keeps the promise.\<close>

locale eviction_policy =
  fixes P :: "('t, 's) EvictionPolicy" and env_ok :: "'t \<Rightarrow> bool" and inv :: "'s \<Rightarrow> bool" and pool_of :: "'s \<Rightarrow> pool"
  assumes created: "inv s \<Longrightarrow> pool_of s b = None \<Longrightarrow> \<exists>s'. blockCreated P b s = Inr s' \<and> inv s' \<and> pool_of s' = (pool_of s)(b \<mapsto> 0)"
    and referenced: "inv s \<Longrightarrow> env_ok t \<Longrightarrow> blockReferenced P t b s = Inr s' \<Longrightarrow>
      inv s' \<and> pool_of s' = (pool_of s)(b \<mapsto> (case pool_of s b of None \<Rightarrow> 1 | Some n \<Rightarrow> n + 1))"
    and unreferenced: "inv s \<Longrightarrow> pool_of s b = Some (Suc n) \<Longrightarrow>
      \<exists>s'. blockUnreferenced P b s = Inr s' \<and> inv s' \<and> pool_of s' = (pool_of s)(b \<mapsto> n)"
    and evicted: "inv s \<Longrightarrow> pool_of s b = Some 0 \<Longrightarrow>
      \<exists>s'. blockEvicted P b s = Inr s' \<and> inv s' \<and> pool_of s' = (pool_of s)(b := None)"
    and choose: "inv s \<Longrightarrow> env_ok t \<Longrightarrow> \<exists>r s'. chooseBlockToEvict P t s = Inr (r, s') \<and> inv s'
      \<and> promised (pool_of s) (Chosen r) \<and> pool_of s' = pool_after (pool_of s) (Chosen r)"
begin

lemma step_refines:
  assumes "policy_step P env_ok s e s'" and "inv s" and "allowed (pool_of s) e"
  shows "inv s' \<and> promised (pool_of s) e \<and> pool_of s' = pool_after (pool_of s) e"
  using assms
proof (cases rule: policy_step.cases)
  case (1 b)
  then show ?thesis using assms(2,3) created [of s b] by auto
next
  case (2 t b)
  then show ?thesis using assms(2) referenced [of s t b s'] by simp
next
  case (3 b)
  then obtain n where "pool_of s b = Some (Suc n)" using assms(3) by (auto split: option.splits dest: gr0_implies_Suc)
  then show ?thesis using 3 assms(2) unreferenced [of s b n] by auto
next
  case (4 b)
  then show ?thesis using assms(2,3) evicted [of s b] by auto
next
  case (5 t r)
  then show ?thesis using assms(2) choose [of s t] by auto
qed

lemma run_refines:
  "policy_run P env_ok s es s' \<Longrightarrow> inv s \<Longrightarrow> all_events allowed (pool_of s) es \<Longrightarrow>
     inv s' \<and> all_events promised (pool_of s) es \<and> pool_of s' = foldl pool_after (pool_of s) es"
proof (induction rule: policy_run.induct)
  case (no_calls s)
  then show ?case by simp
next
  case (one_call s e s1 es s')
  then show ?case using step_refines [of s e s1] by simp
qed

end

text \<open>A policy for which references succeed as well.\<close>

locale total_eviction_policy = eviction_policy +
  assumes reference_succeeds: "inv s \<Longrightarrow> env_ok t \<Longrightarrow> \<exists>s'. blockReferenced P t b s = Inr s'"
begin

lemma step_exists:
  assumes "inv s" and "allowed (pool_of s) e" and "env_ok t" and "\<And>r. e \<noteq> Chosen r"
  shows "\<exists>s'. policy_step P env_ok s e s'"
proof (cases e)
  case (Created b)
  then show ?thesis using assms(1,2) created [of s b] policy_step.intros(1) by fastforce
next
  case (Referenced b)
  then show ?thesis using assms(1,3) reference_succeeds [of s t b] policy_step.intros(2) by fastforce
next
  case (Unreferenced b)
  then obtain n where "pool_of s b = Some (Suc n)" using assms(2) by (auto split: option.splits dest: gr0_implies_Suc)
  then show ?thesis using Unreferenced assms(1) unreferenced [of s b n] policy_step.intros(3) by fastforce
next
  case (Evicted b)
  then show ?thesis using assms(1,2) evicted [of s b] policy_step.intros(4) by fastforce
next
  case (Chosen r)
  then show ?thesis using assms(4) by simp
qed

end

section \<open>The policies keep their promise\<close>

definition any_inv :: "EvictAny \<Rightarrow> bool" where
  "any_inv s \<longleftrightarrow> any_nonreferenced_blocks s = {b. any_ref_counts s b = Some 0}"

definition any_env :: "(block set \<Rightarrow> block) \<Rightarrow> bool" where
  "any_env begin_of \<longleftrightarrow> (\<forall>S. S \<noteq> {} \<longrightarrow> begin_of S \<in> S)"

lemmas any_defs = EvictAnyBlockEvictionPolicy_def any_inv_def any_env_def any_choose_def any_created_def any_evicted_def
  any_referenced_def any_unreferenced_def Let_def

interpretation any: total_eviction_policy EvictAnyBlockEvictionPolicy any_env any_inv any_ref_counts
proof (unfold_locales, goal_cases)
  case (5 s t)
  show ?case
  proof (cases "any_nonreferenced_blocks s = {}")
    case True
    then show ?thesis using 5 by (auto simp: any_defs)
  next
    case False
    then have "t (any_nonreferenced_blocks s) \<in> any_nonreferenced_blocks s" using 5 by (simp add: any_env_def)
    then show ?thesis using 5 False by (auto simp: any_defs)
  qed
qed (auto simp: any_defs split: option.splits if_splits)

definition uniform_inv :: "UniformRandom \<Rightarrow> bool" where
  "uniform_inv s \<longleftrightarrow> distinct (uniform_nonreferenced_blocks s)
     \<and> set (uniform_nonreferenced_blocks s) = {b. uniform_ref_counts s b = Some 0}"

definition uniform_env :: "(nat \<Rightarrow> nat) \<Rightarrow> bool" where
  "uniform_env rng \<longleftrightarrow> (\<forall>n. rng n \<le> n)"

lemma remove_first_distinct:
  "distinct xs \<Longrightarrow> distinct (remove_first (\<lambda>c. c = b) xs) \<and> set (remove_first (\<lambda>c. c = b) xs) = set xs - {b}"
  by (induction xs) auto

lemma erase_nth:
  assumes "distinct xs" and "i < length xs"
  shows "distinct (take i xs @ drop (Suc i) xs) \<and> set (take i xs @ drop (Suc i) xs) = set xs - {xs ! i}"
proof -
  have "xs = take i xs @ xs ! i # drop (Suc i) xs" using assms(2) by (rule id_take_nth_drop)
  then have d: "distinct (take i xs @ xs ! i # drop (Suc i) xs)" and "set xs = set (take i xs @ xs ! i # drop (Suc i) xs)"
    using assms(1) by metis+
  then show ?thesis by auto
qed

lemmas uniform_defs = UniformRandomEvictionPolicy_def uniform_inv_def uniform_env_def uniform_created_def uniform_evicted_def
  uniform_referenced_def uniform_unreferenced_def erase_nonreferenced_def Let_def

interpretation uniform: total_eviction_policy UniformRandomEvictionPolicy uniform_env uniform_inv uniform_ref_counts
proof (unfold_locales, goal_cases)
  case (5 s rng)
  let ?bs = "uniform_nonreferenced_blocks s" and ?i = "rng (length (uniform_nonreferenced_blocks s) - 1)"
  show ?case
  proof (cases "?bs = []")
    case True
    then show ?thesis using 5 by (auto simp: uniform_defs uniform_choose_def)
  next
    case False
    have "?i \<le> length ?bs - 1" using 5 by (simp add: uniform_env_def)
    then have i: "?i < length ?bs" using False by (cases ?bs) auto
    have inv: "distinct ?bs" "set ?bs = {b. uniform_ref_counts s b = Some 0}" using 5 by (simp_all add: uniform_inv_def)
    have "uniform_ref_counts s (?bs ! ?i) = Some 0" using inv(2) nth_mem [OF i] by auto
    then show ?thesis using False i erase_nth [OF inv(1) i] inv(2)
      by (auto simp: UniformRandomEvictionPolicy_def uniform_inv_def uniform_choose_def Let_def)
  qed
qed (auto simp: uniform_defs remove_first_distinct split: option.splits if_splits)

subsection \<open>LRU-K\<close>

definition lru_pool :: "LRUK \<Rightarrow> pool" where
  "lru_pool s b = (case lru_blocks s b of None \<Rightarrow> None | Some info \<Rightarrow> if in_memory info then Some (ref_count info) else None)"

definition lru_inv :: "LRUK \<Rightarrow> bool" where
  "lru_inv s \<longleftrightarrow> finite (lru_nonreferenced_blocks s) \<and> lru_nonreferenced_blocks s \<subseteq> dom (lru_blocks s)
     \<and> (\<forall>b info. lru_blocks s b = Some info \<longrightarrow>
          (b \<in> lru_nonreferenced_blocks s \<longleftrightarrow> in_memory info \<and> ref_count info = 0) \<and> (\<not> in_memory info \<longrightarrow> ref_count info = 0))"

definition lru_env :: "int \<times> (block set \<Rightarrow> block list) \<Rightarrow> bool" where
  "lru_env env \<longleftrightarrow> 0 \<le> fst env \<and> fst env < 2 ^ 63 \<and> (\<forall>S. finite S \<longrightarrow> set (snd env S) = S)"

text \<open>The comparator is the lexicographic order on whether the block was used recently and on the time of its
  reference before the last \<open>K - 1\<close> ones.\<close>

lemma info_less_trans: "\<not> info_less t p x y \<Longrightarrow> \<not> info_less t p y z \<Longrightarrow> \<not> info_less t p x z"
  by (auto simp: info_less_def Let_def split: if_splits)

lemma info_less_asym: "info_less t p x y \<Longrightarrow> \<not> info_less t p y x"
  by (auto simp: info_less_def Let_def split: if_splits)

lemma smallest_loop_spec:
  assumes "case smallest of None \<Rightarrow> C = {} | Some b \<Rightarrow> b \<in> C \<and> in_memory (lru_info s b)
      \<and> (\<forall>c \<in> C. \<not> info_less t (correlated_reference_period s) (lru_info s c) (lru_info s b))"
  shows "case smallest_loop t s bs smallest of
      None \<Rightarrow> C = {} \<and> (\<forall>c \<in> set bs. \<not> in_memory (lru_info s c))
    | Some b \<Rightarrow> b \<in> C \<union> set bs \<and> in_memory (lru_info s b)
        \<and> (\<forall>c \<in> C \<union> {c \<in> set bs. in_memory (lru_info s c)}.
             \<not> info_less t (correlated_reference_period s) (lru_info s c) (lru_info s b))"
  using assms
proof (induction bs arbitrary: smallest C)
  case Nil
  then show ?case by (cases smallest) simp_all
next
  case (Cons b bs)
  let ?less = "\<lambda>x y. info_less t (correlated_reference_period s) (lru_info s x) (lru_info s y)"
  let ?C = "if in_memory (lru_info s b) then insert b C else C"
  let ?s = "if in_memory (lru_info s b) \<and> (smallest = None \<or> ?less b (the smallest)) then Some b else smallest"
  have irrefl: "\<not> ?less x x" for x using info_less_asym by blast
  have "case ?s of None \<Rightarrow> ?C = {} | Some d \<Rightarrow> d \<in> ?C \<and> in_memory (lru_info s d) \<and> (\<forall>c \<in> ?C. \<not> ?less c d)"
  proof (cases smallest)
    case None
    then show ?thesis using Cons.prems irrefl by auto
  next
    case (Some d)
    then have d: "d \<in> C" "in_memory (lru_info s d)" "\<forall>c \<in> C. \<not> ?less c d" using Cons.prems by auto
    have "\<not> ?less c b" if "c \<in> C" "?less b d" for c
      using info_less_trans d(3) that info_less_asym by blast
    then show ?thesis using Some d irrefl by auto
  qed
  from Cons.IH [OF this] show ?case by (auto split: option.splits if_splits)
qed

lemma helper_spec:
  assumes "blockReferencedHelper t p info = Inr (first, info')"
  shows "first = (ref_count info = 0) \<and> ref_count info' = ref_count info + 1 \<and> in_memory info'"
  using assms by (auto simp: blockReferencedHelper_def addReferenceTime_def res_simps split: if_splits)

lemmas lru_defs = LRUKEvictionPolicyImpl_def lru_created_def lru_evicted_def lru_unreferenced_def put_info_def lru_info_def
  new_BlockInfo_def Let_def

lemma lru_choose_spec:
  assumes inv: "lru_inv s" and env: "lru_env (t, order)"
  shows "case smallest_loop t s (order (lru_nonreferenced_blocks s)) None of
      None \<Rightarrow> lru_nonreferenced_blocks s = {}
    | Some b \<Rightarrow> b \<in> lru_nonreferenced_blocks s
        \<and> (\<forall>c \<in> lru_nonreferenced_blocks s. \<not> info_less t (correlated_reference_period s) (lru_info s c) (lru_info s b))"
proof -
  have o: "set (order (lru_nonreferenced_blocks s)) = lru_nonreferenced_blocks s"
    using inv env by (simp add: lru_inv_def lru_env_def)
  have mem: "in_memory (lru_info s c)" if "c \<in> lru_nonreferenced_blocks s" for c
    using inv that by (fastforce simp: lru_inv_def lru_info_def split: option.splits)
  show ?thesis using smallest_loop_spec [where smallest = None and C = "{}" and s = s and t = t and bs = "order (lru_nonreferenced_blocks s)"] mem
    unfolding o by (auto split: option.splits)
qed

lemma lru_invD:
  assumes "lru_inv s" and "b \<in> lru_nonreferenced_blocks s"
  obtains info where "lru_blocks s b = Some info" "lru_info s b = info" "in_memory info" "ref_count info = 0"
  using assms by (fastforce simp: lru_inv_def lru_info_def split: option.splits)

text \<open>An update of one block.\<close>

lemma lru_update:
  assumes inv: "lru_inv s" and upd: "lru_blocks s' = (lru_blocks s)(b \<mapsto> info)"
      "lru_nonreferenced_blocks s' = (if in_memory info \<and> ref_count info = 0 then insert b (lru_nonreferenced_blocks s)
         else lru_nonreferenced_blocks s - {b})"
    and info: "in_memory info \<or> ref_count info = 0"
  shows "lru_inv s' \<and> lru_pool s' = (lru_pool s)(b := if in_memory info then Some (ref_count info) else None)"
proof
  have old: "finite (lru_nonreferenced_blocks s)" "lru_nonreferenced_blocks s \<subseteq> dom (lru_blocks s)"
    "(c \<in> lru_nonreferenced_blocks s \<longleftrightarrow> in_memory i \<and> ref_count i = 0) \<and> (\<not> in_memory i \<longrightarrow> ref_count i = 0)"
    if "lru_blocks s c = Some i" for c i using inv that by (auto simp: lru_inv_def)
  have new: "(c \<in> lru_nonreferenced_blocks s' \<longleftrightarrow> in_memory i \<and> ref_count i = 0) \<and> (\<not> in_memory i \<longrightarrow> ref_count i = 0)"
    if "lru_blocks s' c = Some i" for c i
  proof (cases "c = b")
    case True
    then show ?thesis using that upd info by auto
  next
    case False
    then show ?thesis using that upd old(3) [of c i] by auto
  qed
  have "finite (lru_nonreferenced_blocks s')" "lru_nonreferenced_blocks s' \<subseteq> dom (lru_blocks s')"
    using inv upd by (auto simp: lru_inv_def)
  then show "lru_inv s'" using new by (simp add: lru_inv_def)
  show "lru_pool s' = (lru_pool s)(b := if in_memory info then Some (ref_count info) else None)"
    using upd(1) by (auto simp: lru_pool_def fun_eq_iff)
qed

lemma lru_pool_Some:
  assumes "lru_inv s" and "lru_pool s b = Some n"
  obtains info where "lru_blocks s b = Some info" "lru_info s b = info" "in_memory info" "ref_count info = n"
    "b \<in> lru_nonreferenced_blocks s \<longleftrightarrow> n = 0"
  using assms by (auto simp: lru_pool_def lru_info_def lru_inv_def split: option.splits if_splits)

lemma lru_pool_None: "lru_inv s \<Longrightarrow> lru_pool s b = None \<Longrightarrow> \<not> in_memory (lru_info s b) \<and> ref_count (lru_info s b) = 0"
  by (auto simp: lru_pool_def lru_info_def new_BlockInfo_def lru_inv_def split: option.splits if_splits)

lemma lru_referenced_refines:
  assumes inv: "lru_inv s" and f: "lru_referenced env b s = Inr s'"
  shows "lru_inv s' \<and> lru_pool s' = (lru_pool s)(b \<mapsto> (case lru_pool s b of None \<Rightarrow> 1 | Some n \<Rightarrow> n + 1))"
proof -
  obtain first info where h: "blockReferencedHelper (fst env) (correlated_reference_period s) (lru_info s b) = Inr (first, info)"
    "s' = (if first then (put_info s b info)\<lparr>lru_nonreferenced_blocks := lru_nonreferenced_blocks s - {b}\<rparr> else put_info s b info)"
    using f by (auto simp: lru_referenced_def put_info_def Let_def res_simps)
  note info = helper_spec [OF h(1)]
  have "b \<notin> lru_nonreferenced_blocks s" if "\<not> first"
    using lru_invD [OF inv] info that by (metis neq0_conv)
  then have "lru_nonreferenced_blocks s' = lru_nonreferenced_blocks s - {b}" using h(2) by (simp add: put_info_def)
  moreover have "lru_blocks s' = (lru_blocks s)(b \<mapsto> info)" using h(2) by (simp add: put_info_def)
  ultimately have u: "lru_inv s' \<and> lru_pool s' = (lru_pool s)(b \<mapsto> ref_count (lru_info s b) + 1)"
    using lru_update [OF inv, of s' b info] info by simp
  show ?thesis
  proof (cases "lru_pool s b")
    case None
    then show ?thesis using u lru_pool_None [OF inv None] by simp
  next
    case (Some n)
    then show ?thesis using u lru_pool_Some [OF inv Some] by (metis option.simps(5))
  qed
qed

interpretation lru: eviction_policy LRUKEvictionPolicyImpl lru_env lru_inv lru_pool
proof (unfold_locales, goal_cases)
  case (1 s b)
  then show ?case
    using lru_update [OF 1(1), where b = b and info = "(lru_info s b)\<lparr>in_memory := True\<rparr>"] lru_pool_None [OF 1]
    by (simp add: LRUKEvictionPolicyImpl_def lru_created_def put_info_def)
next
  case (2 s t b s')
  then show ?case using lru_referenced_refines by (simp add: LRUKEvictionPolicyImpl_def)
next
  case (3 s b n)
  obtain info where i: "lru_blocks s b = Some info" "in_memory info" "ref_count info = Suc n" "b \<notin> lru_nonreferenced_blocks s"
    using lru_pool_Some [OF 3] by (metis nat.distinct(1))
  then show ?case
    using lru_update [OF 3(1), where b = b and info = "info\<lparr>ref_count := n\<rparr>"]
    by (simp add: LRUKEvictionPolicyImpl_def lru_unreferenced_def put_info_def Let_def)
next
  case (4 s b)
  obtain info where i: "lru_info s b = info" "ref_count info = 0" using lru_pool_Some [OF 4] by metis
  then show ?case
    using lru_update [OF 4(1), where b = b and info = "info\<lparr>in_memory := False\<rparr>"]
    by (simp add: LRUKEvictionPolicyImpl_def lru_evicted_def put_info_def)
next
  case (5 s env)
  obtain t order where env: "env = (t, order)" by (cases env)
  show ?case
  proof (cases "smallest_loop t s (order (lru_nonreferenced_blocks s)) None")
    case None
    then have "lru_nonreferenced_blocks s = {}" using lru_choose_spec [of s t order] 5 env by simp
    then have "Some 0 \<notin> range (lru_pool s)" using lru_pool_Some [OF 5(1)] by (metis empty_iff rangeE)
    then show ?thesis using None 5(1) env by (simp add: LRUKEvictionPolicyImpl_def lru_choose_def)
  next
    case (Some b)
    then have b: "b \<in> lru_nonreferenced_blocks s" using lru_choose_spec [of s t order] 5 env by simp
    obtain info where i: "lru_blocks s b = Some info" "lru_info s b = info" "in_memory info" "ref_count info = 0"
      by (rule lru_invD [OF 5(1) b])
    then have "lru_pool s b = Some 0" by (simp add: lru_pool_def)
    then show ?thesis using Some i env lru_update [OF 5(1), where b = b and info = "info\<lparr>in_memory := False\<rparr>"]
      by (simp add: LRUKEvictionPolicyImpl_def lru_choose_def put_info_def)
  qed
qed

lemma lru_initial: "lru_inv (new_LRUK k period)" "lru_pool (new_LRUK k period) = Map.empty"
  by (simp_all add: lru_inv_def lru_pool_def new_LRUK_def fun_eq_iff)

text \<open>C16. LRU-K implements the pool of blocks with reference counts: along any sequence of calls that the storage
  manager may make, a block that is chosen for eviction is in memory and not referenced, none is
  chosen only if every block in memory is referenced, and the policy always knows exactly the
  blocks in memory and their reference counts.\<close>

theorem lru_refines_pool:
  assumes "policy_run LRUKEvictionPolicyImpl lru_env (new_LRUK k period) es s" and "all_events allowed Map.empty es"
  shows "all_events promised Map.empty es \<and> lru_pool s = foldl pool_after Map.empty es"
  using lru.run_refines [OF assms(1) lru_initial(1)] assms(2) unfolding lru_initial(2) by blast

text \<open>The choice of LRU-K: among the blocks in memory that are not referenced no block precedes the chosen one in
  the order of the comparator, so that blocks outside their correlated reference period go first, and
  then the one with the oldest reference before the last \<open>K - 1\<close> ones.\<close>

theorem lru_choice_minimal:
  assumes "policy_run LRUKEvictionPolicyImpl lru_env (new_LRUK k period) es s" and "all_events allowed Map.empty es"
    and "lru_env (t, order)" and "lru_choose (t, order) s = Inr (Some b, s')" and "lru_pool s c = Some 0"
  shows "\<not> info_less t (correlated_reference_period s) (lru_info s c) (lru_info s b)"
proof -
  have inv: "lru_inv s" using lru.run_refines [OF assms(1) lru_initial(1)] assms(2) unfolding lru_initial(2) by blast
  have c: "c \<in> lru_nonreferenced_blocks s" using lru_pool_Some [OF inv assms(5)] by metis
  have "smallest_loop t s (order (lru_nonreferenced_blocks s)) None = Some b"
    using assms(4) by (auto simp: lru_choose_def res_simps split: option.splits)
  then show ?thesis using lru_choose_spec [OF inv assms(3)] c by simp
qed

text \<open>C40. The first reference to a block that was created in the pool overflows: its reference times are still the
  least time point, and the difference to the default of the last reference, the epoch, does not
  fit into 64 bits.\<close>

theorem lru_first_reference_overflows:
  assumes "lru_blocks s b = None" and "0 < lru_k s"
    and "1000 * correlated_reference_period s < t" and "0 \<le> t" and "t < 2 ^ 63"
  shows "and_then (lru_created b s) (lru_referenced (t, order) b) = Inl UndefinedBehaviour"
proof -
  obtain j where k: "lru_k s = Suc j" using assms(2) gr0_implies_Suc by blast
  have "ticks (0 - kMinTime) = Inl UndefinedBehaviour" "ticks t = Inr t"
    using assms(4,5) by (simp_all add: ticks_def kMinTime_def)
  then show ?thesis using assms(1,3) k
    by (simp add: lru_created_def lru_referenced_def put_info_def lru_info_def new_BlockInfo_def blockReferencedHelper_def addReferenceTime_def)
qed

section \<open>Witnesses\<close>

definition example_pool :: "LRUK" where
  "example_pool = projr (lru_created 4 (projr (lru_created 3 (new_LRUK 2 100))))"

lemma example_lru_env: "lru_env (5, sorted_list_of_set)"
  by (simp add: lru_env_def)

lemma example_pool_run: "policy_run LRUKEvictionPolicyImpl lru_env (new_LRUK 2 100) [Created 3, Created 4] example_pool"
proof -
  have created_step: "policy_step LRUKEvictionPolicyImpl lru_env s (Created b) (projr (lru_created b s))" for s b
    by (rule policy_step.intros) (simp add: LRUKEvictionPolicyImpl_def lru_created_def)
  show ?thesis unfolding example_pool_def by (rule one_call [OF created_step one_call [OF created_step no_calls]])
qed

lemma example_pool_choice:
  "lru_choose (5, sorted_list_of_set) example_pool = Inr (Some 3, snd (projr (lru_choose (5, sorted_list_of_set) example_pool)))"
proof -
  have "lru_nonreferenced_blocks example_pool = {3, 4}" "correlated_reference_period example_pool = 100"
    "lru_info example_pool 3 = (new_BlockInfo 2)\<lparr>in_memory := True\<rparr>" "lru_info example_pool 4 = (new_BlockInfo 2)\<lparr>in_memory := True\<rparr>"
    by (auto simp: example_pool_def lru_created_def new_LRUK_def put_info_def lru_info_def)
  moreover have "sorted_list_of_set {3, 4 :: nat} = [3, 4]" by simp
  ultimately show ?thesis by (simp add: lru_choose_def info_less_def new_BlockInfo_def)
qed

theorem lru_refines_pool_witness: "lru_pool example_pool = [3 \<mapsto> 0, 4 \<mapsto> 0]"
  using lru_refines_pool [OF example_pool_run] by simp

theorem lru_choice_minimal_witness:
  "\<not> info_less 5 (correlated_reference_period example_pool) (lru_info example_pool 4) (lru_info example_pool 3)"
proof -
  have "lru_pool example_pool 4 = Some 0"
    by (simp add: example_pool_def lru_created_def new_LRUK_def put_info_def lru_info_def lru_pool_def new_BlockInfo_def)
  then show ?thesis
    using lru_choice_minimal [OF example_pool_run _ example_lru_env example_pool_choice] by simp
qed

theorem lru_first_reference_overflows_witness:
  "and_then (lru_created 7 (new_LRUK 2 0)) (lru_referenced (1, sorted_list_of_set) 7) = Inl UndefinedBehaviour"
  by (rule lru_first_reference_overflows) (simp_all add: new_LRUK_def)

end
