(* ===== verification/DisjointForests.thy ===== *)
theory DisjointForests
  imports Prelude
begin

text \<open>
  Disjoint sets as a forest of trees with path compression and union by rank (\<^verbatim>\<open>DisjointTreeForest\<close>).
  The forest represents the partition that results from the merged pairs, whatever the ranks are; the
  ranks themselves do not bound the height of the trees.
\<close>

section \<open>State and operations\<close>

record Node =
  node_rank :: nat
  node_parent :: nat

record 'e DisjointTreeForest =
  forest_nodes :: "Node list"
  elements_map :: "'e \<rightharpoonup> nat"

definition empty_forest :: "'e DisjointTreeForest" where
  "empty_forest = \<lparr>forest_nodes = [], elements_map = Map.empty\<rparr>"

definition hasElement :: "'e DisjointTreeForest \<Rightarrow> 'e \<Rightarrow> bool" where
  "hasElement f element \<longleftrightarrow> elements_map f element \<noteq> None"

definition makeSet :: "'e DisjointTreeForest \<Rightarrow> 'e \<Rightarrow> 'e DisjointTreeForest" where
  "makeSet f element =
     (if \<not> hasElement f element then
        (let loc = length (forest_nodes f) in
         f\<lparr>forest_nodes := forest_nodes f @ [\<lparr>node_rank = 0, node_parent = loc\<rparr>],
           elements_map := (elements_map f)(element \<mapsto> loc)\<rparr>)
      else f)"

text \<open>The loops of \<open>find\<close> and \<open>compress_path\<close>; the first argument bounds the number of iterations.\<close>

fun find_loop :: "nat \<Rightarrow> Node list \<Rightarrow> nat \<Rightarrow> nat result" where
  "find_loop 0 nodes root_id = Inl OutOfFuel"
| "find_loop (Suc n) nodes root_id =
     and_then (vec_at nodes root_id) (\<lambda>node.
       if node_parent node \<noteq> root_id then find_loop n nodes (node_parent node) else Inr root_id)"

fun compress_loop :: "nat \<Rightarrow> Node list \<Rightarrow> nat \<Rightarrow> nat \<Rightarrow> nat \<Rightarrow> (nat \<times> Node list) result" where
  "compress_loop 0 nodes node_id root_node_id max_rank = Inl OutOfFuel"
| "compress_loop (Suc n) nodes node_id root_node_id max_rank =
     (if node_id \<noteq> root_node_id then
        and_then (vec_at nodes node_id) (\<lambda>node.
          compress_loop n (nodes[node_id := node\<lparr>node_parent := root_node_id\<rparr>]) (node_parent node) root_node_id
            (max max_rank (node_rank node)))
      else Inr (max_rank, nodes))"

definition compress_path :: "Node list \<Rightarrow> nat \<Rightarrow> nat \<Rightarrow> Node list result" where
  "compress_path nodes leaf_node_id root_node_id =
     and_then (compress_loop (length nodes) nodes leaf_node_id root_node_id 0) (\<lambda>(max_rank, nodes1).
     and_then (vec_at nodes1 root_node_id) (\<lambda>node.
       Inr (nodes1[root_node_id := node\<lparr>node_rank := max_rank + 1\<rparr>])))"

definition find_set :: "'e DisjointTreeForest \<Rightarrow> 'e \<Rightarrow> (nat \<times> 'e DisjointTreeForest) result" where
  "find_set f element =
     (case elements_map f element of
        None \<Rightarrow> Inl CheckFailed
      | Some node_id \<Rightarrow>
          and_then (find_loop (length (forest_nodes f)) (forest_nodes f) node_id) (\<lambda>root_id.
          and_then (compress_path (forest_nodes f) node_id root_id) (\<lambda>nodes.
            Inr (root_id, f\<lparr>forest_nodes := nodes\<rparr>))))"

definition link_roots :: "Node list \<Rightarrow> nat \<Rightarrow> nat \<Rightarrow> Node list result" where
  "link_roots nodes root_id1 root_id2 =
     and_then (vec_at nodes root_id1) (\<lambda>n1.
     and_then (vec_at nodes root_id2) (\<lambda>n2.
       if node_rank n1 > node_rank n2 then Inr (nodes[root_id2 := n2\<lparr>node_parent := root_id1\<rparr>])
       else if node_rank n1 < node_rank n2 then Inr (nodes[root_id1 := n1\<lparr>node_parent := root_id2\<rparr>])
       else Inr (nodes[root_id1 := n1\<lparr>node_parent := root_id2\<rparr>, root_id2 := n2\<lparr>node_rank := node_rank n2 + 1\<rparr>])))"

definition merge_sets :: "'e DisjointTreeForest \<Rightarrow> 'e \<Rightarrow> 'e \<Rightarrow> 'e DisjointTreeForest result" where
  "merge_sets f element1 element2 =
     and_then (find_set f element1) (\<lambda>(root_id1, f1).
     and_then (find_set f1 element2) (\<lambda>(root_id2, f2).
       if root_id1 \<noteq> root_id2 then
         and_then (link_roots (forest_nodes f2) root_id1 root_id2) (\<lambda>nodes. Inr (f2\<lparr>forest_nodes := nodes\<rparr>))
       else Inr f2))"

definition isConnected :: "'e DisjointTreeForest \<Rightarrow> 'e \<Rightarrow> 'e \<Rightarrow> (bool \<times> 'e DisjointTreeForest) result" where
  "isConnected f element1 element2 =
     and_then (find_set f element1) (\<lambda>(root_id1, f1).
     and_then (find_set f1 element2) (\<lambda>(root_id2, f2). Inr (root_id1 = root_id2, f2)))"

section \<open>Trees\<close>

text \<open>\<open>climbs nodes i k r\<close>: from node \<open>i\<close> the root \<open>r\<close> is reached in \<open>k\<close> steps.\<close>

inductive climbs :: "Node list \<Rightarrow> nat \<Rightarrow> nat \<Rightarrow> nat \<Rightarrow> bool" for nodes :: "Node list" where
  at_root: "i < length nodes \<Longrightarrow> node_parent (nodes ! i) = i \<Longrightarrow> climbs nodes i 0 i"
| climb: "i < length nodes \<Longrightarrow> node_parent (nodes ! i) \<noteq> i \<Longrightarrow> climbs nodes (node_parent (nodes ! i)) k r \<Longrightarrow>
    climbs nodes i (Suc k) r"

lemma climbs_in_range: "climbs nodes i k r \<Longrightarrow> i < length nodes \<and> r < length nodes \<and> node_parent (nodes ! r) = r"
  by (induction rule: climbs.induct) auto

inductive_cases climbsE: "climbs nodes i k r"

lemma climbs_unique: "climbs nodes i k r \<Longrightarrow> climbs nodes i k' r' \<Longrightarrow> k' = k \<and> r' = r"
proof (induction arbitrary: k' r' rule: climbs.induct)
  case (at_root i)
  show ?case by (rule climbsE [OF at_root.prems]) (use at_root.hyps in simp_all)
next
  case (climb i k r)
  show ?case by (rule climbsE [OF climb.prems]) (use climb.hyps(2) climb.IH in auto)
qed

lemma climbs_all_depths: "climbs nodes i k r \<Longrightarrow> m \<le> k \<Longrightarrow> \<exists>j < length nodes. climbs nodes j m r"
proof (induction rule: climbs.induct)
  case (at_root i)
  then show ?case using climbs.at_root by blast
next
  case (climb i k r)
  show ?case
  proof (cases "m = Suc k")
    case True
    then show ?thesis using climbs.climb [OF climb.hyps] climb.hyps(1) by blast
  next
    case False
    then show ?thesis using climb.IH climb.prems by simp
  qed
qed

text \<open>A path is shorter than the number of nodes.\<close>

lemma climbs_bound:
  assumes "climbs nodes i k r"
  shows "k < length nodes"
proof -
  define depth where "depth j = (THE m. \<exists>s. climbs nodes j m s)" for j
  have depth: "depth j = m" if "climbs nodes j m s" for j m s
    unfolding depth_def using that climbs_unique by blast
  have "{..k} \<subseteq> depth ` {..<length nodes}"
  proof
    fix m assume "m \<in> {..k}"
    then obtain j where "j < length nodes" "climbs nodes j m r" using climbs_all_depths [OF assms, of m] by auto
    then show "m \<in> depth ` {..<length nodes}" using depth by blast
  qed
  then have "card {..k} \<le> card {..<length nodes}" by (meson card_image_le card_mono finite_imageI finite_lessThan le_trans)
  then show ?thesis by simp
qed

lemma find_loop_climbs: "climbs nodes i k r \<Longrightarrow> k < n \<Longrightarrow> find_loop n nodes i = Inr r"
proof (induction arbitrary: n rule: climbs.induct)
  case (at_root i)
  then show ?case by (cases n) auto
next
  case (climb i k r)
  then show ?case by (cases n) auto
qed

section \<open>Path compression\<close>

definition root_of :: "Node list \<Rightarrow> nat \<Rightarrow> nat \<Rightarrow> bool" where
  "root_of nodes i r \<longleftrightarrow> (\<exists>k. climbs nodes i k r)"

definition forest_ok :: "Node list \<Rightarrow> bool" where
  "forest_ok nodes \<longleftrightarrow> (\<forall>i < length nodes. \<exists>r. root_of nodes i r)"

definition same_roots :: "Node list \<Rightarrow> Node list \<Rightarrow> bool" where
  "same_roots nodes nodes' \<longleftrightarrow> length nodes' = length nodes \<and> forest_ok nodes' \<and> root_of nodes' = root_of nodes"

lemma same_roots_trans: "same_roots a b \<Longrightarrow> same_roots b c \<Longrightarrow> same_roots a c"
  by (simp add: same_roots_def)

lemma root_of_unique: "root_of nodes i r \<Longrightarrow> root_of nodes i s \<Longrightarrow> s = r"
  using climbs_unique by (auto simp: root_of_def)

lemma root_of_range: "root_of nodes i r \<Longrightarrow> i < length nodes \<and> r < length nodes \<and> root_of nodes r r"
  unfolding root_of_def using climbs_in_range climbs.at_root by blast

text \<open>It is enough to show one direction.\<close>

lemma same_rootsI:
  assumes "forest_ok nodes" and "length nodes' = length nodes" and "\<And>j r. root_of nodes j r \<Longrightarrow> root_of nodes' j r"
  shows "same_roots nodes nodes'"
proof -
  have ex: "\<exists>r. root_of nodes j r" if "j < length nodes" for j using assms(1) that by (simp add: forest_ok_def)
  have "root_of nodes j r" if "root_of nodes' j r" for j r
    using that assms(2,3) ex root_of_range root_of_unique by metis
  then have "root_of nodes' = root_of nodes" using assms(3) by (intro ext) blast
  moreover have "forest_ok nodes'" using ex assms(2,3) unfolding forest_ok_def by metis
  ultimately show ?thesis using assms(2) by (simp add: same_roots_def)
qed

text \<open>Climbing depends on the parents only.\<close>

lemma climbs_parents:
  "climbs nodes i k r \<Longrightarrow> length nodes' = length nodes \<Longrightarrow> (\<And>j. j < length nodes \<Longrightarrow> node_parent (nodes' ! j) = node_parent (nodes ! j))
    \<Longrightarrow> climbs nodes' i k r"
proof (induction rule: climbs.induct)
  case (at_root i)
  then show ?case by (simp add: climbs.at_root)
next
  case (climb i k r)
  then show ?case by (metis climbs.climb)
qed

lemma same_roots_parents:
  "forest_ok nodes \<Longrightarrow> length nodes' = length nodes \<Longrightarrow> (\<And>j. j < length nodes \<Longrightarrow> node_parent (nodes' ! j) = node_parent (nodes ! j))
    \<Longrightarrow> same_roots nodes nodes'"
  by (rule same_rootsI) (auto simp: root_of_def intro: climbs_parents)

text \<open>A node is attached to its root: the paths of nodes that are not below it stay as they are, and the roots
  of all nodes.\<close>

lemma attach_climbs:
  assumes "climbs nodes j m s" and "climbs nodes i k r" and "m < k"
  shows "climbs (nodes[i := (nodes ! i)\<lparr>node_parent := r\<rparr>]) j m s"
  using assms
proof (induction rule: climbs.induct)
  case (at_root j)
  then have "j \<noteq> i" using climbs_unique [OF at_root.prems(1) climbs.at_root] at_root.hyps by auto
  then show ?case using at_root.hyps by (simp add: climbs.at_root)
next
  case (climb j m s)
  have "j \<noteq> i" using climbs_unique [OF climb.prems(1), of "Suc m" s] climbs.climb [OF climb.hyps] climb.prems(2) by blast
  then show ?case using climb by (simp add: climbs.climb)
qed

lemma attach_roots:
  assumes ok: "forest_ok nodes" and i: "climbs nodes i k r" and k: "0 < k"
  shows "same_roots nodes (nodes[i := (nodes ! i)\<lparr>node_parent := r\<rparr>])"
proof (rule same_rootsI [OF ok])
  let ?ns = "nodes[i := (nodes ! i)\<lparr>node_parent := r\<rparr>]"
  note range = climbs_in_range [OF i]
  have ri: "r \<noteq> i" using i k climbs_unique climbs.at_root range by blast
  then have r: "climbs ?ns r 0 r" using range by (simp add: climbs.at_root)
  have i1: "climbs ?ns i 1 r" using climbs.climb [of i ?ns 0 r] r ri range by simp
  have "\<exists>m. climbs ?ns j m s" if "climbs nodes j m s" for j m s
    using that
  proof (induction rule: climbs.induct)
    case (at_root j)
    have "j \<noteq> i" using at_root i k climbs_unique climbs.at_root by blast
    then show ?case using at_root by (intro exI [of _ 0]) (simp add: climbs.at_root)
  next
    case (climb j m s)
    show ?case
    proof (cases "j = i")
      case True
      then have "s = r" using climbs_unique [OF i climbs.climb [OF climb.hyps, unfolded True]] by simp
      then show ?thesis using i1 True by blast
    next
      case False
      obtain m' where "climbs ?ns (node_parent (nodes ! j)) m' s" using climb.IH by blast
      then have "climbs ?ns j (Suc m') s" using False climb.hyps by (intro climbs.climb) simp_all
      then show ?thesis by blast
    qed
  qed
  then show "root_of ?ns j s" if "root_of nodes j s" for j s using that by (auto simp: root_of_def)
qed simp

lemma compress_loop_spec:
  assumes "forest_ok nodes" and "climbs nodes i k r" and "k < n"
  shows "\<exists>mr nodes'. compress_loop n nodes i r mr0 = Inr (mr, nodes') \<and> same_roots nodes nodes'"
  using assms
proof (induction n arbitrary: nodes i k mr0)
  case 0
  then show ?case by simp
next
  case (Suc n)
  note range = climbs_in_range [OF Suc.prems(2)]
  show ?case
  proof (cases k)
    case 0
    then have "i = r" using Suc.prems(2) by (auto elim: climbsE)
    then show ?thesis using Suc.prems(1) same_roots_parents [OF Suc.prems(1)] by simp
  next
    case (Suc k')
    let ?ns = "nodes[i := (nodes ! i)\<lparr>node_parent := r\<rparr>]"
    have up: "climbs nodes (node_parent (nodes ! i)) k' r" using Suc.prems(2) Suc by (auto elim: climbsE)
    have "climbs nodes r 0 r" using range by (simp add: climbs.at_root)
    then have ir: "i \<noteq> r" using climbs_unique [OF Suc.prems(2)] Suc by blast
    have same: "same_roots nodes ?ns" using attach_roots [OF Suc.prems(1,2)] Suc by simp
    have up': "climbs ?ns (node_parent (nodes ! i)) k' r" using attach_climbs [OF up Suc.prems(2)] Suc by simp
    have ok': "forest_ok ?ns" and n: "k' < n" using same Suc.prems(3) Suc by (simp_all add: same_roots_def)
    obtain mr nodes' where "compress_loop n ?ns (node_parent (nodes ! i)) r (max mr0 (node_rank (nodes ! i))) = Inr (mr, nodes')"
      "same_roots ?ns nodes'" using Suc.IH [OF ok' up' n] by blast
    then show ?thesis using ir range same same_roots_trans by auto
  qed
qed

lemma compress_path_spec:
  assumes ok: "forest_ok nodes" and i: "root_of nodes i r"
  shows "\<exists>nodes'. compress_path nodes i r = Inr nodes' \<and> same_roots nodes nodes'"
proof -
  obtain k where k: "climbs nodes i k r" using i by (auto simp: root_of_def)
  obtain mr nodes1 where c: "compress_loop (length nodes) nodes i r 0 = Inr (mr, nodes1)" "same_roots nodes nodes1"
    using compress_loop_spec [OF ok k climbs_bound [OF k]] by blast
  have "r < length nodes1" "forest_ok nodes1" using climbs_in_range [OF k] c(2) by (simp_all add: same_roots_def)
  then have "same_roots nodes1 (nodes1[r := (nodes1 ! r)\<lparr>node_rank := mr + 1\<rparr>])"
    by (intro same_roots_parents) (simp_all add: nth_list_update)
  then show ?thesis using c \<open>r < length nodes1\<close> same_roots_trans by (auto simp: compress_path_def)
qed

lemma find_set_spec:
  assumes ok: "forest_ok (forest_nodes f)" and e: "elements_map f e = Some i" and i: "root_of (forest_nodes f) i r"
  shows "\<exists>nodes. find_set f e = Inr (r, f\<lparr>forest_nodes := nodes\<rparr>) \<and> same_roots (forest_nodes f) nodes"
proof -
  obtain k where k: "climbs (forest_nodes f) i k r" using i by (auto simp: root_of_def)
  have "find_loop (length (forest_nodes f)) (forest_nodes f) i = Inr r" by (rule find_loop_climbs [OF k climbs_bound [OF k]])
  then show ?thesis using e compress_path_spec [OF ok i] by (auto simp: find_set_def)
qed

section \<open>Union\<close>

lemma attach_root_climbs:
  assumes "climbs nodes j k t" and x: "climbs nodes x 0 x" and y: "climbs nodes y 0 y" "x \<noteq> y"
    and upd: "length nodes' = length nodes" "node_parent (nodes' ! x) = y"
      "\<And>j. j < length nodes \<Longrightarrow> j \<noteq> x \<Longrightarrow> node_parent (nodes' ! j) = node_parent (nodes ! j)"
  shows "root_of nodes' j (if t = x then y else t)"
proof -
  note xy = climbs_in_range [OF x] climbs_in_range [OF y(1)]
  have y': "climbs nodes' y 0 y" using xy upd y(2) by (intro climbs.at_root) auto
  have x': "climbs nodes' x 1 y" using climbs.climb [of x nodes' 0 y] xy upd y(2) y' by simp
  show ?thesis using assms(1)
  proof (induction rule: climbs.induct)
    case (at_root j)
    have "climbs nodes' j 0 j" if "j \<noteq> x" using at_root upd that by (intro climbs.at_root) simp_all
    then show ?case using x' unfolding root_of_def by auto
  next
    case (climb j k t)
    have jx: "j \<noteq> x" using climb.hyps(2) xy by auto
    obtain m where "climbs nodes' (node_parent (nodes ! j)) m (if t = x then y else t)" using climb.IH by (auto simp: root_of_def)
    then have "climbs nodes' j (Suc m) (if t = x then y else t)"
      using climbs.climb [of j nodes' m] climb.hyps(1,2) upd(1) upd(3) [OF climb.hyps(1) jx] by simp
    then show ?case by (auto simp: root_of_def)
  qed
qed

text \<open>Two roots are linked in one direction or the other.\<close>

lemma link_roots_spec:
  assumes a: "climbs nodes a 0 a" and b: "climbs nodes b 0 b" and ab: "a \<noteq> b"
  shows "\<exists>nodes' x y. link_roots nodes a b = Inr nodes' \<and> {x, y} = {a, b} \<and> length nodes' = length nodes
    \<and> (\<forall>j t. root_of nodes j t \<longrightarrow> root_of nodes' j (if t = x then y else t))"
proof -
  have range: "a < length nodes" "b < length nodes" using climbs_in_range a b by blast+
  let ?up = "\<lambda>x y nodes'. length nodes' = length nodes \<and> node_parent (nodes' ! x) = y
    \<and> (\<forall>j < length nodes. j \<noteq> x \<longrightarrow> node_parent (nodes' ! j) = node_parent (nodes ! j))"
  obtain nodes' x y where l: "link_roots nodes a b = Inr nodes'" "x = a \<and> y = b \<or> x = b \<and> y = a" "?up x y nodes'"
  proof (cases "node_rank (nodes ! a) > node_rank (nodes ! b)")
    case True
    then show ?thesis using range that [of _ b a] ab by (auto simp: link_roots_def nth_list_update)
  next
    case not_greater: False
    then show ?thesis
    proof (cases "node_rank (nodes ! a) < node_rank (nodes ! b)")
      case True
      then show ?thesis using range not_greater that [of _ a b] ab by (auto simp: link_roots_def nth_list_update)
    next
      case False
      then show ?thesis using range not_greater that [of _ a b] ab by (auto simp: link_roots_def nth_list_update)
    qed
  qed
  have "root_of nodes' j (if t = x then y else t)" if "root_of nodes j t" for j t
    using that l(2,3) attach_root_climbs [of nodes j _ t x y nodes'] a b ab by (auto simp: root_of_def [of nodes])
  then show ?thesis using l by blast
qed

section \<open>The represented partition\<close>

definition forest_inv :: "'e DisjointTreeForest \<Rightarrow> bool" where
  "forest_inv f \<longleftrightarrow> forest_ok (forest_nodes f) \<and> ran (elements_map f) \<subseteq> {..<length (forest_nodes f)}
     \<and> inj_on (elements_map f) (dom (elements_map f))"

definition in_set :: "'e DisjointTreeForest \<Rightarrow> 'e \<Rightarrow> nat \<Rightarrow> bool" where
  "in_set f e r \<longleftrightarrow> (\<exists>i. elements_map f e = Some i \<and> root_of (forest_nodes f) i r)"

definition connected :: "'e DisjointTreeForest \<Rightarrow> ('e \<times> 'e) set" where
  "connected f = {(x, y). \<exists>r. in_set f x r \<and> in_set f y r}"

lemma in_set_unique: "in_set f e r \<Longrightarrow> in_set f e s \<Longrightarrow> s = r"
  using root_of_unique by (fastforce simp: in_set_def)

lemma in_set_exists: "forest_inv f \<Longrightarrow> e \<in> dom (elements_map f) \<Longrightarrow> \<exists>r. in_set f e r"
  by (auto simp: forest_inv_def forest_ok_def in_set_def ran_def)

lemma connected_iff: "in_set f x r \<Longrightarrow> in_set f y s \<Longrightarrow> (x, y) \<in> connected f \<longleftrightarrow> r = s"
  by (auto simp: connected_def dest: in_set_unique)

lemma find_set_in_set:
  assumes inv: "forest_inv f" and e: "in_set f e r"
  shows "\<exists>f'. find_set f e = Inr (r, f') \<and> forest_inv f' \<and> in_set f' = in_set f \<and> elements_map f' = elements_map f
    \<and> climbs (forest_nodes f') r 0 r"
proof -
  obtain i where i: "elements_map f e = Some i" "root_of (forest_nodes f) i r" using e by (auto simp: in_set_def)
  obtain nodes where n: "find_set f e = Inr (r, f\<lparr>forest_nodes := nodes\<rparr>)" "same_roots (forest_nodes f) nodes"
    using find_set_spec [OF _ i] inv by (auto simp: forest_inv_def)
  have "root_of nodes r r" using root_of_range [OF i(2)] n(2) by (simp add: same_roots_def)
  then obtain k where "climbs nodes r k r" by (auto simp: root_of_def)
  then have "climbs nodes r 0 r" using climbs_in_range by (blast intro: climbs.at_root)
  moreover have "in_set (f\<lparr>forest_nodes := nodes\<rparr>) = in_set f" using n(2) by (simp add: in_set_def same_roots_def fun_eq_iff)
  ultimately show ?thesis using n inv by (auto simp: forest_inv_def same_roots_def)
qed

lemma merge_sets_spec:
  assumes inv: "forest_inv f" and a: "in_set f a r" and b: "in_set f b s"
  shows "\<exists>f'. merge_sets f a b = Inr f' \<and> forest_inv f' \<and> elements_map f' = elements_map f
    \<and> (\<exists>x y. {x, y} = {r, s} \<and> (\<forall>e t. in_set f e t \<longrightarrow> in_set f' e (if t = x then y else t)))"
proof -
  obtain f1 where f1: "find_set f a = Inr (r, f1)" "forest_inv f1" "in_set f1 = in_set f" "elements_map f1 = elements_map f"
    using find_set_in_set [OF inv a] by blast
  obtain f2 where f2: "find_set f1 b = Inr (s, f2)" "forest_inv f2" "in_set f2 = in_set f" "elements_map f2 = elements_map f"
    "climbs (forest_nodes f2) s 0 s"
    using find_set_in_set [OF f1(2), of b s] b f1(3,4) by auto
  show ?thesis
  proof (cases "r = s")
    case True
    then show ?thesis using f1(1) f2 by (auto simp: merge_sets_def)
  next
    case False
    have "in_set f2 a r" using a f2(3) by simp
    then obtain i k where "climbs (forest_nodes f2) i k r" by (auto simp: in_set_def root_of_def)
    then have r: "climbs (forest_nodes f2) r 0 r" using climbs_in_range by (blast intro: climbs.at_root)
    obtain nodes x y where l: "link_roots (forest_nodes f2) r s = Inr nodes" "{x, y} = {r, s}" "length nodes = length (forest_nodes f2)"
      "\<And>j t. root_of (forest_nodes f2) j t \<Longrightarrow> root_of nodes j (if t = x then y else t)"
      using link_roots_spec [OF r f2(5) False] by blast
    let ?f = "f2\<lparr>forest_nodes := nodes\<rparr>"
    have "forest_ok nodes" using f2(2) l(3,4) unfolding forest_inv_def forest_ok_def by metis
    then have inv': "forest_inv ?f" using f2(2) l(3) by (simp add: forest_inv_def)
    have "in_set ?f e (if t = x then y else t)" if et: "in_set f e t" for e t
    proof -
      obtain i where i: "elements_map f2 e = Some i" "root_of (forest_nodes f2) i t"
        using et unfolding f2(3) [symmetric] by (auto simp: in_set_def)
      show ?thesis using i(1) l(4) [OF i(2)] unfolding in_set_def by simp
    qed
    then have ex: "\<exists>x y. {x, y} = {r, s} \<and> (\<forall>e t. in_set f e t \<longrightarrow> in_set ?f e (if t = x then y else t))" using l(2) by blast
    have "merge_sets f a b = Inr ?f" using f1(1) f2(1) False l(1) by (simp add: merge_sets_def)
    then show ?thesis by (intro exI [of _ ?f] conjI ex) (simp_all add: inv' f2(4))
  qed
qed

lemma in_set_dom: "in_set f e r \<Longrightarrow> e \<in> dom (elements_map f)"
  by (auto simp: in_set_def)

lemma connected_dom: "(x, y) \<in> connected f \<Longrightarrow> x \<in> dom (elements_map f) \<and> y \<in> dom (elements_map f)"
  by (auto simp: connected_def in_set_def)

lemma merge_sets_connected:
  assumes inv: "forest_inv f" and a: "a \<in> dom (elements_map f)" and b: "b \<in> dom (elements_map f)"
  shows "\<exists>f'. merge_sets f a b = Inr f' \<and> forest_inv f' \<and> elements_map f' = elements_map f
    \<and> connected f' = {(x, y). (x, y) \<in> connected f \<or> (x, a) \<in> connected f \<and> (b, y) \<in> connected f
         \<or> (x, b) \<in> connected f \<and> (a, y) \<in> connected f}"
proof -
  obtain r s where rs: "in_set f a r" "in_set f b s" using in_set_exists [OF inv] a b by blast
  obtain f' x y where m: "merge_sets f a b = Inr f'" "forest_inv f'" "elements_map f' = elements_map f" "{x, y} = {r, s}"
    "\<And>e t. in_set f e t \<Longrightarrow> in_set f' e (if t = x then y else t)"
    using merge_sets_spec [OF inv rs] by blast
  have "(u, v) \<in> connected f' \<longleftrightarrow> (u, v) \<in> connected f \<or> (u, a) \<in> connected f \<and> (b, v) \<in> connected f
      \<or> (u, b) \<in> connected f \<and> (a, v) \<in> connected f" for u v
  proof (cases "u \<in> dom (elements_map f) \<and> v \<in> dom (elements_map f)")
    case True
    then obtain t t' where t: "in_set f u t" "in_set f v t'" using in_set_exists [OF inv] by blast
    have "(u, v) \<in> connected f' \<longleftrightarrow> (if t = x then y else t) = (if t' = x then y else t')"
      by (rule connected_iff [OF m(5) [OF t(1)] m(5) [OF t(2)]])
    also have "\<dots> \<longleftrightarrow> t = t' \<or> t = r \<and> s = t' \<or> t = s \<and> r = t'" using m(4) by (auto simp: doubleton_eq_iff)
    finally show ?thesis
      using connected_iff [OF t] connected_iff [OF t(1) rs(1)] connected_iff [OF rs(2) t(2)]
        connected_iff [OF t(1) rs(2)] connected_iff [OF rs(1) t(2)] by blast
  next
    case False
    then show ?thesis using connected_dom [of _ _ f] connected_dom [of _ _ f'] unfolding m(3) by blast
  qed
  then show ?thesis using m(1-3) by blast
qed

lemma isConnected_spec:
  assumes inv: "forest_inv f" and "a \<in> dom (elements_map f)" and "b \<in> dom (elements_map f)"
  shows "\<exists>f'. isConnected f a b = Inr ((a, b) \<in> connected f, f')"
proof -
  obtain r s where rs: "in_set f a r" "in_set f b s" using in_set_exists [OF inv] assms(2,3) by blast
  obtain f1 where f1: "find_set f a = Inr (r, f1)" "forest_inv f1" "in_set f1 = in_set f" using find_set_in_set [OF inv rs(1)] by blast
  obtain f2 where "find_set f1 b = Inr (s, f2)" using find_set_in_set [OF f1(2), of b s] rs(2) f1(3) by auto
  then show ?thesis using f1(1) connected_iff [OF rs] by (simp add: isConnected_def)
qed

lemma append_climbs: "climbs nodes i k r \<Longrightarrow> climbs (nodes @ ns) i k r"
proof (induction rule: climbs.induct)
  case (at_root i)
  then show ?case by (simp add: climbs.at_root nth_append)
next
  case (climb i k r)
  then show ?case using climbs.climb [of i "nodes @ ns" k r] by (simp add: nth_append)
qed

lemma makeSet_connected:
  assumes inv: "forest_inv f" and new: "e \<notin> dom (elements_map f)"
  shows "forest_inv (makeSet f e) \<and> elements_map (makeSet f e) = (elements_map f)(e \<mapsto> length (forest_nodes f))
    \<and> connected (makeSet f e) = insert (e, e) (connected f)"
proof -
  let ?n = "length (forest_nodes f)" and ?ns = "forest_nodes f @ [\<lparr>node_rank = 0, node_parent = length (forest_nodes f)\<rparr>]"
  have f': "makeSet f e = f\<lparr>forest_nodes := ?ns, elements_map := (elements_map f)(e \<mapsto> ?n)\<rparr>"
    using new by (auto simp: makeSet_def hasElement_def Let_def)
  have last: "climbs ?ns ?n 0 ?n" by (rule climbs.at_root) simp_all
  have old: "root_of ?ns i r \<longleftrightarrow> root_of (forest_nodes f) i r" if "i < ?n" for i r
    using inv that append_climbs climbs_unique unfolding forest_inv_def forest_ok_def root_of_def by metis
  have inv': "forest_inv (makeSet f e)"
  proof -
    have "forest_ok ?ns" using inv old last by (auto simp: forest_ok_def forest_inv_def root_of_def less_Suc_eq)
    moreover have "inj_on ((elements_map f)(e \<mapsto> ?n)) (insert e (dom (elements_map f)))"
    proof -
      have free: "Some ?n \<notin> elements_map f ` dom (elements_map f)" using inv by (force simp: forest_inv_def ran_def image_iff)
      moreover have "((elements_map f)(e \<mapsto> ?n)) ` (dom (elements_map f) - {e}) = elements_map f ` dom (elements_map f)"
        using new by auto
      moreover have "inj_on (elements_map f) (dom (elements_map f))" using inv by (simp add: forest_inv_def)
      ultimately show ?thesis unfolding inj_on_insert by (simp add: inj_on_fun_updI)
    qed
    moreover have "ran ((elements_map f)(e \<mapsto> ?n)) \<subseteq> {..<Suc ?n}"
      using inv new by (fastforce simp: forest_inv_def ran_def split: if_splits)
    ultimately show ?thesis unfolding f' forest_inv_def by simp
  qed
  have other: "in_set (makeSet f e) x r \<longleftrightarrow> in_set f x r" if "x \<noteq> e" for x r
  proof -
    have "i < ?n" if "elements_map f x = Some i" for i using inv that by (auto simp: forest_inv_def ran_def)
    then show ?thesis using old \<open>x \<noteq> e\<close> unfolding f' in_set_def by auto
  qed
  have own: "in_set (makeSet f e) e ?n" using last by (auto simp: f' in_set_def root_of_def)
  have less: "r < ?n" if "in_set f x r" for x r using that root_of_range by (auto simp: in_set_def)
  have apart: "(x, e) \<notin> connected (makeSet f e) \<and> (e, x) \<notin> connected (makeSet f e)" if "x \<noteq> e" for x
    using other [OF that] less in_set_unique [OF own] unfolding connected_def by blast
  have "(x, y) \<in> connected (makeSet f e) \<longleftrightarrow> (x, y) = (e, e) \<or> (x, y) \<in> connected f" for x y
  proof (cases "x = e \<or> y = e")
    case True
    then show ?thesis using apart own new connected_dom [of x y f] by (cases "x = y") (auto simp: connected_def)
  next
    case False
    then show ?thesis using other unfolding connected_def by simp
  qed
  then show ?thesis using inv' f' by auto
qed

section \<open>Sequences of operations\<close>

datatype 'e forest_op = MakeSet 'e | Merge 'e 'e | Find 'e

fun apply_op :: "'e DisjointTreeForest \<Rightarrow> 'e forest_op \<Rightarrow> 'e DisjointTreeForest result" where
  "apply_op f (MakeSet e) = Inr (makeSet f e)"
| "apply_op f (Merge a b) = merge_sets f a b"
| "apply_op f (Find e) = and_then (find_set f e) (\<lambda>(_, f'). Inr f')"

text \<open>Every element is made a set before it is used.\<close>

fun well_used :: "'e set \<Rightarrow> 'e forest_op list \<Rightarrow> bool" where
  "well_used D [] \<longleftrightarrow> True"
| "well_used D (MakeSet e # ops) \<longleftrightarrow> well_used (insert e D) ops"
| "well_used D (Merge a b # ops) \<longleftrightarrow> a \<in> D \<and> b \<in> D \<and> well_used D ops"
| "well_used D (Find e # ops) \<longleftrightarrow> e \<in> D \<and> well_used D ops"

definition made :: "'e forest_op list \<Rightarrow> 'e set" where
  "made ops = {e. MakeSet e \<in> set ops}"

definition links_of :: "'e forest_op list \<Rightarrow> ('e \<times> 'e) set" where
  "links_of ops = {(a, b). Merge a b \<in> set ops \<or> Merge b a \<in> set ops}"

definition represents :: "'e DisjointTreeForest \<Rightarrow> 'e set \<Rightarrow> ('e \<times> 'e) set \<Rightarrow> bool" where
  "represents f D R \<longleftrightarrow> forest_inv f \<and> dom (elements_map f) = D \<and> sym R \<and> R \<subseteq> D \<times> D \<and> connected f = R\<^sup>* \<inter> D \<times> D"

lemma represents_makeSet: "represents f D R \<Longrightarrow> represents (makeSet f e) (insert e D) R"
proof (cases "e \<in> D")
  case True
  assume "represents f D R"
  then show ?thesis using True by (auto simp: represents_def makeSet_def hasElement_def insert_absorb)
next
  case False
  assume r: "represents f D R"
  have "x = e \<and> y = e" if "(x, y) \<in> R\<^sup>*" "x = e \<or> y = e" for x y
    using that r False unfolding represents_def by (metis (no_types, lifting) SigmaE2 converse_rtranclE rtranclE subset_iff)
  then have "R\<^sup>* \<inter> insert e D \<times> insert e D = insert (e, e) (R\<^sup>* \<inter> D \<times> D)" by auto
  then show ?thesis using r False makeSet_connected [of f e] by (auto simp: represents_def)
qed

lemma represents_merge:
  assumes r: "represents f D R" and ab: "a \<in> D" "b \<in> D"
  shows "\<exists>f'. merge_sets f a b = Inr f' \<and> represents f' D (insert (a, b) (insert (b, a) R))"
proof -
  obtain f' where f': "merge_sets f a b = Inr f'" "forest_inv f'" "elements_map f' = elements_map f"
    "connected f' = {(x, y). (x, y) \<in> connected f \<or> (x, a) \<in> connected f \<and> (b, y) \<in> connected f
         \<or> (x, b) \<in> connected f \<and> (a, y) \<in> connected f}"
    using merge_sets_connected [of f a b] r ab by (auto simp: represents_def)
  have "(insert (a, b) (insert (b, a) R))\<^sup>* = R\<^sup>* \<union> {(x, y). (x, a) \<in> R\<^sup>* \<and> (b, y) \<in> R\<^sup>*} \<union> {(x, y). (x, b) \<in> R\<^sup>* \<and> (a, y) \<in> R\<^sup>*}"
    unfolding rtrancl_insert by (auto intro: rtrancl_trans)
  then have "connected f' = (insert (a, b) (insert (b, a) R))\<^sup>* \<inter> D \<times> D"
    using f'(4) r ab by (auto simp: represents_def)
  then show ?thesis using f' r ab by (auto simp: represents_def sym_def)
qed

lemma represents_find: "represents f D R \<Longrightarrow> e \<in> D \<Longrightarrow> \<exists>r f'. find_set f e = Inr (r, f') \<and> represents f' D R"
proof -
  assume r: "represents f D R" and e: "e \<in> D"
  then obtain t where t: "in_set f e t" using in_set_exists [of f e] by (auto simp: represents_def)
  from find_set_in_set [OF _ t] r obtain f' where "find_set f e = Inr (t, f')" "forest_inv f'" "in_set f' = in_set f"
    "elements_map f' = elements_map f" by (auto simp: represents_def)
  then show ?thesis using r by (auto simp: represents_def connected_def)
qed

lemma run_represents:
  "represents f D R \<Longrightarrow> well_used D ops \<Longrightarrow> \<exists>f'. fold_res apply_op f ops = Inr f' \<and> represents f' (D \<union> made ops) (R \<union> links_of ops)"
proof (induction ops arbitrary: f D R)
  case Nil
  then show ?case by (simp add: made_def links_of_def)
next
  case (Cons op ops)
  show ?case
  proof (cases op)
    case (MakeSet e)
    have "insert e D \<union> made ops = D \<union> made (op # ops)" "R \<union> links_of ops = R \<union> links_of (op # ops)"
      by (auto simp: made_def links_of_def MakeSet)
    then show ?thesis using Cons.IH [OF represents_makeSet [OF Cons.prems(1)], of e] Cons.prems(2) MakeSet by simp
  next
    case (Merge a b)
    obtain f1 where f1: "merge_sets f a b = Inr f1" "represents f1 D (insert (a, b) (insert (b, a) R))"
      using represents_merge [OF Cons.prems(1), of a b] Cons.prems(2) Merge by auto
    have "D \<union> made ops = D \<union> made (op # ops)" "insert (a, b) (insert (b, a) R) \<union> links_of ops = R \<union> links_of (op # ops)"
      by (auto simp: made_def links_of_def Merge)
    then show ?thesis using Cons.IH [OF f1(2)] Cons.prems(2) Merge f1(1) by simp
  next
    case (Find e)
    obtain r f1 where f1: "find_set f e = Inr (r, f1)" "represents f1 D R"
      using represents_find [OF Cons.prems(1), of e] Cons.prems(2) Find by auto
    have "made ops = made (op # ops)" "links_of ops = links_of (op # ops)" by (auto simp: made_def links_of_def Find)
    then show ?thesis using Cons.IH [OF f1(2)] Cons.prems(2) Find f1(1) by simp
  qed
qed

lemma represents_empty: "represents empty_forest {} {}"
  by (auto simp: represents_def empty_forest_def forest_inv_def forest_ok_def connected_def in_set_def)

text \<open>C15. The forest implements disjoint sets: every sequence of operations that uses only elements that were
  made sets before succeeds, and afterwards two elements are reported as connected exactly if a chain
  of merged pairs leads from one to the other.\<close>

theorem forest_correct:
  assumes "well_used {} ops" and "a \<in> made ops" and "b \<in> made ops"
  shows "\<exists>f f'. fold_res apply_op empty_forest ops = Inr f \<and> isConnected f a b = Inr ((a, b) \<in> (links_of ops)\<^sup>*, f')"
proof -
  obtain f where f: "fold_res apply_op empty_forest ops = Inr f" "represents f (made ops) (links_of ops)"
    using run_represents [OF represents_empty assms(1)] by auto
  then have "(a, b) \<in> connected f \<longleftrightarrow> (a, b) \<in> (links_of ops)\<^sup>*" using assms(2,3) by (auto simp: represents_def)
  then show ?thesis using f isConnected_spec [of f a b] assms(2,3) by (auto simp: represents_def)
qed

theorem forest_correct_witness:
  "\<exists>f f'. fold_res apply_op empty_forest [MakeSet 1, MakeSet 2, MakeSet 3, Merge 1 (2 :: nat)] = Inr f
     \<and> isConnected f 1 2 = Inr ((1, 2) \<in> (links_of [MakeSet 1, MakeSet 2, MakeSet 3, Merge 1 (2 :: nat)])\<^sup>*, f')"
  by (rule forest_correct) (simp_all add: made_def)

section \<open>The ranks\<close>

text \<open>The merges of 0 and 1, 1 and 2, and so on.\<close>

definition chain_ops :: "nat \<Rightarrow> nat \<Rightarrow> nat forest_op list" where
  "chain_ops sz n = map MakeSet [0..<sz] @ map (\<lambda>i. Merge i (Suc i)) [0..<n]"

definition chain_node :: "nat \<Rightarrow> nat \<Rightarrow> Node" where
  "chain_node n i = (if i < n then \<lparr>node_rank = 1, node_parent = Suc i\<rparr>
     else \<lparr>node_rank = (if i = n \<and> 0 < n then 2 else 0), node_parent = i\<rparr>)"

definition chain_forest :: "nat \<Rightarrow> nat \<Rightarrow> nat DisjointTreeForest" where
  "chain_forest sz n = \<lparr>forest_nodes = map (chain_node n) [0..<sz], elements_map = (\<lambda>e. if e < sz then Some e else None)\<rparr>"

lemma make_chain: "fold_res apply_op empty_forest (map MakeSet [0..<sz]) = Inr (chain_forest sz 0)"
proof (induction sz)
  case 0
  then show ?case by (simp add: empty_forest_def chain_forest_def)
next
  case (Suc sz)
  then show ?case
    by (auto simp: fold_res_append makeSet_def hasElement_def chain_forest_def chain_node_def Let_def fun_eq_iff)
qed

lemma find_root_node:
  assumes "elements_map f e = Some i" and "i < length (forest_nodes f)" and "node_parent (forest_nodes f ! i) = i"
  shows "find_set f e = Inr (i, f\<lparr>forest_nodes := (forest_nodes f)[i := (forest_nodes f ! i)\<lparr>node_rank := 1\<rparr>]\<rparr>)"
proof -
  obtain n where "length (forest_nodes f) = Suc n" using assms(2) by (cases "length (forest_nodes f)") auto
  then show ?thesis using assms by (simp add: find_set_def compress_path_def)
qed

lemma merge_chain:
  assumes "Suc n < sz"
  shows "merge_sets (chain_forest sz n) n (Suc n) = Inr (chain_forest sz (Suc n))"
proof -
  let ?ns = "map (chain_node n) [0..<sz]"
  let ?f = "\<lambda>ns. \<lparr>forest_nodes = ns, elements_map = (\<lambda>e. if e < sz then Some e else None)\<rparr>"
  let ?ns2 = "?ns[n := \<lparr>node_rank = 1, node_parent = n\<rparr>, Suc n := \<lparr>node_rank = 1, node_parent = Suc n\<rparr>]"
  have "find_set (?f ?ns) n = Inr (n, ?f (?ns[n := \<lparr>node_rank = 1, node_parent = n\<rparr>]))"
    using find_root_node [of "?f ?ns" n n] assms by (simp add: chain_node_def)
  moreover have "find_set (?f (?ns[n := \<lparr>node_rank = 1, node_parent = n\<rparr>])) (Suc n) = Inr (Suc n, ?f ?ns2)"
    using find_root_node [of "?f (?ns[n := \<lparr>node_rank = 1, node_parent = n\<rparr>])" "Suc n" "Suc n"] assms by (simp add: chain_node_def)
  moreover have "link_roots ?ns2 n (Suc n) = Inr (map (chain_node (Suc n)) [0..<sz])"
    using assms by (auto simp: link_roots_def chain_node_def nth_list_update intro!: nth_equalityI)
  ultimately show ?thesis by (simp add: merge_sets_def chain_forest_def)
qed

lemma chain_run: "n < sz \<Longrightarrow> fold_res apply_op empty_forest (chain_ops sz n) = Inr (chain_forest sz n)"
proof (induction n)
  case 0
  then show ?case by (simp add: chain_ops_def make_chain)
next
  case (Suc n)
  then have "fold_res apply_op empty_forest (chain_ops sz n) = Inr (chain_forest sz n)" by simp
  moreover have "chain_ops sz (Suc n) = chain_ops sz n @ [Merge n (Suc n)]" by (simp add: chain_ops_def)
  ultimately show ?case using merge_chain [OF Suc.prems] by (simp add: fold_res_append)
qed

text \<open>The ranks do not bound the height of the trees: every \<^verbatim>\<open>find\<close> on a root sets its rank to one, also when
  the root has a subtree.  Merging 0 with 1, 1 with 2, and so on builds a path, at the end of which
  a \<^verbatim>\<open>find\<close> takes as many steps as there were merges.\<close>

theorem merges_build_path:
  assumes "n < sz"
  shows "\<exists>f. fold_res apply_op empty_forest (chain_ops sz n) = Inr f \<and> climbs (forest_nodes f) 0 n n"
proof -
  let ?ns = "map (chain_node n) [0..<sz]"
  have parent: "node_parent (?ns ! i) = (if i < n then Suc i else i)" if "i < sz" for i using that by (simp add: chain_node_def)
  have "climbs ?ns (n - k) k n" if "k \<le> n" for k
    using that
  proof (induction k)
    case 0
    then show ?case using assms climbs.at_root [of n ?ns] parent by simp
  next
    case (Suc k)
    then have "climbs ?ns (Suc (n - Suc k)) k n" by (simp add: Suc_diff_Suc)
    then show ?case using climbs.climb [of "n - Suc k" ?ns k n] Suc.prems assms parent by simp
  qed
  from this [of n] show ?thesis using chain_run [OF assms] by (simp add: chain_forest_def)
qed

theorem merges_build_path_witness:
  "\<exists>f. fold_res apply_op empty_forest (chain_ops 101 100) = Inr f \<and> climbs (forest_nodes f) 0 100 100"
  by (rule merges_build_path) simp

end
