(* ===== verification/BloomFilters.thy ===== *)
theory BloomFilters
  imports Prelude "HOL-Library.Word"
begin

text \<open>
  The Bloom filter (\<^verbatim>\<open>BloomFilter\<close>): an array of bits and a number of hash functions that map a key to
  positions in the array.  The array stands for the set of its bits; inserting a key adds the
  positions of the key, and the test asks whether they are all there.

  Keys are lists of bytes; words are read in the byte order of the machine, the least significant
  byte first.  The two passes of the thread-safe insertion are modelled without an interleaving.
\<close>

unbundle bit_operations_syntax

section \<open>Hash functions\<close>

definition predef_hash_fn :: "32 word list" where
  "predef_hash_fn = [
     0xAAAAAAAA, 0x55555555, 0x33333333, 0xCCCCCCCC, 0x66666666, 0x99999999, 0xB5B5B5B5, 0x4B4B4B4B,
     0xAA55AA55, 0x55335533, 0x33CC33CC, 0xCC66CC66, 0x66996699, 0x99B599B5, 0xB54BB54B, 0x4BAA4BAA,
     0xAA33AA33, 0x55CC55CC, 0x33663366, 0xCC99CC99, 0x66B566B5, 0x994B994B, 0xB5AAB5AA, 0xAAAAAA33,
     0x555555CC, 0x33333366, 0xCCCCCC99, 0x666666B5, 0x9999994B, 0xB5B5B5AA, 0xFFFFFFFF, 0xFFFF0000,
     0xB823D5EB, 0xC1191CDF, 0xF623AEB3, 0xDB58499F, 0xC8D42E70, 0xB173F616, 0xA91A5967, 0xDA427D63,
     0xB1E8A2EA, 0xF6C0D155, 0x4909FEA3, 0xA68CC6A7, 0xC395E782, 0xA26057EB, 0x0CD5DA28, 0x467C5492,
     0xF15E6982, 0x61C6FAD3, 0x9615E352, 0x6E9E355A, 0x689B563E, 0x0C9831A8, 0x6753C18B, 0xA622689B,
     0x8CA63C47, 0x42CC2884, 0x8E89919B, 0x6EDBD7D3, 0x15B6796C, 0x1D6FDFE4, 0x63FF9092, 0xE7401432,
     0xEFFE9412, 0xAEAEDF79, 0x9F245A31, 0x83C136FC, 0xC3DA4A8C, 0xA5112C8C, 0x5271F491, 0x9A948DAB,
     0xCEE59A8D, 0xB5F525AB, 0x59D13217, 0x24E7C331, 0x697C2103, 0x84B0A460, 0x86156DA9, 0xAEF2AC68,
     0x23243DA5, 0x3F649643, 0x5FA495A8, 0x67710DF8, 0x9A6C499E, 0xDCFB0227, 0x46A43433, 0x1832B07A,
     0xC46AFF3C, 0xB9C8FFF0, 0xC9500467, 0x34431BDF, 0xB652432B, 0xE367F12B, 0x427F4C1B, 0x224C006E,
     0x2E7E5A89, 0x96F99AA5, 0x0BEB452A, 0x2FD87C39, 0x74B2E1FB, 0x222EFD24, 0xF357F60C, 0x440FCB1E,
     0x8BBE030F, 0x6704DC29, 0x1144D12F, 0x948B1355, 0x6D8FD7E9, 0x1C11A014, 0xADD1592F, 0xFB3C712E,
     0xFC77642F, 0xF9C4CE8C, 0x31312FB9, 0x08B0DD79, 0x318FA6E7, 0xC040D23D, 0xC0589AA7, 0x0CA5C075,
     0xF874B172, 0x0CF914D5, 0x784D3280, 0x4E8CFEBC, 0xC569F575, 0xCDB2A091, 0x2CC016B4, 0x5C5F4421]"

definition read_word :: "8 word list \<Rightarrow> 32 word" where
  "read_word bytes = foldr (\<lambda>b w. push_bit 8 w OR ucast b) bytes 0"

text \<open>The two ways of mixing a word into the hash.\<close>

definition mix_even :: "32 word \<Rightarrow> 32 word \<Rightarrow> 32 word" where
  "mix_even i hash = NOT (push_bit 11 hash + (i XOR drop_bit 5 hash))"

definition mix_odd :: "32 word \<Rightarrow> 32 word \<Rightarrow> 32 word" where
  "mix_odd i hash = push_bit 7 hash XOR i * drop_bit 3 hash"

text \<open>The loop over eight bytes at a time, and the remaining bytes with the counter \<open>loop\<close>.\<close>

function hash_loop :: "8 word list \<Rightarrow> 32 word \<Rightarrow> 8 word list \<times> 32 word" where
  "hash_loop bytes hash =
     (if 8 \<le> length bytes then
        (let i1 = read_word (take 4 bytes); i2 = read_word (take 4 (drop 4 bytes)) in
         hash_loop (drop 8 bytes) (hash XOR (mix_odd i1 hash XOR mix_even i2 hash)))
      else (bytes, hash))"
  by pat_completeness auto
termination
  by (relation "measure (length \<circ> fst)") auto

declare hash_loop.simps [simp del]

definition hash_step :: "nat \<Rightarrow> 8 word list \<times> 32 word \<times> 32 word \<Rightarrow> 8 word list \<times> 32 word \<times> 32 word" where
  "hash_step n s =
     (let (bytes, hash, loop) = s in
      if n \<le> length bytes then
        (let i = read_word (take n bytes) in
         (drop n bytes,
          hash XOR (if loop AND 1 \<noteq> 0 then mix_odd i hash else mix_even i hash), loop + 1))
      else s)"

definition hash_ap :: "8 word list \<Rightarrow> 32 word \<Rightarrow> 32 word" where
  "hash_ap key seed =
     (let (bytes, hash) = hash_loop key seed;
          (bytes, hash, loop) = hash_step 2 (hash_step 4 (bytes, hash, 0)) in
      case bytes of
        [] \<Rightarrow> hash
      | b # _ \<Rightarrow> hash + ((ucast b XOR hash * 0xA5A5A5A5) + loop))"

section \<open>State and operations\<close>

text \<open>\<open>hash_fn\<close> is the memory reserved for the vector of hash functions and \<open>hash_fn_size\<close> its size, which
  stays zero: the functions are copied into the reserved memory without being added to the vector.\<close>

record BloomFilter =
  random_seed :: "64 word"
  hash_fn :: "32 word list"
  hash_fn_size :: nat
  hash_fn_count :: nat
  array_size_in_bytes :: nat
  bit_array :: "8 word list"
  inserted_element_count :: "32 word"

definition array_size :: "BloomFilter \<Rightarrow> nat" where
  "array_size f = array_size_in_bytes f * 8"

definition bf_reset :: "BloomFilter \<Rightarrow> BloomFilter" where
  "bf_reset f = f\<lparr>bit_array := replicate (array_size_in_bytes f) 0, inserted_element_count := 0\<rparr>"

text \<open>The seed is added to the hash functions that belong to the vector.\<close>

definition mix_seed :: "BloomFilter \<Rightarrow> 32 word list \<Rightarrow> nat \<Rightarrow> 32 word list" where
  "mix_seed f fs i = fs[i := fs ! i * fs ! ((i + 3) mod hash_fn_count f) + ucast (random_seed f)]"

definition generate_unique_hash_fn :: "BloomFilter \<Rightarrow> BloomFilter result" where
  "generate_unique_hash_fn f =
     (if hash_fn_count f \<le> 128 then
        (let f1 = f\<lparr>hash_fn := take (hash_fn_count f) predef_hash_fn\<rparr> in
         Inr (f1\<lparr>hash_fn := foldl (mix_seed f1) (hash_fn f1) [0..<hash_fn_size f1]\<rparr>))
      else Inl FatalLog)"

definition new_BloomFilter :: "64 word \<Rightarrow> nat \<Rightarrow> nat \<Rightarrow> BloomFilter result" where
  "new_BloomFilter seed num_hashes bytes =
     generate_unique_hash_fn (bf_reset \<lparr>random_seed = seed, hash_fn = [], hash_fn_size = 0, hash_fn_count = num_hashes mod 2 ^ 32,
       array_size_in_bytes = bytes, bit_array = [], inserted_element_count = 0\<rparr>)"

text \<open>The constructor with a bit array of the caller.\<close>

definition new_BloomFilter_on :: "64 word \<Rightarrow> nat \<Rightarrow> nat \<Rightarrow> 8 word list \<Rightarrow> bool \<Rightarrow> BloomFilter result" where
  "new_BloomFilter_on seed num_hashes bytes array is_initialized =
     (let f = \<lparr>random_seed = seed, hash_fn = [], hash_fn_size = 0, hash_fn_count = num_hashes mod 2 ^ 32,
         array_size_in_bytes = bytes, bit_array = array, inserted_element_count = 0\<rparr> in
      generate_unique_hash_fn (if is_initialized then f else bf_reset f))"

definition compute_indices :: "BloomFilter \<Rightarrow> 32 word \<Rightarrow> (nat \<times> nat) result" where
  "compute_indices f hash =
     (if array_size f = 0 then Inl UndefinedBehaviour
      else (let bit_index = unat hash mod array_size f in Inr (bit_index, bit_index mod 8)))"

definition key_position :: "BloomFilter \<Rightarrow> 8 word list \<Rightarrow> nat \<Rightarrow> (nat \<times> nat) result" where
  "key_position f key i = and_then (vec_at (hash_fn f) i) (\<lambda>h. compute_indices f (hash_ap key h))"

definition test_position :: "8 word list \<Rightarrow> nat \<times> nat \<Rightarrow> bool result" where
  "test_position array p =
     and_then (vec_at array (fst p div 8)) (\<lambda>byte. Inr (byte AND push_bit (snd p) 1 = push_bit (snd p) 1))"

definition set_position :: "8 word list \<Rightarrow> nat \<times> nat \<Rightarrow> 8 word list result" where
  "set_position array p =
     and_then (vec_at array (fst p div 8)) (\<lambda>byte. Inr (array[fst p div 8 := byte OR push_bit (snd p) 1]))"

text \<open>The thread-safe insertion: the positions, which of them are set already, and the setting of the others.\<close>

definition bf_insert :: "BloomFilter \<Rightarrow> 8 word list \<Rightarrow> BloomFilter result" where
  "bf_insert f key =
     and_then (fold_res (\<lambda>ps i. and_then (key_position f key i) (\<lambda>p. Inr (ps @ [p]))) [] [0..<hash_fn_count f]) (\<lambda>positions.
     and_then (fold_res (\<lambda>cs p. and_then (test_position (bit_array f) p) (\<lambda>c. Inr (cs @ [c]))) [] positions) (\<lambda>correct.
     and_then (fold_res (\<lambda>array (p, c). if \<not> c then set_position array p else Inr array) (bit_array f) (zip positions correct))
       (\<lambda>array. Inr (f\<lparr>bit_array := array, inserted_element_count := inserted_element_count f + 1\<rparr>))))"

definition insertUnSafe :: "BloomFilter \<Rightarrow> 8 word list \<Rightarrow> BloomFilter result" where
  "insertUnSafe f key =
     and_then (fold_res (\<lambda>array i. and_then (key_position f key i) (set_position array)) (bit_array f) [0..<hash_fn_count f])
       (\<lambda>array. Inr (f\<lparr>bit_array := array, inserted_element_count := inserted_element_count f + 1\<rparr>))"

text \<open>The loop of the test returns at the first position that is not set.\<close>

fun contains_loop :: "BloomFilter \<Rightarrow> 8 word list \<Rightarrow> nat list \<Rightarrow> bool result" where
  "contains_loop f key [] = Inr True"
| "contains_loop f key (i # is) =
     and_then (key_position f key i) (\<lambda>p.
     and_then (test_position (bit_array f) p) (\<lambda>c. if \<not> c then Inr False else contains_loop f key is))"

definition bf_contains :: "BloomFilter \<Rightarrow> 8 word list \<Rightarrow> bool result" where
  "bf_contains f key = contains_loop f key [0..<hash_fn_count f]"

definition bitwiseOr :: "BloomFilter \<Rightarrow> BloomFilter \<Rightarrow> BloomFilter result" where
  "bitwiseOr f g =
     and_then (fold_res (\<lambda>array i. and_then (vec_at array i) (\<lambda>a. and_then (vec_at (bit_array g) i) (\<lambda>b. vec_set array i (a OR b))))
         (bit_array f) [0..<array_size_in_bytes g])
       (\<lambda>array. Inr (f\<lparr>bit_array := array\<rparr>))"

definition element_count :: "BloomFilter \<Rightarrow> 32 word" where
  "element_count f = inserted_element_count f"

section \<open>The array as a set\<close>

definition bits_of :: "8 word list \<Rightarrow> nat set" where
  "bits_of array = {i. i < 8 * length array \<and> bit (array ! (i div 8)) (i mod 8)}"

definition bf_wf :: "BloomFilter \<Rightarrow> bool" where
  "bf_wf f \<longleftrightarrow> length (hash_fn f) = hash_fn_count f \<and> length (bit_array f) = array_size_in_bytes f \<and> 0 < array_size_in_bytes f"

definition pos_of :: "BloomFilter \<Rightarrow> 8 word list \<Rightarrow> 32 word \<Rightarrow> nat" where
  "pos_of f key h = unat (hash_ap key h) mod array_size f"

definition key_bits :: "BloomFilter \<Rightarrow> 8 word list \<Rightarrow> nat set" where
  "key_bits f key = pos_of f key ` set (hash_fn f)"

lemma single_bit:
  assumes "n < 8"
  shows "w AND push_bit n 1 = push_bit n 1 \<longleftrightarrow> bit (w :: 8 word) n"
proof -
  have "w AND push_bit n 1 = (if bit w n then push_bit n 1 else 0)"
    by (rule bit_eqI) (auto simp: bit_simps)
  moreover have "push_bit n (1 :: 8 word) \<noteq> 0" using assms by (auto simp: bit_eq_iff bit_simps)
  ultimately show ?thesis by simp
qed

lemma test_position_spec: "p < 8 * length array \<Longrightarrow> test_position array (p, p mod 8) = Inr (p \<in> bits_of array)"
  by (simp add: test_position_def single_bit [simplified] bits_of_def less_mult_imp_div_less mult.commute)

lemma set_position_spec:
  assumes "p < 8 * length array"
  shows "\<exists>array'. set_position array (p, p mod 8) = Inr array' \<and> length array' = length array \<and> bits_of array' = insert p (bits_of array)"
proof -
  have i: "p div 8 < length array" using assms by (simp add: less_mult_imp_div_less mult.commute)
  have "bit (array[p div 8 := array ! (p div 8) OR push_bit (p mod 8) 1] ! (j div 8)) (j mod 8) \<longleftrightarrow>
      j = p \<or> bit (array ! (j div 8)) (j mod 8)" if "j < 8 * length array" for j
  proof (cases "j div 8 = p div 8")
    case True
    then have "j = p \<longleftrightarrow> j mod 8 = p mod 8" by (metis div_mult_mod_eq)
    moreover have "bit (array ! (p div 8) OR push_bit (p mod 8) 1) (j mod 8) \<longleftrightarrow> bit (array ! (p div 8)) (j mod 8) \<or> j mod 8 = p mod 8"
      by (auto simp: bit_simps)
    ultimately show ?thesis using True i by auto
  next
    case False
    then show ?thesis by auto
  qed
  then show ?thesis using i assms by (auto simp: set_position_def bits_of_def)
qed

lemma pos_of_less: "bf_wf f \<Longrightarrow> pos_of f key h < 8 * length (bit_array f)"
  by (simp add: bf_wf_def pos_of_def array_size_def mult.commute)

lemma key_position_spec:
  "bf_wf f \<Longrightarrow> i < hash_fn_count f \<Longrightarrow> key_position f key i = Inr (pos_of f key (hash_fn f ! i), pos_of f key (hash_fn f ! i) mod 8)"
  by (simp add: key_position_def compute_indices_def bf_wf_def array_size_def pos_of_def Let_def)

lemma key_bits_nth: "bf_wf f \<Longrightarrow> key_bits f key = {pos_of f key (hash_fn f ! i) | i. i < hash_fn_count f}"
  unfolding key_bits_def bf_wf_def set_conv_nth by auto

lemma set_positions:
  assumes wf: "bf_wf f" and "k \<le> hash_fn_count f" and "length array = length (bit_array f)"
  shows "\<exists>array'. fold_res (\<lambda>array i. and_then (key_position f key i) (set_position array)) array [0..<k] = Inr array'
    \<and> length array' = length array \<and> bits_of array' = bits_of array \<union> {pos_of f key (hash_fn f ! i) | i. i < k}"
  using assms(2)
proof (induction k)
  case 0
  then show ?case by simp
next
  case (Suc k)
  let ?p = "pos_of f key (hash_fn f ! k)"
  obtain array1 where a1: "fold_res (\<lambda>array i. and_then (key_position f key i) (set_position array)) array [0..<k] = Inr array1"
    "length array1 = length array" "bits_of array1 = bits_of array \<union> {pos_of f key (hash_fn f ! i) | i. i < k}"
    using Suc by auto
  obtain array2 where a2: "set_position array1 (?p, ?p mod 8) = Inr array2" "length array2 = length array1" "bits_of array2 = insert ?p (bits_of array1)"
    using set_position_spec [of ?p array1] pos_of_less [OF wf] a1(2) assms(3) by auto
  have "{pos_of f key (hash_fn f ! i) | i. i < Suc k} = insert ?p {pos_of f key (hash_fn f ! i) | i. i < k}"
    by (auto simp: less_Suc_eq)
  then show ?case using a1 a2 key_position_spec [OF wf, of k key] Suc.prems by (simp add: fold_res_append)
qed

lemma insertUnSafe_bits:
  assumes wf: "bf_wf f"
  shows "\<exists>array. insertUnSafe f key = Inr (f\<lparr>bit_array := array, inserted_element_count := inserted_element_count f + 1\<rparr>)
    \<and> length array = length (bit_array f) \<and> bits_of array = bits_of (bit_array f) \<union> key_bits f key"
  using set_positions [OF wf order.refl refl, of key] key_bits_nth [OF wf, of key] by (auto simp: insertUnSafe_def)

lemma contains_loop_spec:
  "bf_wf f \<Longrightarrow> \<forall>i \<in> set is. i < hash_fn_count f \<Longrightarrow>
     contains_loop f key is = Inr (\<forall>i \<in> set is. pos_of f key (hash_fn f ! i) \<in> bits_of (bit_array f))"
  by (induction "is") (auto simp: key_position_spec test_position_spec pos_of_less)

lemma contains_bits:
  assumes "bf_wf f"
  shows "bf_contains f key = Inr (key_bits f key \<subseteq> bits_of (bit_array f))"
proof -
  have "(\<forall>i \<in> set [0..<hash_fn_count f]. pos_of f key (hash_fn f ! i) \<in> bits_of (bit_array f)) \<longleftrightarrow> key_bits f key \<subseteq> bits_of (bit_array f)"
    using assms unfolding key_bits_def image_subset_iff all_set_conv_all_nth bf_wf_def by simp
  then show ?thesis using contains_loop_spec [OF assms, of "[0..<hash_fn_count f]" key] by (simp add: bf_contains_def)
qed

lemma bits_of_inject:
  assumes len: "length a = length b" and "bits_of a = bits_of b"
  shows "a = b"
proof (rule nth_equalityI [OF len])
  fix i assume i: "i < length a"
  show "a ! i = b ! i"
  proof (rule bit_word_eqI)
    fix n assume "n < LENGTH(8)"
    then have "8 * i + n < 8 * length a" "(8 * i + n) div 8 = i" "(8 * i + n) mod 8 = n" using i by auto
    then show "bit (a ! i) n = bit (b ! i) n" using assms unfolding bits_of_def set_eq_iff by (metis (mono_tags, lifting) mem_Collect_eq)
  qed
qed

lemma collect_positions:
  "bf_wf f \<Longrightarrow> k \<le> hash_fn_count f \<Longrightarrow>
     fold_res (\<lambda>ps i. and_then (key_position f key i) (\<lambda>p. Inr (ps @ [p]))) [] [0..<k]
       = Inr (map (\<lambda>i. (pos_of f key (hash_fn f ! i), pos_of f key (hash_fn f ! i) mod 8)) [0..<k])"
  by (induction k) (simp_all add: fold_res_append key_position_spec)

lemma collect_correct:
  "(\<And>p. p \<in> set ps \<Longrightarrow> p < 8 * length array) \<Longrightarrow>
     fold_res (\<lambda>cs p. and_then (test_position array p) (\<lambda>c. Inr (cs @ [c]))) cs (map (\<lambda>p. (p, p mod 8)) ps)
       = Inr (cs @ map (\<lambda>p. p \<in> bits_of array) ps)"
  by (induction ps arbitrary: cs) (simp_all add: test_position_spec)

lemma set_missing:
  assumes "\<And>p. p \<in> set ps \<Longrightarrow> p < 8 * length array"
  shows "\<exists>array'. fold_res (\<lambda>array (p, c). if \<not> c then set_position array p else Inr array) array
      (zip (map (\<lambda>p. (p, p mod 8)) ps) (map (\<lambda>p. p \<in> B) ps)) = Inr array'
    \<and> length array' = length array \<and> bits_of array' = bits_of array \<union> (set ps - B)"
  using assms
proof (induction ps arbitrary: array)
  case Nil
  then show ?case by simp
next
  case (Cons p ps)
  show ?case
  proof (cases "p \<in> B")
    case True
    have "set (p # ps) - B = set ps - B" using True by auto
    then show ?thesis using Cons.IH [of array] Cons.prems True by simp
  next
    case False
    obtain array1 where a: "set_position array (p, p mod 8) = Inr array1" "length array1 = length array" "bits_of array1 = insert p (bits_of array)"
      using set_position_spec [of p array] Cons.prems by auto
    have "bits_of array1 \<union> (set ps - B) = bits_of array \<union> (set (p # ps) - B)" using a(3) False by auto
    then show ?thesis using Cons.IH [of array1] Cons.prems a False by simp
  qed
qed

lemma bf_insert_eq: 
  assumes wf: "bf_wf f"
  shows "bf_insert f key = insertUnSafe f key"
proof -
  define ps where "ps = map (\<lambda>i. pos_of f key (hash_fn f ! i)) [0..<hash_fn_count f]"
  have less: "p < 8 * length (bit_array f)" if "p \<in> set ps" for p using that pos_of_less [OF wf] by (auto simp: ps_def)
  have "fold_res (\<lambda>ps i. and_then (key_position f key i) (\<lambda>p. Inr (ps @ [p]))) [] [0..<hash_fn_count f] = Inr (map (\<lambda>p. (p, p mod 8)) ps)"
    using collect_positions [OF wf order.refl] by (simp add: ps_def comp_def)
  moreover obtain array where a: "fold_res (\<lambda>array (p, c). if \<not> c then set_position array p else Inr array) (bit_array f)
      (zip (map (\<lambda>p. (p, p mod 8)) ps) (map (\<lambda>p. p \<in> bits_of (bit_array f)) ps)) = Inr array"
    "length array = length (bit_array f)" "bits_of array = bits_of (bit_array f) \<union> (set ps - bits_of (bit_array f))"
    using set_missing [OF less] by blast
  ultimately have ins: "bf_insert f key = Inr (f\<lparr>bit_array := array, inserted_element_count := inserted_element_count f + 1\<rparr>)"
    using collect_correct [OF less, where cs = "[]"] by (simp add: bf_insert_def)
  obtain array' where u: "insertUnSafe f key = Inr (f\<lparr>bit_array := array', inserted_element_count := inserted_element_count f + 1\<rparr>)"
    "length array' = length (bit_array f)" "bits_of array' = bits_of (bit_array f) \<union> key_bits f key"
    using insertUnSafe_bits [OF wf] by blast
  have "set ps = key_bits f key" using key_bits_nth [OF wf] by (auto simp: ps_def)
  then have "array = array'" using a(2,3) u(2,3) by (intro bits_of_inject) auto
  then show ?thesis using ins u(1) by simp
qed

lemma or_bytes:
  assumes "length g \<le> length array" and "k \<le> length g"
  shows "\<exists>array'. fold_res (\<lambda>array i. and_then (vec_at array i) (\<lambda>a. and_then (vec_at g i) (\<lambda>b. vec_set array i (a OR b)))) array [0..<k] = Inr array'
    \<and> length array' = length array \<and> (\<forall>i < length array. array' ! i = (if i < k then array ! i OR g ! i else array ! i))"
  using assms(2)
proof (induction k)
  case 0
  then show ?case by simp
next
  case (Suc k)
  then obtain array1 where a: "fold_res (\<lambda>array i. and_then (vec_at array i) (\<lambda>a. and_then (vec_at g i) (\<lambda>b. vec_set array i (a OR b)))) array [0..<k] = Inr array1"
    "length array1 = length array" "\<forall>i < length array. array1 ! i = (if i < k then array ! i OR g ! i else array ! i)" by auto
  then show ?case using Suc.prems assms(1) by (auto simp: fold_res_append nth_list_update vec_set_def less_Suc_eq)
qed

lemma bitwiseOr_bits:
  assumes f: "bf_wf f" and g: "bf_wf g" and le: "array_size_in_bytes g \<le> array_size_in_bytes f"
  shows "\<exists>array. bitwiseOr f g = Inr (f\<lparr>bit_array := array\<rparr>) \<and> length array = length (bit_array f)
    \<and> bits_of array = bits_of (bit_array f) \<union> bits_of (bit_array g)"
proof -
  have len: "length (bit_array g) \<le> length (bit_array f)" "length (bit_array g) = array_size_in_bytes g" using f g le by (simp_all add: bf_wf_def)
  obtain array where a: "bitwiseOr f g = Inr (f\<lparr>bit_array := array\<rparr>)" "length array = length (bit_array f)"
    "\<forall>i < length (bit_array f). array ! i = (if i < length (bit_array g) then bit_array f ! i OR bit_array g ! i else bit_array f ! i)"
    using or_bytes [OF len(1) order.refl] len(2) by (auto simp: bitwiseOr_def)
  have "j \<in> bits_of array \<longleftrightarrow> j \<in> bits_of (bit_array f) \<or> j \<in> bits_of (bit_array g)" for j
  proof -
    have d: "j < 8 * n \<longleftrightarrow> j div 8 < n" for n :: nat by (simp add: div_less_iff_less_mult mult.commute)
    show ?thesis unfolding bits_of_def mem_Collect_eq d a(2) using a(3) len(1) by (auto simp: bit_simps split: if_splits)
  qed
  then show ?thesis using a(1,2) by blast
qed

section \<open>Correctness\<close>

lemma new_BloomFilter_spec:
  assumes "new_BloomFilter seed n bytes = Inr f"
  shows "n mod 2 ^ 32 \<le> 128 \<and> f = \<lparr>random_seed = seed, hash_fn = take (n mod 2 ^ 32) predef_hash_fn, hash_fn_size = 0,
    hash_fn_count = n mod 2 ^ 32, array_size_in_bytes = bytes, bit_array = replicate bytes 0, inserted_element_count = 0\<rparr>"
  using assms by (auto simp: new_BloomFilter_def generate_unique_hash_fn_def bf_reset_def Let_def split: if_splits)

lemma new_BloomFilter_wf: "new_BloomFilter seed n bytes = Inr f \<Longrightarrow> 0 < bytes \<Longrightarrow> bf_wf f \<and> bits_of (bit_array f) = {}"
  using new_BloomFilter_spec [of seed n bytes f]
  by (auto simp: bf_wf_def bits_of_def predef_hash_fn_def less_mult_imp_div_less mult.commute)

text \<open>The operations are those on the set of bits: both insertions add the positions of the key, and they
  agree; the test asks whether the positions of the key are all set; the disjunction with a filter
  that is not larger is the union.\<close>

theorem bloom_operations_correct:
  assumes "bf_wf f"
  shows "(\<exists>f'. insertUnSafe f key = Inr f' \<and> bf_insert f key = Inr f' \<and> bf_wf f'
      \<and> bits_of (bit_array f') = bits_of (bit_array f) \<union> key_bits f key)
    \<and> bf_contains f key = Inr (key_bits f key \<subseteq> bits_of (bit_array f))
    \<and> (bf_wf g \<and> array_size_in_bytes g \<le> array_size_in_bytes f \<longrightarrow>
         (\<exists>f'. bitwiseOr f g = Inr f' \<and> bf_wf f' \<and> bits_of (bit_array f') = bits_of (bit_array f) \<union> bits_of (bit_array g)))"
proof -
  have "\<exists>f'. insertUnSafe f key = Inr f' \<and> bf_insert f key = Inr f' \<and> bf_wf f' \<and> bits_of (bit_array f') = bits_of (bit_array f) \<union> key_bits f key"
    using insertUnSafe_bits [OF assms, of key] bf_insert_eq [OF assms, of key] assms by (auto simp: bf_wf_def)
  moreover have "\<exists>f'. bitwiseOr f g = Inr f' \<and> bf_wf f' \<and> bits_of (bit_array f') = bits_of (bit_array f) \<union> bits_of (bit_array g)"
    if "bf_wf g" "array_size_in_bytes g \<le> array_size_in_bytes f"
    using bitwiseOr_bits [OF assms that] assms by (auto simp: bf_wf_def)
  ultimately show ?thesis using contains_bits [OF assms] by blast
qed

text \<open>Sequences of insertions and disjunctions.\<close>

datatype bloom_op = Insert "8 word list" | InsertUnSafe "8 word list" | Or BloomFilter

fun apply_bloom :: "BloomFilter \<Rightarrow> bloom_op \<Rightarrow> BloomFilter result" where
  "apply_bloom f (Insert key) = bf_insert f key"
| "apply_bloom f (InsertUnSafe key) = insertUnSafe f key"
| "apply_bloom f (Or g) = bitwiseOr f g"

fun op_fits :: "nat \<Rightarrow> bloom_op \<Rightarrow> bool" where
  "op_fits n (Or g) \<longleftrightarrow> bf_wf g \<and> array_size_in_bytes g \<le> n"
| "op_fits n _ \<longleftrightarrow> True"

lemma apply_bloom_spec:
  assumes wf: "bf_wf f" and op: "op_fits (array_size_in_bytes f) op"
  shows "\<exists>f'. apply_bloom f op = Inr f' \<and> bf_wf f' \<and> array_size_in_bytes f' = array_size_in_bytes f \<and> key_bits f' = key_bits f
    \<and> bits_of (bit_array f) \<subseteq> bits_of (bit_array f')
    \<and> (\<forall>key. op = Insert key \<or> op = InsertUnSafe key \<longrightarrow> key_bits f key \<subseteq> bits_of (bit_array f'))"
proof (cases op)
  case (Insert key)
  obtain array where "insertUnSafe f key = Inr (f\<lparr>bit_array := array, inserted_element_count := inserted_element_count f + 1\<rparr>)"
    "length array = length (bit_array f)" "bits_of array = bits_of (bit_array f) \<union> key_bits f key"
    using insertUnSafe_bits [OF wf] by blast
  then show ?thesis using Insert bf_insert_eq [OF wf, of key] wf
    by (auto simp: bf_wf_def key_bits_def pos_of_def array_size_def fun_eq_iff)
next
  case (InsertUnSafe key)
  obtain array where "insertUnSafe f key = Inr (f\<lparr>bit_array := array, inserted_element_count := inserted_element_count f + 1\<rparr>)"
    "length array = length (bit_array f)" "bits_of array = bits_of (bit_array f) \<union> key_bits f key"
    using insertUnSafe_bits [OF wf] by blast
  then show ?thesis using InsertUnSafe wf by (auto simp: bf_wf_def key_bits_def pos_of_def array_size_def fun_eq_iff)
next
  case (Or g)
  obtain array where "bitwiseOr f g = Inr (f\<lparr>bit_array := array\<rparr>)" "length array = length (bit_array f)"
    "bits_of array = bits_of (bit_array f) \<union> bits_of (bit_array g)"
    using bitwiseOr_bits [OF wf, of g] op Or by auto
  then show ?thesis using Or wf by (auto simp: bf_wf_def key_bits_def pos_of_def array_size_def fun_eq_iff)
qed

lemma bloom_run:
  assumes "bf_wf f" and "\<forall>op \<in> set ops. op_fits (array_size_in_bytes f) op"
  shows "\<exists>f'. fold_res apply_bloom f ops = Inr f' \<and> bf_wf f' \<and> key_bits f' = key_bits f \<and> bits_of (bit_array f) \<subseteq> bits_of (bit_array f')
    \<and> (\<forall>key. Insert key \<in> set ops \<or> InsertUnSafe key \<in> set ops \<longrightarrow> key_bits f key \<subseteq> bits_of (bit_array f'))"
  using assms
proof (induction ops arbitrary: f)
  case Nil
  then show ?case by simp
next
  case (Cons op ops)
  obtain f1 where f1: "apply_bloom f op = Inr f1" "bf_wf f1" "array_size_in_bytes f1 = array_size_in_bytes f" "key_bits f1 = key_bits f"
    "bits_of (bit_array f) \<subseteq> bits_of (bit_array f1)"
    "\<forall>key. op = Insert key \<or> op = InsertUnSafe key \<longrightarrow> key_bits f key \<subseteq> bits_of (bit_array f1)"
    using apply_bloom_spec [OF Cons.prems(1), of op] Cons.prems(2) by (meson list.set_intros(1))
  obtain f2 where "fold_res apply_bloom f1 ops = Inr f2" "bf_wf f2" "key_bits f2 = key_bits f1" "bits_of (bit_array f1) \<subseteq> bits_of (bit_array f2)"
    "\<forall>key. Insert key \<in> set ops \<or> InsertUnSafe key \<in> set ops \<longrightarrow> key_bits f1 key \<subseteq> bits_of (bit_array f2)"
    using Cons.IH [OF f1(2)] Cons.prems(2) f1(3) by (metis list.set_intros(2))
  then show ?case using f1 by (intro exI [of _ f2]) fastforce
qed


section \<open>Witnesses\<close>

definition example_filter :: BloomFilter where
  "example_filter = projr (new_BloomFilter 7 2 4)"

lemma example_filter_new: "new_BloomFilter 7 2 4 = Inr example_filter"
  by (simp add: example_filter_def new_BloomFilter_def generate_unique_hash_fn_def bf_reset_def Let_def)

theorem bloom_operations_correct_witness:
  "bf_contains example_filter [1, 2, 3] = Inr (key_bits example_filter [1, 2, 3] \<subseteq> bits_of (bit_array example_filter))"
  using bloom_operations_correct [of example_filter "[1, 2, 3]"] new_BloomFilter_wf [OF example_filter_new] by simp


end
