(* ===== verification/BitVectorScans.thy ===== *)
theory BitVectorScans
  imports BitVectors
begin

unbundle bit_operations_syntax

text \<open>
  Searching and counting in a bit vector: \<^verbatim>\<open>any\<close>, \<^verbatim>\<open>all\<close>, \<^verbatim>\<open>onesCount\<close>, the search for the first and the last
  one and zero, and \<^verbatim>\<open>subtractTo\<close>.  The searches skip whole words; they are shown to find exactly the
  position that a search bit by bit finds.  The disjunction of a multiple of 64 with a number below 64
  is written as a sum.
\<close>

section \<open>Operations\<close>

definition bv_any :: "BitVector \<Rightarrow> bool result" where
  "bv_any v =
     (if is_short v then
        (if num_bits v = 0 then Inr False
         else short_read v (\<lambda>w. Inr (w \<noteq> 0)) (\<lambda>w. Inr (w \<noteq> 0)) (\<lambda>w. Inr (w \<noteq> 0)))
      else and_then (read_words v) (\<lambda>ws. Inr (list_ex (\<lambda>w. w \<noteq> 0) ws)))"

text \<open>The comparison of a short vector: \<^verbatim>\<open>numeric_limits<VectorType>::max() << (w - num_bits_)\<close> has the type
  \<^verbatim>\<open>int\<close> for 8 and 16 bits, and \<^verbatim>\<open>uint32_t\<close> for 32 bits.\<close>

definition bv_all :: "BitVector \<Rightarrow> bool result" where
  "bv_all v =
     (if is_short v then
        (if num_bits v = 0 then Inr True
         else short_read v (\<lambda>w. Inr (unat w = 255 * 2 ^ (8 - num_bits v)))
           (\<lambda>w. Inr (unat w = 65535 * 2 ^ (16 - num_bits v)))
           (\<lambda>w. Inr (w = push_bit (32 - num_bits v) (- 1))))
      else and_then (read_words v) (\<lambda>ws.
        (let tail_element_bits = num_bits v mod 64 in
         and_then (fold_res (\<lambda>ok array_idx. if \<not> ok then Inr False
                      else and_then (vec_at ws array_idx) (\<lambda>w. Inr (w = - 1)))
                    True [0..<data_array_size v - (if tail_element_bits \<noteq> 0 then 1 else 0)]) (\<lambda>ok.
           if \<not> ok then Inr False
           else if tail_element_bits = 0 then Inr True
           else and_then (vec_at ws (data_array_size v - 1)) (\<lambda>w.
             Inr (w = push_bit (64 - tail_element_bits) (- 1)))))))"

definition onesCount :: "BitVector \<Rightarrow> nat result" where
  "onesCount v =
     (if is_short v then
        (if num_bits v = 0 then Inr 0
         else short_read v (\<lambda>w. Inr (population_count w)) (\<lambda>w. Inr (population_count w)) (\<lambda>w. Inr (population_count w)))
      else and_then (read_words v) (\<lambda>ws. Inr (fold (\<lambda>w n. n + population_count w) ws 0)))"

text \<open>The loop over the words of \<open>firstOne\<close> and \<open>firstZero\<close>; \<open>f\<close> is the identity or the complement.\<close>

function first_loop :: "(64 word \<Rightarrow> 64 word) \<Rightarrow> 64 word list \<Rightarrow> nat \<Rightarrow> nat option" where
  "first_loop f ws array_idx =
     (if array_idx < length ws then
        (if f (ws ! array_idx) \<noteq> 0 then Some (array_idx * 64 + leading_zero_count (f (ws ! array_idx)))
         else first_loop f ws (array_idx + 1))
      else None)"
  by pat_completeness auto
termination by (relation "measure (\<lambda>(f, ws, i). length ws - i)") auto

declare first_loop.simps [simp del]

definition firstOneShort :: "nat \<Rightarrow> nat \<Rightarrow> 'a::len word \<Rightarrow> nat" where
  "firstOneShort n position w =
     (let value = w AND drop_bit position (- 1) in if value \<noteq> 0 then leading_zero_count value else n)"

definition firstOne :: "BitVector \<Rightarrow> nat \<Rightarrow> nat result" where
  "firstOne v position =
     and_then (check CheckFailed (position < num_bits v \<or> position = 0 \<and> num_bits v = 0)) (\<lambda>_.
       if num_bits v = 0 then Inr 0
       else if is_short v then
         short_read v (\<lambda>w. Inr (firstOneShort (num_bits v) position w)) (\<lambda>w. Inr (firstOneShort (num_bits v) position w))
           (\<lambda>w. Inr (firstOneShort (num_bits v) position w))
       else and_then (read_words v) (\<lambda>ws.
         and_then (if position mod 64 \<noteq> 0 then
                     and_then (vec_at ws (position div 64)) (\<lambda>w.
                       (let value = w AND drop_bit (position mod 64) (- 1) in
                        Inr (if value \<noteq> 0 then Some (position div 64 * 64 + leading_zero_count value) else None,
                             position div 64 * 64 + 64)))
                   else Inr (None, position)) (\<lambda>(found, position').
           case found of
             Some p \<Rightarrow> Inr p
           | None \<Rightarrow> Inr (case first_loop (\<lambda>w. w) ws (position' div 64) of Some p \<Rightarrow> p | None \<Rightarrow> num_bits v))))"

definition firstZeroShort :: "nat \<Rightarrow> nat \<Rightarrow> 'a::len word \<Rightarrow> nat" where
  "firstZeroShort n position w =
     (let value = NOT (w OR (if position \<noteq> 0 then push_bit (LENGTH('a) - position) (- 1) else 0)) in
      if value \<noteq> 0 then leading_zero_count value else n)"

definition firstZero :: "BitVector \<Rightarrow> nat \<Rightarrow> nat result" where
  "firstZero v position =
     and_then (check CheckFailed (position < num_bits v \<or> position = 0 \<and> num_bits v = 0)) (\<lambda>_.
       if num_bits v = 0 then Inr 0
       else if is_short v then
         short_read v (\<lambda>w. Inr (firstZeroShort (num_bits v) position w)) (\<lambda>w. Inr (firstZeroShort (num_bits v) position w))
           (\<lambda>w. Inr (firstZeroShort (num_bits v) position w))
       else and_then (read_words v) (\<lambda>ws.
         and_then (if position mod 64 \<noteq> 0 then
                     and_then (vec_at ws (position div 64)) (\<lambda>w.
                       (let value = NOT (w OR push_bit (64 - position mod 64) (- 1)) in
                        Inr (if value \<noteq> 0 then Some (position div 64 * 64 + leading_zero_count value) else None,
                             position div 64 * 64 + 64)))
                   else Inr (None, position)) (\<lambda>(found, position').
           case found of
             Some p \<Rightarrow> Inr p
           | None \<Rightarrow> Inr (case first_loop (\<lambda>w. NOT w) ws (position' div 64) of Some p \<Rightarrow> p | None \<Rightarrow> num_bits v))))"

text \<open>The backward loop of \<open>lastOne\<close> and \<open>lastZero\<close>, with its check of the first element.\<close>

fun last_loop :: "(64 word \<Rightarrow> 64 word) \<Rightarrow> 64 word list \<Rightarrow> nat \<Rightarrow> nat option result" where
  "last_loop f ws 0 =
     and_then (vec_at ws 0) (\<lambda>w. Inr (if f w \<noteq> 0 then Some (64 - trailing_zero_count (f w) - 1) else None))"
| "last_loop f ws (Suc i) =
     and_then (vec_at ws (Suc i)) (\<lambda>w.
       if f w \<noteq> 0 then Inr (Some ((Suc i + 1) * 64 - trailing_zero_count (f w) - 1)) else last_loop f ws i)"

definition lastOneShort :: "nat \<Rightarrow> nat \<Rightarrow> 'a::len word \<Rightarrow> nat" where
  "lastOneShort n position w =
     (let value = w AND push_bit (LENGTH('a) - position) (- 1) in
      if value \<noteq> 0 then LENGTH('a) - 1 - trailing_zero_count value else n)"

text \<open>\<open>SIZE_T_MAX\<close>, the default argument, stands for the size.\<close>

definition kSizeTMax :: nat where
  "kSizeTMax = 2 ^ 64 - 1"

definition lastOne :: "BitVector \<Rightarrow> nat \<Rightarrow> nat result" where
  "lastOne v position0 =
     (let position = (if position0 = kSizeTMax then num_bits v else position0) in
      and_then (check CheckFailed (position \<le> num_bits v)) (\<lambda>_.
        if position = 0 then Inr (num_bits v)
        else if is_short v then
          short_read v (\<lambda>w. Inr (lastOneShort (num_bits v) position w)) (\<lambda>w. Inr (lastOneShort (num_bits v) position w))
            (\<lambda>w. Inr (lastOneShort (num_bits v) position w))
        else and_then (read_words v) (\<lambda>ws.
          (let array_idx = (position - 1) div 64;
               last = (\<lambda>idx. and_then (last_loop (\<lambda>w. w) ws idx) (\<lambda>r. Inr (case r of Some p \<Rightarrow> p | None \<Rightarrow> num_bits v))) in
           if position mod 64 \<noteq> 0 then
             and_then (vec_at ws array_idx) (\<lambda>w.
               (let value = w AND push_bit (64 - position mod 64) (- 1) in
                if value \<noteq> 0 then Inr ((array_idx + 1) * 64 - trailing_zero_count value - 1)
                else if array_idx \<noteq> 0 then last (array_idx - 1) else Inr (num_bits v)))
           else last array_idx))))"

definition lastZeroShort :: "nat \<Rightarrow> nat \<Rightarrow> 'a::len word \<Rightarrow> nat" where
  "lastZeroShort n position w =
     (let value = NOT (w OR NOT (push_bit (LENGTH('a) - position) (- 1))) in
      if value \<noteq> 0 then LENGTH('a) - 1 - trailing_zero_count value else n)"

definition lastZero :: "BitVector \<Rightarrow> nat \<Rightarrow> nat result" where
  "lastZero v position0 =
     (let position = (if position0 = kSizeTMax then num_bits v else position0) in
      and_then (check CheckFailed (position \<le> num_bits v)) (\<lambda>_.
        if position = 0 then Inr (num_bits v)
        else if is_short v then
          short_read v (\<lambda>w. Inr (lastZeroShort (num_bits v) position w)) (\<lambda>w. Inr (lastZeroShort (num_bits v) position w))
            (\<lambda>w. Inr (lastZeroShort (num_bits v) position w))
        else and_then (read_words v) (\<lambda>ws.
          (let array_idx = (position - 1) div 64;
               last = (\<lambda>idx. and_then (last_loop (\<lambda>w. NOT w) ws idx) (\<lambda>r. Inr (case r of Some p \<Rightarrow> p | None \<Rightarrow> num_bits v))) in
           if position mod 64 \<noteq> 0 then
             and_then (vec_at ws array_idx) (\<lambda>w.
               (let value = NOT (w OR NOT (push_bit (64 - position mod 64) (- 1))) in
                if value \<noteq> 0 then Inr ((array_idx + 1) * 64 - trailing_zero_count value - 1)
                else if array_idx \<noteq> 0 then last (array_idx - 1) else Inr (num_bits v)))
           else last array_idx))))"

text \<open>\<^verbatim>\<open>subtractTo\<close> appends positions to a vector of \<^verbatim>\<open>int\<close>, which truncates them.\<close>

definition to_int32 :: "nat \<Rightarrow> int" where
  "to_int32 n = (int n + 2 ^ 31) mod 2 ^ 32 - 2 ^ 31"

lemma clear_first_one:
  assumes "w \<noteq> 0"
  shows "top_bit (w XOR drop_bit (leading_zero_count w) TopBit) i = (i \<noteq> leading_zero_count w \<and> top_bit (w :: 'a::len word) i)"
  using leading_zero_count_first [OF assms] by auto

lemma population_count_clear:
  assumes "w \<noteq> 0"
  shows "population_count (w XOR drop_bit (leading_zero_count w) TopBit) < population_count (w :: 'a::len word)"
proof -
  have fin: "finite {i. top_bit w i}" by (rule finite_subset [of _ "{..<LENGTH('a)}"]) (auto dest: top_bit_less)
  have "{i. top_bit (w XOR drop_bit (leading_zero_count w) TopBit) i} \<subset> {i. top_bit w i}"
    unfolding clear_first_one [OF assms] using leading_zero_count_first(1) [OF assms] by blast
  then show ?thesis unfolding population_count_top by (rule psubset_card_mono [OF fin])
qed

function extract_ones :: "nat \<Rightarrow> 64 word \<Rightarrow> int list" where
  "extract_ones base value =
     (if value \<noteq> 0 then
        (let offset = leading_zero_count value in
         to_int32 (base + offset) # extract_ones base (value XOR drop_bit offset TopBit))
      else [])"
  by pat_completeness auto
termination
  by (relation "measure (\<lambda>(base, w). population_count w)") (simp_all add: population_count_clear)

declare extract_ones.simps [simp del]

definition subtractTo :: "BitVector \<Rightarrow> BitVector \<Rightarrow> int list \<Rightarrow> int list result" where
  "subtractTo v other output =
     and_then (check CheckFailed (\<not> enable_short_version v)) (\<lambda>_.
     and_then (read_words v) (\<lambda>ws. and_then (read_words other) (\<lambda>us.
       fold_res (\<lambda>output array_idx.
           and_then (vec_at ws array_idx) (\<lambda>a. and_then (vec_at us array_idx) (\<lambda>b.
             Inr (output @ extract_ones (array_idx * 64) (a AND NOT b)))))
         output [0..<data_array_size v])))"

section \<open>Reference searches\<close>

text \<open>The search bit by bit; the default is returned when there is no such position.\<close>

definition first_from :: "(nat \<Rightarrow> bool) \<Rightarrow> nat \<Rightarrow> nat \<Rightarrow> nat" where
  "first_from P p n = (case find P [p..<n] of Some i \<Rightarrow> i | None \<Rightarrow> n)"

definition last_before :: "(nat \<Rightarrow> bool) \<Rightarrow> nat \<Rightarrow> nat \<Rightarrow> nat" where
  "last_before P p n = (case find P (rev [0..<p]) of Some i \<Rightarrow> i | None \<Rightarrow> n)"

lemma find_append_none: "(\<And>y. y \<in> set ys \<Longrightarrow> \<not> P y) \<Longrightarrow> find P (ys @ xs) = find P xs"
  by (induction ys) auto

lemma first_from_eq:
  assumes "p \<le> r" and "r \<le> n" and "r < n \<Longrightarrow> P r" and "\<And>j. p \<le> j \<Longrightarrow> j < r \<Longrightarrow> \<not> P j"
  shows "first_from P p n = r"
proof -
  have u: "[p..<n] = [p..<r] @ [r..<n]" using assms(1,2) by (metis le_Suc_ex upt_add_eq_append)
  have f: "find P [p..<n] = find P [r..<n]" unfolding u using assms(4) by (intro find_append_none) auto
  show ?thesis
  proof (cases "r < n")
    case True
    then show ?thesis using f assms(3) by (simp add: first_from_def upt_conv_Cons)
  qed (use f assms(2) in \<open>simp add: first_from_def\<close>)
qed

lemma last_before_eq:
  assumes "r < p" and "P r" and "\<And>j. r < j \<Longrightarrow> j < p \<Longrightarrow> \<not> P j"
  shows "last_before P p n = r"
proof -
  have "find P (rev [0..<p]) = Some r" using assms
  proof (induction p)
    case (Suc p)
    then show ?case by (cases "p = r") auto
  qed simp
  then show ?thesis by (simp add: last_before_def)
qed

lemma last_before_none:
  assumes "\<And>j. j < p \<Longrightarrow> \<not> P j"
  shows "last_before P p n = n"
proof -
  have "find P (rev [0..<p]) = None" using assms by (simp add: find_None_iff)
  then show ?thesis by (simp add: last_before_def)
qed

section \<open>Forward searches\<close>

lemma search_word:
  fixes w :: "'a::len word"
  assumes w: "\<And>j. j < LENGTH('a) \<Longrightarrow> top_bit w j = (p \<le> j \<and> P j)"
    and n: "n \<le> LENGTH('a)" "p \<le> n" and bound: "\<And>r. P r \<Longrightarrow> n < r \<Longrightarrow> r < LENGTH('a) \<Longrightarrow> P n"
  shows "(if w \<noteq> 0 then leading_zero_count w else n) = first_from P p n"
proof (cases "w = 0")
  case True
  have "\<not> P j" if "p \<le> j" "j < n" for j using that True w [of j] n by auto
  then show ?thesis using True first_from_eq [of p n n P] n by simp
next
  case False
  let ?r = "leading_zero_count w"
  note L = leading_zero_count_first [OF False]
  have r: "p \<le> ?r" "P ?r" using L(1,3) w by auto
  have min: "\<not> P j" if "p \<le> j" "j < ?r" for j using that w [of j] L(2) [of j] L(3) by auto
  have "?r \<le> n" using bound [OF r(2) _ L(3)] min n(2) by (meson not_le)
  then show ?thesis using False first_from_eq [of p ?r n P] r min by simp
qed

lemma first_loop_spec:
  assumes "\<And>k j. k < length ws \<Longrightarrow> j < 64 \<Longrightarrow> top_bit (f (ws ! k)) j = P (64 * k + j)"
  shows "case first_loop f ws k of
      Some r \<Rightarrow> 64 * k \<le> r \<and> r < 64 * length ws \<and> P r \<and> (\<forall>j. 64 * k \<le> j \<longrightarrow> j < r \<longrightarrow> \<not> P j)
    | None \<Rightarrow> \<forall>j. 64 * k \<le> j \<longrightarrow> j < 64 * length ws \<longrightarrow> \<not> P j"
  using assms
proof (induction f ws k rule: first_loop.induct)
  case (1 f ws k)
  show ?case
  proof (cases "k < length ws")
    case k: True
    note B = 1(2) [OF k]
    show ?thesis
    proof (cases "f (ws ! k) = 0")
      case True
      then have none: "\<not> P j" if "64 * k \<le> j" "j < 64 * k + 64" for j
        using B [of "j - 64 * k"] that by auto
      have ih: "case first_loop f ws (k + 1) of
          Some r \<Rightarrow> 64 * (k + 1) \<le> r \<and> r < 64 * length ws \<and> P r \<and> (\<forall>j. 64 * (k + 1) \<le> j \<longrightarrow> j < r \<longrightarrow> \<not> P j)
        | None \<Rightarrow> \<forall>j. 64 * (k + 1) \<le> j \<longrightarrow> j < 64 * length ws \<longrightarrow> \<not> P j"
        using 1(1) [OF k _ 1(2)] True by simp
      have step: "first_loop f ws k = first_loop f ws (k + 1)" using k True by (simp add: first_loop.simps)
      have split: "\<not> P j" if "64 * k \<le> j" "64 * (k + 1) \<le> j \<Longrightarrow> \<not> P j" for j
        using that none [of j] by (cases "j < 64 * k + 64") auto
      show ?thesis
      proof (cases "first_loop f ws (k + 1)")
        case None
        then have late: "\<And>j. 64 * (k + 1) \<le> j \<Longrightarrow> j < 64 * length ws \<Longrightarrow> \<not> P j" using ih by simp
        have "\<not> P j" if "64 * k \<le> j" "j < 64 * length ws" for j by (rule split [OF that(1)], rule late, assumption, rule that(2))
        then show ?thesis unfolding step None by simp
      next
        case (Some r)
        then have r: "64 * (k + 1) \<le> r" "r < 64 * length ws" "P r"
          and late: "\<And>j. 64 * (k + 1) \<le> j \<Longrightarrow> j < r \<Longrightarrow> \<not> P j" using ih by simp_all
        have "\<not> P j" if "64 * k \<le> j" "j < r" for j by (rule split [OF that(1)], rule late, assumption, rule that(2))
        then show ?thesis using r unfolding step Some by simp
      qed
    next
      case False
      note L = leading_zero_count_first [OF False]
      let ?z = "leading_zero_count (f (ws ! k))"
      have z: "?z < 64" using L(3) by simp
      have "\<not> P j" if "64 * k \<le> j" "j < k * 64 + ?z" for j
        using that B [of "j - 64 * k"] L(2) [of "j - 64 * k"] z by auto
      moreover have "P (k * 64 + ?z)" using B [OF z] L(1) by (simp add: mult.commute)
      moreover have "first_loop f ws k = Some (k * 64 + ?z)" using k False by (simp add: first_loop.simps)
      ultimately show ?thesis using k z by auto
    qed
  qed (simp add: first_loop.simps)
qed

lemma search_words:
  assumes B: "\<And>k j. k < length ws \<Longrightarrow> j < 64 \<Longrightarrow> top_bit (f (ws ! k)) j = P (64 * k + j)"
    and n: "n \<le> 64 * length ws" "p < n" and bound: "\<And>r. P r \<Longrightarrow> n < r \<Longrightarrow> r < 64 * length ws \<Longrightarrow> P n"
    and val: "p mod 64 \<noteq> 0 \<Longrightarrow> (\<And>j. j < 64 \<Longrightarrow> top_bit (w :: 64 word) j = (p mod 64 \<le> j \<and> P (64 * (p div 64) + j)))"
  shows "(if p mod 64 \<noteq> 0 \<and> w \<noteq> 0 then p div 64 * 64 + leading_zero_count w
      else case first_loop f ws ((if p mod 64 \<noteq> 0 then p div 64 * 64 + 64 else p) div 64) of Some r \<Rightarrow> r | None \<Rightarrow> n)
    = first_from P p n"
proof (rule split64 [of p])
  fix q r assume p: "p = 64 * q + r" "r < 64" "p div 64 = q" "p mod 64 = r"
  have le_n: "x \<le> n" if "P x" "x < 64 * length ws" "\<And>j. p \<le> j \<Longrightarrow> j < x \<Longrightarrow> \<not> P j" for x
    using bound [OF that(1) _ that(2)] that(3) [of n] n(2) by (meson less_imp_le not_le)
  show ?thesis
  proof (cases "r \<noteq> 0 \<and> w \<noteq> 0")
    case True
    note L = leading_zero_count_first [OF conjunct2 [OF True]] and V = val [unfolded p(3,4)]
    let ?z = "leading_zero_count w"
    have z: "?z < 64" "r \<le> ?z" "P (64 * q + ?z)" using L(1,3) V True by auto
    have min: "\<not> P j" if "p \<le> j" "j < 64 * q + ?z" for j
      using that V [of "j - 64 * q"] L(2) [of "j - 64 * q"] True p(1) z(1) by auto
    have "q < length ws" using n p by auto
    then have "64 * q + ?z < 64 * length ws" using z(1) by auto
    then have "64 * q + ?z \<le> n" using le_n z(3) min by blast
    then show ?thesis using True p z min first_from_eq [of p "64 * q + ?z" n P] by (simp add: mult.commute)
  next
    case False
    let ?k = "(if r \<noteq> 0 then q * 64 + 64 else p) div 64"
    have none: "\<not> P j" if "p \<le> j" "j < 64 * ?k" for j
    proof (cases "r = 0")
      case True
      then show ?thesis using that p by simp
    next
      case r: False
      then have "?k = q + 1" by simp
      then show ?thesis using val [unfolded p(3,4), of "j - 64 * q"] r False that p(1) by auto
    qed
    have k: "p \<le> 64 * ?k" using p by auto
    note S = first_loop_spec [of ws f P ?k, OF B]
    show ?thesis
    proof (cases "first_loop f ws ?k")
      case None
      have "\<not> P j" if "p \<le> j" "j < n" for j using that none [of j] S None n(1) by (cases "j < 64 * ?k") auto
      then have "first_from P p n = n" using first_from_eq [of p n n P] n(2) by simp
      then show ?thesis unfolding p(3,4) if_not_P [OF False] None by simp
    next
      case (Some x)
      have x: "64 * ?k \<le> x" "x < 64 * length ws" "P x" "\<forall>j. 64 * ?k \<le> j \<longrightarrow> j < x \<longrightarrow> \<not> P j"
        using S Some by auto
      have min: "\<not> P j" if "p \<le> j" "j < x" for j using that none [of j] x(4) by (cases "j < 64 * ?k") auto
      have "x \<le> n" using le_n x(2,3) min by blast
      then have "first_from P p n = x" using first_from_eq [of p x n P] x(1,3) min k by simp
      then show ?thesis unfolding p(3,4) if_not_P [OF False] Some by simp
    qed
  qed
qed

lemma bits_of_words:
  assumes "bv_inv v" and "\<not> is_short v"
  obtains ws where "read_words v = Inr ws" "length ws = data_array_size v" "bits v = words_bit ws"
    "num_bits v \<le> 64 * length ws" "\<And>k j. k < length ws \<Longrightarrow> j < 64 \<Longrightarrow> top_bit (ws ! k) j = bits v (64 * k + j)"
proof -
  obtain ws where ws: "read_words v = Inr ws" "length ws = data_array_size v" "bits v = words_bit ws"
    using regular_words [OF assms] .
  then show ?thesis using that [of ws] num_bits_le_size [of v] by (simp add: words_bit_nth mult.commute)
qed

lemma firstOneShort_spec:
  assumes "n \<le> LENGTH('a)" and "p \<le> n" and "\<And>i. n \<le> i \<Longrightarrow> \<not> top_bit w i"
  shows "firstOneShort n p (w :: 'a::len word) = first_from (top_bit w) p n"
  unfolding firstOneShort_def Let_def by (rule search_word) (use assms in auto)

lemma firstZeroShort_spec:
  assumes "n \<le> LENGTH('a)" and "p \<le> n" and "\<And>i. n \<le> i \<Longrightarrow> \<not> top_bit w i"
  shows "firstZeroShort n p (w :: 'a::len word) = first_from (\<lambda>i. \<not> top_bit w i) p n"
  unfolding firstZeroShort_def Let_def
proof (rule search_word)
  fix j assume "j < LENGTH('a)"
  then show "top_bit (NOT (w OR (if p \<noteq> 0 then push_bit (LENGTH('a) - p) (- 1) else 0))) j = (p \<le> j \<and> \<not> top_bit w j)"
    using assms(1,2) by (simp del: push_bit_minus_one) auto
qed (use assms in auto)

lemma firstOne_spec:
  assumes inv: "bv_inv v" and p: "p < num_bits v"
  shows "firstOne v p = Inr (first_from (bits v) p (num_bits v))"
proof (cases "is_short v")
  case True
  have "short_read v (\<lambda>w. Inr (firstOneShort (num_bits v) p w)) (\<lambda>w. Inr (firstOneShort (num_bits v) p w))
      (\<lambda>w. Inr (firstOneShort (num_bits v) p w)) = Inr (first_from (bits v) p (num_bits v))"
    using p bv_inv_beyond [OF inv] by (intro short_read_eq [OF inv True]) (auto simp: firstOneShort_spec)
  with True p show ?thesis by (simp add: firstOne_def)
next
  case False
  obtain ws where ws: "read_words v = Inr ws" "length ws = data_array_size v" "bits v = words_bit ws"
    "num_bits v \<le> 64 * length ws" "\<And>k j. k < length ws \<Longrightarrow> j < 64 \<Longrightarrow> top_bit (ws ! k) j = bits v (64 * k + j)"
    using bits_of_words [OF inv False] by blast
  let ?w = "ws ! (p div 64) AND drop_bit (p mod 64) (- 1)"
  have idx: "p div 64 < length ws" using index_in_size [OF p] ws(2) by simp
  have "(if p mod 64 \<noteq> 0 \<and> ?w \<noteq> 0 then p div 64 * 64 + leading_zero_count ?w
      else case first_loop (\<lambda>w. w) ws ((if p mod 64 \<noteq> 0 then p div 64 * 64 + 64 else p) div 64) of Some r \<Rightarrow> r | None \<Rightarrow> num_bits v)
    = first_from (bits v) p (num_bits v)"
    using bv_inv_beyond [OF inv] idx by (intro search_words [OF ws(5) ws(4) p]) (auto simp: ws(5))
  then show ?thesis using not_short [OF inv False] p ws(1) idx
    by (auto simp: firstOne_def Let_def split: if_splits)
qed

lemma firstZero_spec:
  assumes inv: "bv_inv v" and p: "p < num_bits v"
  shows "firstZero v p = Inr (first_from (\<lambda>i. \<not> bits v i) p (num_bits v))"
proof (cases "is_short v")
  case True
  have "short_read v (\<lambda>w. Inr (firstZeroShort (num_bits v) p w)) (\<lambda>w. Inr (firstZeroShort (num_bits v) p w))
      (\<lambda>w. Inr (firstZeroShort (num_bits v) p w)) = Inr (first_from (\<lambda>i. \<not> bits v i) p (num_bits v))"
    using p bv_inv_beyond [OF inv] by (intro short_read_eq [OF inv True]) (auto simp: firstZeroShort_spec)
  with True p show ?thesis by (simp add: firstZero_def)
next
  case False
  obtain ws where ws: "read_words v = Inr ws" "length ws = data_array_size v" "bits v = words_bit ws"
    "num_bits v \<le> 64 * length ws" "\<And>k j. k < length ws \<Longrightarrow> j < 64 \<Longrightarrow> top_bit (ws ! k) j = bits v (64 * k + j)"
    using bits_of_words [OF inv False] by blast
  let ?w = "NOT (ws ! (p div 64) OR push_bit (64 - p mod 64) (- 1))"
  have idx: "p div 64 < length ws" using index_in_size [OF p] ws(2) by simp
  have B: "top_bit (NOT (ws ! k)) j = (\<not> bits v (64 * k + j))" if "k < length ws" "j < 64" for k j
    using ws(5) that by simp
  have m: "top_bit (push_bit (64 - p mod 64) (- 1 :: 64 word)) j \<longleftrightarrow> j < p mod 64" for j
    using top_bit_push_minus1 [where 'a=64, of "p mod 64" j] by (simp del: push_bit_minus_one)
  have "(if p mod 64 \<noteq> 0 \<and> ?w \<noteq> 0 then p div 64 * 64 + leading_zero_count ?w
      else case first_loop (\<lambda>w. NOT w) ws ((if p mod 64 \<noteq> 0 then p div 64 * 64 + 64 else p) div 64) of Some r \<Rightarrow> r | None \<Rightarrow> num_bits v)
    = first_from (\<lambda>i. \<not> bits v i) p (num_bits v)"
    using bv_inv_beyond [OF inv] idx
    by (intro search_words [OF B ws(4) p]) (auto simp: ws(5) m simp del: push_bit_minus_one)
  then show ?thesis using not_short [OF inv False] p ws(1) idx
    by (auto simp: firstZero_def Let_def simp del: push_bit_minus_one split: if_splits)
qed

section \<open>Backward searches\<close>

lemma search_word_last:
  fixes w :: "'a::len word"
  assumes w: "\<And>j. j < LENGTH('a) \<Longrightarrow> top_bit w j = (j < p \<and> P j)" and p: "p \<le> LENGTH('a)"
  shows "(if w \<noteq> 0 then LENGTH('a) - 1 - trailing_zero_count w else n) = last_before P p n"
proof (cases "w = 0")
  case True
  have "\<not> P j" if "j < p" for j using that True w [of j] p by auto
  then show ?thesis using True last_before_none [of p P n] by simp
next
  case False
  let ?r = "LENGTH('a) - 1 - trailing_zero_count w"
  note T = trailing_zero_count_last [OF False]
  have r: "?r < p" "P ?r" using T(2) w [of ?r] top_bit_less [OF T(2)] by auto
  have "\<not> P j" if "?r < j" "j < p" for j using that w [of j] T(3) [of j] p by auto
  then show ?thesis using False last_before_eq [of ?r p P n] r by simp
qed

lemma last_word:
  assumes "\<And>j. j < 64 \<Longrightarrow> top_bit (w :: 64 word) j = (64 * k + j < p \<and> P (64 * k + j))" and "w \<noteq> 0" and "p \<le> 64 * k + 64"
  shows "last_before P p n = (k + 1) * 64 - trailing_zero_count w - 1"
proof -
  note T = trailing_zero_count_last [OF assms(2)]
  let ?r = "63 - trailing_zero_count w"
  have l: "trailing_zero_count w < 64" using T(1) by simp
  have r: "64 * k + ?r < p" "P (64 * k + ?r)" using T(2) assms(1) [of ?r] by auto
  have "\<not> P j" if "64 * k + ?r < j" "j < p" for j
    using that assms(1) [of "j - 64 * k"] T(3) [of "j - 64 * k"] assms(3) by auto
  then have "last_before P p n = 64 * k + ?r" using last_before_eq [of "64 * k + ?r" p P n] r by simp
  also have "\<dots> = (k + 1) * 64 - trailing_zero_count w - 1" using l by simp
  finally show ?thesis .
qed

lemma last_before_skip: "(\<And>j. m \<le> j \<Longrightarrow> j < p \<Longrightarrow> \<not> P j) \<Longrightarrow> m \<le> p \<Longrightarrow> last_before P p n = last_before P m n"
proof (induction p)
  case (Suc p)
  then show ?case
  proof (cases "m = Suc p")
    case False
    then have "last_before P (Suc p) n = last_before P p n" using Suc.prems by (simp add: last_before_def)
    then show ?thesis using Suc False by simp
  qed simp
qed simp

lemma last_loop_spec:
  assumes "\<And>k j. k < length ws \<Longrightarrow> j < 64 \<Longrightarrow> top_bit (f (ws ! k)) j = P (64 * k + j)" and "k < length ws"
  shows "\<exists>r. last_loop f ws k = Inr r \<and> (case r of Some x \<Rightarrow> x | None \<Rightarrow> n) = last_before P (64 * k + 64) n"
  using assms(2)
proof (induction k)
  case 0
  have B: "top_bit (f (ws ! 0)) j = (64 * 0 + j < 64 \<and> P (64 * 0 + j))" if "j < 64" for j
    using assms(1) [OF 0 that] that by simp
  show ?case
  proof (cases "f (ws ! 0) = 0")
    case True
    have "\<not> P j" if "j < 64" for j using that True B [of j] by simp
    then show ?thesis using True 0 last_before_none [of 64 P n] by simp
  next
    case False
    have "last_before P 64 n = (0 + 1) * 64 - trailing_zero_count (f (ws ! 0)) - 1"
      by (rule last_word [OF B False]) simp_all
    then show ?thesis using False 0 by simp
  qed
next
  case (Suc k)
  have B: "top_bit (f (ws ! Suc k)) j = (64 * Suc k + j < 64 * Suc k + 64 \<and> P (64 * Suc k + j))" if "j < 64" for j
    using assms(1) [OF Suc.prems that] that by simp
  show ?case
  proof (cases "f (ws ! Suc k) = 0")
    case True
    have "\<not> P j" if "64 * k + 64 \<le> j" "j < 64 * Suc k + 64" for j
      using that True B [of "j - 64 * Suc k"] by auto
    then have "last_before P (64 * Suc k + 64) n = last_before P (64 * k + 64) n"
      by (rule last_before_skip) simp_all
    then show ?thesis using True Suc by simp
  next
    case False
    have "last_before P (64 * Suc k + 64) n = (Suc k + 1) * 64 - trailing_zero_count (f (ws ! Suc k)) - 1"
      by (rule last_word [OF B False]) simp_all
    then show ?thesis using False Suc.prems by simp
  qed
qed

lemma search_words_last:
  assumes B: "\<And>k j. k < length ws \<Longrightarrow> j < 64 \<Longrightarrow> top_bit (f (ws ! k)) j = P (64 * k + j)"
    and p: "0 < p" "p \<le> 64 * length ws"
    and val: "\<And>j. j < 64 \<Longrightarrow> top_bit (g (ws ! ((p - 1) div 64)) :: 64 word) j = (j < p mod 64 \<and> P (64 * ((p - 1) div 64) + j))"
  shows "(let array_idx = (p - 1) div 64;
         last = (\<lambda>idx. and_then (last_loop f ws idx) (\<lambda>r. Inr (case r of Some p \<Rightarrow> p | None \<Rightarrow> n))) in
       if p mod 64 \<noteq> 0 then
         and_then (vec_at ws array_idx) (\<lambda>w. (let value = g w in
           if value \<noteq> 0 then Inr ((array_idx + 1) * 64 - trailing_zero_count value - 1)
           else if array_idx \<noteq> 0 then last (array_idx - 1) else Inr n))
       else last array_idx) = Inr (last_before P p n)"
proof (rule split64 [of p])
  fix q r assume q: "p = 64 * q + r" "r < 64" "p div 64 = q" "p mod 64 = r"
  have L: "and_then (last_loop f ws k) (\<lambda>r. Inr (case r of Some p \<Rightarrow> p | None \<Rightarrow> n)) = Inr (last_before P (64 * k + 64) n)"
    if "k < length ws" for k using last_loop_spec [OF B that, of n] by auto
  show ?thesis
  proof (cases "r = 0")
    case True
    then obtain k where k: "q = Suc k" using p(1) q(1) by (cases q) auto
    then have "(p - 1) div 64 = k" "p = 64 * k + 64" using q(1) True by auto
    then show ?thesis using L [of k] p(2) q(4) True by simp
  next
    case False
    then have i: "(p - 1) div 64 = q" using q(1,2) by auto
    have l: "q < length ws" using p(2) q(1) False by simp
    note V = val [unfolded i q(4)]
    show ?thesis
    proof (cases "g (ws ! q) = 0")
      case True
      have none: "\<not> P j" if "64 * q \<le> j" "j < p" for j using that V [of "j - 64 * q"] True q(1,2) by auto
      show ?thesis
      proof (cases q)
        case 0
        then have "last_before P p n = n" using none last_before_none [of p P n] by simp
        then show ?thesis unfolding Let_def i q(4) using False True 0 l by simp
      next
        case (Suc k)
        have "last_before P p n = last_before P (64 * k + 64) n"
          by (rule last_before_skip) (use none Suc q(1) in auto)
        then show ?thesis unfolding Let_def i q(4) using False True Suc l L [of k] by simp
      qed
    next
      case nz: False
      have "last_before P p n = (q + 1) * 64 - trailing_zero_count (g (ws ! q)) - 1"
        by (rule last_word [of "g (ws ! q)" q p P]) (use V nz q(1,2) in auto)
      then show ?thesis unfolding Let_def i q(4) using False nz l by simp
    qed
  qed
qed

lemma lastOneShort_spec:
  assumes "p \<le> LENGTH('a)"
  shows "lastOneShort n p (w :: 'a::len word) = last_before (top_bit w) p n"
  unfolding lastOneShort_def Let_def by (rule search_word_last) (use assms in \<open>auto simp del: push_bit_minus_one\<close>)

lemma lastZeroShort_spec:
  assumes "p \<le> LENGTH('a)"
  shows "lastZeroShort n p (w :: 'a::len word) = last_before (\<lambda>i. \<not> top_bit w i) p n"
  unfolding lastZeroShort_def Let_def by (rule search_word_last) (use assms in \<open>auto simp del: push_bit_minus_one\<close>)

lemma lastOne_spec:
  assumes inv: "bv_inv v" and p: "p \<le> num_bits v" and "p \<noteq> kSizeTMax"
  shows "lastOne v p = Inr (last_before (bits v) p (num_bits v))"
proof (cases "p = 0")
  case True
  then show ?thesis using assms last_before_none [of 0 "bits v" "num_bits v"] by (simp add: lastOne_def)
next
  case p0: False
  show ?thesis
  proof (cases "is_short v")
    case True
    have "short_read v (\<lambda>w. Inr (lastOneShort (num_bits v) p w)) (\<lambda>w. Inr (lastOneShort (num_bits v) p w))
        (\<lambda>w. Inr (lastOneShort (num_bits v) p w)) = Inr (last_before (bits v) p (num_bits v))"
      using p by (intro short_read_eq [OF inv True]) (auto simp: lastOneShort_spec)
    with True p p0 assms(3) show ?thesis by (simp add: lastOne_def)
  next
    case False
    obtain ws where ws: "read_words v = Inr ws" "length ws = data_array_size v" "bits v = words_bit ws"
      "num_bits v \<le> 64 * length ws" "\<And>k j. k < length ws \<Longrightarrow> j < 64 \<Longrightarrow> top_bit (ws ! k) j = bits v (64 * k + j)"
      using bits_of_words [OF inv False] by blast
    have idx: "(p - 1) div 64 < length ws" using index_in_size [of "p - 1" v] p p0 ws(2) by simp
    have m: "top_bit (push_bit (64 - p mod 64) (- 1 :: 64 word)) j \<longleftrightarrow> j < p mod 64" for j
      using top_bit_push_minus1 [where 'a=64, of "p mod 64" j] by (simp del: push_bit_minus_one)
    note S = search_words_last [of ws "\<lambda>w. w" "bits v" p "\<lambda>w. w AND push_bit (64 - p mod 64) (- 1)" "num_bits v", OF ws(5)]
    show ?thesis using S p p0 ws(1,4,5) idx assms(3) not_short [OF inv False] m
      by (auto simp: lastOne_def simp del: push_bit_minus_one)
  qed
qed

lemma lastZero_spec:
  assumes inv: "bv_inv v" and p: "p \<le> num_bits v" and "p \<noteq> kSizeTMax"
  shows "lastZero v p = Inr (last_before (\<lambda>i. \<not> bits v i) p (num_bits v))"
proof (cases "p = 0")
  case True
  then show ?thesis using assms last_before_none [of 0 "\<lambda>i. \<not> bits v i" "num_bits v"] by (simp add: lastZero_def)
next
  case p0: False
  show ?thesis
  proof (cases "is_short v")
    case True
    have "short_read v (\<lambda>w. Inr (lastZeroShort (num_bits v) p w)) (\<lambda>w. Inr (lastZeroShort (num_bits v) p w))
        (\<lambda>w. Inr (lastZeroShort (num_bits v) p w)) = Inr (last_before (\<lambda>i. \<not> bits v i) p (num_bits v))"
      using p by (intro short_read_eq [OF inv True]) (auto simp: lastZeroShort_spec)
    with True p p0 assms(3) show ?thesis by (simp add: lastZero_def)
  next
    case False
    obtain ws where ws: "read_words v = Inr ws" "length ws = data_array_size v" "bits v = words_bit ws"
      "num_bits v \<le> 64 * length ws" "\<And>k j. k < length ws \<Longrightarrow> j < 64 \<Longrightarrow> top_bit (ws ! k) j = bits v (64 * k + j)"
      using bits_of_words [OF inv False] by blast
    have idx: "(p - 1) div 64 < length ws" using index_in_size [of "p - 1" v] p p0 ws(2) by simp
    have m: "top_bit (push_bit (64 - p mod 64) (- 1 :: 64 word)) j \<longleftrightarrow> j < p mod 64" for j
      using top_bit_push_minus1 [where 'a=64, of "p mod 64" j] by (simp del: push_bit_minus_one)
    have B: "top_bit (NOT (ws ! k)) j = (\<not> bits v (64 * k + j))" if "k < length ws" "j < 64" for k j
      using ws(5) that by simp
    note S = search_words_last [of ws "\<lambda>w. NOT w" "\<lambda>i. \<not> bits v i" p
        "\<lambda>w. NOT (w OR NOT (push_bit (64 - p mod 64) (- 1)))" "num_bits v", OF B]
    show ?thesis using S p p0 ws(1,4,5) idx assms(3) not_short [OF inv False] m
      by (auto simp: lastZero_def simp del: push_bit_minus_one)
  qed
qed

text \<open>C29. The searches are correct: on every vector, the search for the first one or zero from a position on
  and the search for the last one or zero before a position give what a search bit by bit gives,
  and the size of the vector when there is none.\<close>

theorem searches_correct:
  assumes "bv_inv v" and "p < num_bits v" and "q \<le> num_bits v" and "num_bits v < kSizeTMax"
  shows "firstOne v p = Inr (first_from (bits v) p (num_bits v))
    \<and> firstZero v p = Inr (first_from (\<lambda>i. \<not> bits v i) p (num_bits v))
    \<and> lastOne v q = Inr (last_before (bits v) q (num_bits v))
    \<and> lastZero v q = Inr (last_before (\<lambda>i. \<not> bits v i) q (num_bits v))"
  using assms firstOne_spec firstZero_spec lastOne_spec [OF assms(1,3)] lastZero_spec [OF assms(1,3)] by simp

section \<open>Counting\<close>

lemma words_bit_Cons: "words_bit (w # ws) i = (if i < 64 then top_bit w i else words_bit ws (i - 64))"
proof (rule split64 [of i])
  fix q r assume i: "i = 64 * q + r" "r < 64" "i div 64 = q" "i mod 64 = r"
  show ?thesis
  proof (cases q)
    case (Suc k)
    then have "(i - 64) div 64 = k" "(i - 64) mod 64 = r" using i by auto
    then show ?thesis unfolding words_bit_def i(3,4) using i Suc by simp
  qed (use i in \<open>simp add: words_bit_def\<close>)
qed

lemma words_bit_less: "words_bit ws i \<Longrightarrow> i < 64 * length ws"
  by (rule split64 [of i]) (auto simp: words_bit_def)

lemma finite_words_bit [simp]: "finite {i. words_bit ws i}"
  by (rule finite_subset [of _ "{..<64 * length ws}"]) (auto dest: words_bit_less)

lemma card_words_bit: "card {i. words_bit ws i} = sum_list (map population_count ws)"
proof (induction ws)
  case (Cons w ws)
  let ?A = "{i. top_bit w i}" and ?B = "(\<lambda>i. i + 64) ` {i. words_bit ws i}"
  have "{i. words_bit (w # ws) i} = ?A \<union> ?B"
  proof (rule set_eqI)
    fix i
    have "i \<in> ?B \<longleftrightarrow> 64 \<le> i \<and> words_bit ws (i - 64)"
      by (auto intro!: image_eqI [of _ _ "i - 64"])
    moreover have "top_bit w i \<Longrightarrow> i < 64" using top_bit_less [of w i] by simp
    ultimately show "i \<in> {i. words_bit (w # ws) i} \<longleftrightarrow> i \<in> ?A \<union> ?B" by (auto simp: words_bit_Cons)
  qed
  moreover have "?A \<inter> ?B = {}" by (auto dest: top_bit_less)
  moreover have "finite ?A" by (rule finite_subset [of _ "{..<64}"]) (auto dest: top_bit_less)
  moreover have "card ?B = card {i. words_bit ws i}" by (rule card_image) (auto simp: inj_on_def)
  ultimately show ?case using Cons card_Un_disjoint [of ?A ?B] by (simp add: population_count_top)
qed (simp add: words_bit_def)

lemma onesCount_spec:
  assumes inv: "bv_inv v"
  shows "onesCount v = Inr (card {i. bits v i})"
proof (cases "is_short v")
  case True
  have "short_read v (\<lambda>w. Inr (population_count w)) (\<lambda>w. Inr (population_count w)) (\<lambda>w. Inr (population_count w))
      = Inr (card {i. bits v i})"
    by (intro short_read_eq [OF inv True]) (simp_all add: population_count_top)
  moreover have "num_bits v = 0 \<Longrightarrow> {i. bits v i} = {}" using bv_inv_beyond [OF inv] by auto
  ultimately show ?thesis using True by (simp add: onesCount_def)
next
  case False
  obtain ws where ws: "read_words v = Inr ws" "data_array v = Words ws" "length ws = data_array_size v" "bits v = words_bit ws"
    using regular_words [OF inv False] .
  have "fold (\<lambda>w n. n + population_count w) ws k = k + sum_list (map population_count ws)" for k
    by (induction ws arbitrary: k) simp_all
  then show ?thesis using ws(1,4) not_short [OF inv False] by (simp add: onesCount_def card_words_bit)
qed

lemma any_spec:
  assumes inv: "bv_inv v"
  shows "bv_any v = Inr (\<exists>i. bits v i)"
proof (cases "is_short v")
  case True
  have "short_read v (\<lambda>w. Inr (w \<noteq> 0)) (\<lambda>w. Inr (w \<noteq> 0)) (\<lambda>w. Inr (w \<noteq> 0)) = Inr (\<exists>i. bits v i)"
    by (intro short_read_eq [OF inv True]) (simp_all add: zero_iff_top_bit)
  moreover have "num_bits v = 0 \<Longrightarrow> \<not> bits v i" for i using bv_inv_beyond [OF inv] by auto
  ultimately show ?thesis using True by (simp add: bv_any_def)
next
  case False
  obtain ws where ws: "read_words v = Inr ws" "data_array v = Words ws" "length ws = data_array_size v" "bits v = words_bit ws"
    using regular_words [OF inv False] .
  have "(\<exists>i. words_bit ws i) \<longleftrightarrow> card {i. words_bit ws i} \<noteq> 0" by auto
  also have "\<dots> \<longleftrightarrow> (\<exists>w \<in> set ws. population_count w \<noteq> 0)" by (simp add: card_words_bit sum_list_eq_0_iff)
  also have "\<dots> \<longleftrightarrow> list_ex (\<lambda>w. w \<noteq> 0) ws"
  proof -
    have "population_count w = 0 \<longleftrightarrow> w = 0" for w :: "64 word"
    proof -
      have "finite {i. top_bit w i}" by (rule finite_subset [of _ "{..<64}"]) (auto dest: top_bit_less)
      then show ?thesis by (simp add: population_count_top zero_iff_top_bit)
    qed
    then show ?thesis by (simp add: list_ex_iff)
  qed
  finally show ?thesis using ws(1,4) not_short [OF inv False] by (simp add: bv_any_def)
qed

lemma fold_all:
  assumes "\<And>k. k < n \<Longrightarrow> step True k = Inr (Q k)" and "\<And>k. step False k = Inr False"
  shows "fold_res step True [0..<n] = Inr (\<forall>k < n. Q k)"
  using assms(1)
proof (induction n)
  case (Suc n)
  then have "fold_res step True [0..<n] = Inr (\<forall>k < n. Q k)" by simp
  moreover have "step b n = Inr (b \<and> Q n)" for b using Suc.prems [of n] assms(2) by (cases b) auto
  ultimately show ?case by (auto simp: fold_res_append less_Suc_eq)
qed simp

lemma ones_word: "n \<le> LENGTH('a) \<Longrightarrow> (\<And>i. n \<le> i \<Longrightarrow> \<not> top_bit w i) \<Longrightarrow>
    (w = push_bit (LENGTH('a) - n) (- 1)) = (\<forall>i < n. top_bit (w :: 'a::len word) i)"
proof -
  assume n: "n \<le> LENGTH('a)" and beyond: "\<And>i. n \<le> i \<Longrightarrow> \<not> top_bit w i"
  show ?thesis
  proof
    assume "\<forall>i < n. top_bit w i"
    then have "top_bit w i = top_bit (push_bit (LENGTH('a) - n) (- 1 :: 'a word)) i" for i
      unfolding top_bit_push_minus1 [OF n] using beyond by (meson not_less)
    then show "w = push_bit (LENGTH('a) - n) (- 1)" by (rule word_eq_top_bitI)
  qed (use n in auto)
qed

lemma all_regular:
  assumes inv: "bv_inv v" and ns: "\<not> is_short v"
  shows "bv_all v = Inr (\<forall>i < num_bits v. bits v i)"
proof (rule split64 [of "num_bits v"])
  fix q r assume n: "num_bits v = 64 * q + r" "r < 64" "num_bits v div 64 = q" "num_bits v mod 64 = r"
  obtain ws where ws: "read_words v = Inr ws" "data_array v = Words ws" "length ws = data_array_size v" "bits v = words_bit ws"
    using regular_words [OF inv ns] .
  have s: "data_array_size v = q + (if r \<noteq> 0 then 1 else 0)" by (simp add: data_array_size_def n(3,4))
  let ?step = "\<lambda>ok array_idx. if \<not> ok then Inr False else and_then (vec_at ws array_idx) (\<lambda>w. Inr (w = - 1)) :: bool result"
  have f: "fold_res ?step True [0..<q] = Inr (\<forall>k < q. ws ! k = - 1)"
    by (rule fold_all) (use ws(3) s in simp_all)
  have W: "ws ! k = - 1 \<longleftrightarrow> (\<forall>j < 64. bits v (64 * k + j))" if "k < length ws" for k
    using words_bit_nth [OF that] ones_word [where 'a=64, of 64 "ws ! k"] by (simp add: ws(4))
  have full: "(\<forall>k < q. ws ! k = - 1) \<longleftrightarrow> (\<forall>i < 64 * q. bits v i)"
  proof (intro iffI allI impI)
    fix i assume a: "\<forall>k < q. ws ! k = - 1" and i: "i < 64 * q"
    then have "i div 64 < q" by auto
    then show "bits v i" using a W [of "i div 64"] ws(3) s by (metis mod_less_divisor mult_div_mod_eq trans_less_add1 zero_less_numeral)
  next
    fix k assume a: "\<forall>i < 64 * q. bits v i" and k: "k < q"
    then show "ws ! k = - 1" using W [of k] ws(3) s by auto
  qed
  show ?thesis
  proof (cases "r = 0")
    case True
    then show ?thesis using not_short [OF inv ns] ws(1) f full n s by (simp add: bv_all_def Let_def)
  next
    case False
    have l: "q < length ws" using ws(3) s False by simp
    have beyond: "\<not> top_bit (ws ! q) j" if "r \<le> j" for j
      using that bv_inv_beyond [OF inv, of "64 * q + j"] words_bit_nth [OF l, of j] n(1) ws(4)
      by (cases "j < 64") auto
    have t: "ws ! q = push_bit (64 - r) (- 1) \<longleftrightarrow> (\<forall>j < r. bits v (64 * q + j))"
      using ones_word [where 'a=64, of r "ws ! q"] n(2) beyond words_bit_nth [OF l] ws(4)
      by (simp del: push_bit_minus_one)
    have tail: "(\<forall>i < num_bits v. bits v i) \<longleftrightarrow> (\<forall>i < 64 * q. bits v i) \<and> (\<forall>j < r. bits v (64 * q + j))"
    proof (intro iffI conjI allI impI)
      fix i assume a: "(\<forall>i < 64 * q. bits v i) \<and> (\<forall>j < r. bits v (64 * q + j))" and i: "i < num_bits v"
      show "bits v i"
      proof (cases "i < 64 * q")
        case F: False
        then show ?thesis using a i n(1) by (auto dest: spec [of _ "i - 64 * q"])
      qed (use a in simp)
    qed (use n(1) in auto)
    show ?thesis unfolding tail using not_short [OF inv ns] ws(1) f full t n(4) s l False
      by (auto simp: bv_all_def Let_def simp del: push_bit_minus_one)
  qed
qed

text \<open>\<^verbatim>\<open>all\<close> on short vectors: correct if the vector fills its integer, or has 17 to 32 bits.  Otherwise the
  comparison is with a number that an integer of this width never equals.\<close>

lemma all_short:
  assumes inv: "bv_inv v" and s: "is_short v"
  shows "bv_all v = Inr (if num_bits v < 8 \<and> num_bits v \<noteq> 0 \<or> 8 < num_bits v \<and> num_bits v < 16 then False
    else \<forall>i < num_bits v. bits v i)"
proof (cases "num_bits v = 0")
  case True
  then show ?thesis using s by (simp add: bv_all_def)
next
  case nz: False
  let ?r = "if num_bits v < 8 \<and> num_bits v \<noteq> 0 \<or> 8 < num_bits v \<and> num_bits v < 16 then False
    else \<forall>i < num_bits v. bits v i"
  have big: "n * 2 \<le> n * 2 ^ k" if "0 < k" for k n :: nat
  proof (cases k)
    case (Suc m)
    then show ?thesis by simp
  qed (use that in simp)
  have "short_read v (\<lambda>w. Inr (unat w = 255 * 2 ^ (8 - num_bits v))) (\<lambda>w. Inr (unat w = 65535 * 2 ^ (16 - num_bits v)))
      (\<lambda>w. Inr (w = push_bit (32 - num_bits v) (- 1))) = Inr ?r"
    using inv
  proof (cases rule: bv_cases)
    case (u8 w)
    have w: "top_bit w = bits v" using u8 by (simp add: bits_def)
    have "unat w = 255 * 2 ^ (8 - num_bits v) \<longleftrightarrow> ?r"
    proof (cases "num_bits v = 8")
      case True
      have "unat w = 255 \<longleftrightarrow> w = - 1" by (simp add: word_unat_eq_iff [of w "- 1"] unsigned_minus_1_eq_mask mask_eq_exp_minus_1)
      then show ?thesis using True ones_word [where 'a=8, of 8 w] bv_inv_beyond [OF inv] by (simp add: w)
    next
      case False
      then have "510 \<le> 255 * (2 :: nat) ^ (8 - num_bits v)" using big [of "8 - num_bits v" 255] u8(2) by simp
      moreover have "unat w < 256" using unsigned_less [of w] by simp
      ultimately show ?thesis using False u8(2) nz by auto
    qed
    then show ?thesis using u8 by (simp add: short_read_def)
  next
    case (u16 w)
    have w: "top_bit w = bits v" using u16 by (simp add: bits_def)
    have "unat w = 65535 * 2 ^ (16 - num_bits v) \<longleftrightarrow> ?r"
    proof (cases "num_bits v = 16")
      case True
      have "unat w = 65535 \<longleftrightarrow> w = - 1" by (simp add: word_unat_eq_iff [of w "- 1"] unsigned_minus_1_eq_mask mask_eq_exp_minus_1)
      then show ?thesis using True ones_word [where 'a=16, of 16 w] bv_inv_beyond [OF inv] by (simp add: w)
    next
      case False
      then have "131070 \<le> 65535 * (2 :: nat) ^ (16 - num_bits v)" using big [of "16 - num_bits v" 65535] u16(3) by simp
      moreover have "unat w < 65536" using unsigned_less [of w] by simp
      ultimately show ?thesis using False u16(2,3) by auto
    qed
    then show ?thesis using u16 by (simp add: short_read_def)
  next
    case (u32 w)
    have w: "top_bit w = bits v" using u32 by (simp add: bits_def)
    show ?thesis using u32 ones_word [where 'a=32, of "num_bits v" w] bv_inv_beyond [OF inv] w
      by (simp add: short_read_def del: push_bit_minus_one)
  qed (use s in simp)
  then show ?thesis using s nz unfolding bv_all_def by simp
qed

text \<open>The counts are correct for every representation: \<^verbatim>\<open>onesCount\<close> is the number of positions of the vector
  with a one, and \<^verbatim>\<open>any\<close> tells whether there is one.\<close>

theorem counts_correct:
  assumes "bv_inv v"
  shows "onesCount v = Inr (card {i. i < num_bits v \<and> bits v i}) \<and> bv_any v = Inr (\<exists>i < num_bits v. bits v i)"
proof -
  have "bits v i \<Longrightarrow> i < num_bits v" for i using bv_inv_beyond [OF assms] by (meson not_less)
  then have "{i. bits v i} = {i. i < num_bits v \<and> bits v i}" "(\<exists>i. bits v i) = (\<exists>i < num_bits v. bits v i)" by auto
  then show ?thesis using onesCount_spec [OF assms] any_spec [OF assms] by simp
qed

text \<open>\<^verbatim>\<open>all\<close> is right for regular vectors and for short ones of 8, 16 or more than 16 bits.  A short vector
  of any other size is never reported as full: the mask is shifted in the type \<^verbatim>\<open>int\<close> and keeps the
  bits above the width of the vector, so that the comparison fails even if all bits are set.\<close>

theorem all_of_short_vectors:
  assumes "bv_inv v"
  shows "bv_all v = Inr ((\<forall>i < num_bits v. bits v i)
    \<and> \<not> (short_version v \<and> (0 < num_bits v \<and> num_bits v < 8 \<or> 8 < num_bits v \<and> num_bits v < 16)))"
proof (cases "is_short v")
  case True
  then show ?thesis using all_short [OF assms True] by auto
next
  case False
  then show ?thesis using all_regular [OF assms False] not_short [OF assms False] by simp
qed

section \<open>Differences\<close>

lemma filter_first:
  assumes "r < n" and "P r" and "\<And>j. j < r \<Longrightarrow> \<not> P j"
  shows "filter P [0..<n] = r # filter (\<lambda>i. i \<noteq> r \<and> P i) [0..<n]"
proof -
  have u: "[0..<n] = [0..<r] @ r # [Suc r..<n]" using assms(1)
    by (metis le_add_same_cancel1 less_imp_le upt_add_eq_append upt_conv_Cons ordered_cancel_comm_monoid_diff_class.add_diff_inverse zero_le)
  have "filter P [0..<r] = []" "filter (\<lambda>i. i \<noteq> r \<and> P i) [0..<r] = []" using assms(3) by (auto simp: filter_empty_conv)
  moreover have "filter (\<lambda>i. i \<noteq> r \<and> P i) [Suc r..<n] = filter P [Suc r..<n]" by (rule filter_cong) auto
  ultimately show ?thesis unfolding u using assms(2) by simp
qed

lemma extract_ones_spec: "extract_ones base w = map (\<lambda>j. to_int32 (base + j)) (filter (top_bit w) [0..<64])"
proof (induction base w rule: extract_ones.induct)
  case (1 base w)
  show ?case
  proof (cases "w = 0")
    case False
    let ?z = "leading_zero_count w"
    note L = leading_zero_count_first [OF False]
    have "filter (top_bit w) [0..<64] = ?z # filter (\<lambda>i. i \<noteq> ?z \<and> top_bit w i) [0..<64]"
      by (rule filter_first) (use L in auto)
    moreover have "(\<lambda>i. i \<noteq> ?z \<and> top_bit w i) = top_bit (w XOR drop_bit ?z TopBit)"
      by (rule ext) (rule clear_first_one [OF False, symmetric])
    ultimately have f: "filter (top_bit w) [0..<64] = ?z # filter (top_bit (w XOR drop_bit ?z TopBit)) [0..<64]"
      by (simp only:)
    show ?thesis unfolding f list.map 1 [OF False refl, symmetric]
      by (subst extract_ones.simps) (simp only: if_P [OF False] Let_def)
  next
    case True
    have "filter (top_bit (0 :: 64 word)) [0..<64] = []" by simp
    with True show ?thesis by (subst extract_ones.simps) simp
  qed
qed

lemma filter_words:
  "concat (map (\<lambda>k. map (\<lambda>j. g (k * 64 + j)) (filter (\<lambda>j. P (k * 64 + j)) [0..<64])) [0..<n])
     = map g (filter P [0..<n * 64])"
proof (induction n)
  case (Suc n)
  have m: "map (\<lambda>j. n * 64 + j) [0..<64] = [n * 64..<n * 64 + 64]" using map_add_upt [of "n * 64" 64]
    by (simp add: add.commute)
  have "map (\<lambda>j. g (n * 64 + j)) (filter (\<lambda>j. P (n * 64 + j)) [0..<64])
      = map g (filter P (map (\<lambda>j. n * 64 + j) [0..<64]))"
    by (simp add: filter_map comp_def)
  moreover have "[0..<Suc n * 64] = [0..<n * 64] @ [n * 64..<n * 64 + 64]"
    using upt_add_eq_append [of 0 "n * 64" 64] by (simp add: add.commute)
  ultimately show ?case using Suc m by simp
qed simp

lemma fold_appends:
  assumes "\<And>k out. k < n \<Longrightarrow> step out k = Inr (out @ e k)"
  shows "fold_res step out [0..<n] = Inr (out @ concat (map e [0..<n]))"
  using assms by (induction n) (auto simp: fold_res_append)

text \<open>\<^verbatim>\<open>subtractTo\<close> appends, in increasing order, exactly the positions with a one in this vector and none
  in the other one, for regular vectors of the same length below the range of \<^verbatim>\<open>int\<close>.\<close>

theorem subtractTo_correct:
  assumes "bv_inv v" and "bv_inv u" and "num_bits u = num_bits v"
    and "\<not> enable_short_version v" and "\<not> enable_short_version u" and "num_bits v \<le> 2 ^ 31"
  shows "subtractTo v u output = Inr (output @ map int (filter (\<lambda>i. bits v i \<and> \<not> bits u i) [0..<num_bits v]))"
proof -
  have ns: "\<not> is_short v" "\<not> is_short u" using assms(4,5) by auto
  obtain ws where ws: "read_words v = Inr ws" "data_array v = Words ws" "length ws = data_array_size v" "bits v = words_bit ws"
    using regular_words [OF assms(1) ns(1)] .
  obtain us where us: "read_words u = Inr us" "data_array u = Words us" "length us = data_array_size u" "bits u = words_bit us"
    using regular_words [OF assms(2) ns(2)] .
  let ?n = "data_array_size v" and ?P = "\<lambda>i. bits v i \<and> \<not> bits u i"
  have size: "data_array_size u = ?n" using assms(3) by (simp add: data_array_size_def)
  have e: "extract_ones (k * 64) (ws ! k AND NOT (us ! k)) =
      map (\<lambda>j. to_int32 (k * 64 + j)) (filter (\<lambda>j. ?P (k * 64 + j)) [0..<64])" if "k < ?n" for k
  proof -
    have "filter (top_bit (ws ! k AND NOT (us ! k))) [0..<64] = filter (\<lambda>j. ?P (k * 64 + j)) [0..<64]"
      by (rule filter_cong) (use that ws us size in \<open>auto simp: words_bit_nth mult.commute\<close>)
    then show ?thesis by (simp add: extract_ones_spec)
  qed
  have "subtractTo v u output = Inr (output @ concat (map (\<lambda>k. map (\<lambda>j. to_int32 (k * 64 + j))
      (filter (\<lambda>j. ?P (k * 64 + j)) [0..<64])) [0..<?n]))"
    unfolding subtractTo_def using assms(4) ws(1) us(1)
    by (simp, intro fold_appends) (use ws(3) us(3) size e in simp)
  also have "\<dots> = Inr (output @ map to_int32 (filter ?P [0..<?n * 64]))" 
    using filter_words [of to_int32 ?P ?n] by simp
  also have "filter ?P [0..<?n * 64] = filter ?P [0..<num_bits v]"
  proof -
    have "[0..<?n * 64] = [0..<num_bits v] @ [num_bits v..<?n * 64]"
      using num_bits_le_size [of v] by (metis le_add_diff_inverse upt_add_eq_append zero_le)
    moreover have "filter ?P [num_bits v..<?n * 64] = []"
      using bv_inv_beyond [OF assms(1)] by (auto simp: filter_empty_conv)
    ultimately show ?thesis by simp
  qed
  also have "map to_int32 (filter ?P [0..<num_bits v]) = map int (filter ?P [0..<num_bits v])"
    using assms(6) by (intro map_cong) (auto simp: to_int32_def)
  finally show ?thesis .
qed

section \<open>Witnesses\<close>

theorem searches_correct_witness:
  "bv_inv short_example \<and> num_bits short_example < kSizeTMax
   \<and> firstZero short_example 2 = Inr (first_from (\<lambda>i. \<not> bits short_example i) 2 5)"
  using short_example_inv searches_correct [OF short_example_inv, of 2 5] by (simp add: kSizeTMax_def)

theorem counts_correct_witness: "bv_inv short_example \<and> (\<exists>n. onesCount short_example = Inr n)"
  using short_example_inv counts_correct [OF short_example_inv] by blast

text \<open>A short vector of 5 bits that are all set.\<close>

definition full_short :: BitVector where
  "full_short = BitVector_external True (U8 248) 5"

lemma full_short_bits: "bv_inv full_short" "\<forall>i < num_bits full_short. bits full_short i"
proof -
  have b: "top_bit (248 :: 8 word) i = (i < 5)" for i
  proof -
    have "(248 :: 8 word) = push_bit (8 - 5) (- 1)" by code_simp
    then show ?thesis using top_bit_push_minus1 [where 'a=8, of 5 i] by simp
  qed
  show "bv_inv full_short" "\<forall>i < num_bits full_short. bits full_short i"
    by (auto simp: full_short_def BitVector_external_def bv_inv_def bits_def storage_fits_def b)
qed

theorem all_of_short_vectors_witness:
  "bv_inv full_short \<and> num_bits full_short = 5 \<and> {i. bits full_short i} = {..<5} \<and> bv_all full_short = Inr False"
  using full_short_bits all_of_short_vectors [OF full_short_bits(1)] bv_inv_beyond [OF full_short_bits(1)]
  by (auto simp: full_short_def BitVector_external_def not_less [symmetric])

theorem subtractTo_correct_witness: "\<exists>out. subtractTo long_example long_example [] = Inr out"
  using subtractTo_correct [OF long_example_inv long_example_inv, of "[]"] by simp

end
