(* ===== verification/TupleIdSequences.thy ===== *)
theory TupleIdSequences
  imports BitVectorScans
begin

text \<open>
  Sequences of tuple ids (\<^verbatim>\<open>storage/TupleIdSequence.hpp\<close>): the results and the filters of the scans of a
  block are such sequences, a bit vector with one bit per slot of the block.  A sequence stands for a
  set of ids (\<open>holds\<close>); every operation is shown to be the operation on sets, and the iteration to
  visit the ids in increasing order.  A \<^verbatim>\<open>tuple_id\<close> is an \<^verbatim>\<open>int\<close>, here an integer; an iterator is its
  position, and the sequence it points into is an argument.
\<close>

section \<open>Sequences\<close>

record TupleIdSequence =
  internal_bitvector :: BitVector

text \<open>The conversion of an \<^verbatim>\<open>int\<close> to \<^verbatim>\<open>size_t\<close>.\<close>

definition to_size_t :: "int \<Rightarrow> nat" where
  "to_size_t t = nat (t mod 2 ^ 64)"

definition tis_length :: "TupleIdSequence \<Rightarrow> nat" where
  "tis_length s = num_bits (internal_bitvector s)"

definition on_bits :: "TupleIdSequence \<Rightarrow> BitVector result \<Rightarrow> TupleIdSequence result" where
  "on_bits s r = and_then r (\<lambda>v. Inr (s\<lparr>internal_bitvector := v\<rparr>))"

text \<open>The constructors, over the memory that the bit vector allocates.\<close>

definition new_TupleIdSequence :: "storage \<Rightarrow> int \<Rightarrow> TupleIdSequence" where
  "new_TupleIdSequence allocated len = \<lparr>internal_bitvector = BitVector_owned False allocated (to_size_t len) True\<rparr>"

definition new_TupleIdSequence_from :: "storage \<Rightarrow> int \<Rightarrow> BitVector \<Rightarrow> TupleIdSequence result" where
  "new_TupleIdSequence_from allocated len bit_vector =
     (let s = new_TupleIdSequence allocated len in
      on_bits s (assignFromLonger (internal_bitvector s) bit_vector))"

definition tis_set :: "TupleIdSequence \<Rightarrow> int \<Rightarrow> bool \<Rightarrow> TupleIdSequence result" where
  "tis_set s tuple on =
     and_then (check CheckFailed (0 \<le> tuple)) (\<lambda>_.
     and_then (check CheckFailed (to_size_t tuple < tis_length s)) (\<lambda>_.
       on_bits s (setBit (internal_bitvector s) (to_size_t tuple) on)))"

definition tis_set_on :: "TupleIdSequence \<Rightarrow> int \<Rightarrow> TupleIdSequence result" where
  "tis_set_on s tuple =
     and_then (check CheckFailed (0 \<le> tuple)) (\<lambda>_.
     and_then (check CheckFailed (to_size_t tuple < tis_length s)) (\<lambda>_.
       on_bits s (setBitOn (internal_bitvector s) (to_size_t tuple))))"

definition setRange :: "TupleIdSequence \<Rightarrow> int \<Rightarrow> int \<Rightarrow> bool \<Rightarrow> TupleIdSequence result" where
  "setRange s first_tuple num_tuples on =
     and_then (check CheckFailed (0 \<le> first_tuple)) (\<lambda>_.
       if 0 < num_tuples
       then on_bits s (setBitRange (internal_bitvector s) (to_size_t first_tuple) (to_size_t num_tuples) on)
       else Inr s)"

definition setWord :: "TupleIdSequence \<Rightarrow> nat \<Rightarrow> 64 word \<Rightarrow> TupleIdSequence result" where
  "setWord s word_id word_value =
     and_then (check CheckFailed (word_id * 64 < tis_length s)) (\<lambda>_.
       on_bits s (setBitWord (internal_bitvector s) word_id word_value))"

definition tis_get :: "TupleIdSequence \<Rightarrow> int \<Rightarrow> bool result" where
  "tis_get s tuple =
     and_then (check CheckFailed (0 \<le> tuple)) (\<lambda>_.
     and_then (check CheckFailed (to_size_t tuple < tis_length s)) (\<lambda>_.
       getBit (internal_bitvector s) (to_size_t tuple)))"

definition getWord :: "TupleIdSequence \<Rightarrow> nat \<Rightarrow> 64 word result" where
  "getWord s word_id =
     and_then (check CheckFailed (word_id * 64 < tis_length s)) (\<lambda>_. getBitWord (internal_bitvector s) word_id)"

definition tis_empty :: "TupleIdSequence \<Rightarrow> bool result" where
  "tis_empty s = and_then (bv_any (internal_bitvector s)) (\<lambda>b. Inr (\<not> b))"

definition numTuples :: "TupleIdSequence \<Rightarrow> nat result" where
  "numTuples s = onesCount (internal_bitvector s)"

definition tis_front :: "TupleIdSequence \<Rightarrow> int result" where
  "tis_front s =
     and_then (tis_empty s) (\<lambda>e. and_then (check CheckFailed (\<not> e)) (\<lambda>_.
     and_then (firstOne (internal_bitvector s) 0) (\<lambda>p. Inr (to_int32 p))))"

definition tis_back :: "TupleIdSequence \<Rightarrow> int result" where
  "tis_back s =
     and_then (tis_empty s) (\<lambda>e. and_then (check CheckFailed (\<not> e)) (\<lambda>_.
     and_then (lastOne (internal_bitvector s) kSizeTMax) (\<lambda>p. Inr (to_int32 p))))"

definition tis_invert :: "TupleIdSequence \<Rightarrow> TupleIdSequence result" where
  "tis_invert s = on_bits s (flipBits (internal_bitvector s))"

definition tis_assignFrom :: "TupleIdSequence \<Rightarrow> TupleIdSequence \<Rightarrow> TupleIdSequence result" where
  "tis_assignFrom s other = on_bits s (assignFrom (internal_bitvector s) (internal_bitvector other))"

definition tis_intersectWith :: "TupleIdSequence \<Rightarrow> TupleIdSequence \<Rightarrow> TupleIdSequence result" where
  "tis_intersectWith s other = on_bits s (intersectWith (internal_bitvector s) (internal_bitvector other))"

definition intersectWithComplement :: "TupleIdSequence \<Rightarrow> TupleIdSequence \<Rightarrow> TupleIdSequence result" where
  "intersectWithComplement s other =
     and_then (check CheckFailed (tis_length s = tis_length other)) (\<lambda>_.
       on_bits s (unsetFrom (internal_bitvector s) (internal_bitvector other)))"

definition tis_unionWith :: "TupleIdSequence \<Rightarrow> TupleIdSequence \<Rightarrow> TupleIdSequence result" where
  "tis_unionWith s other = on_bits s (unionWith (internal_bitvector s) (internal_bitvector other))"

section \<open>Iterators\<close>

definition it_begin :: "TupleIdSequence \<Rightarrow> nat result" where
  "it_begin s = firstOne (internal_bitvector s) 0"

definition it_before_begin :: nat where
  "it_before_begin = kSizeTMax"

definition it_end :: "TupleIdSequence \<Rightarrow> nat" where
  "it_end s = num_bits (internal_bitvector s)"

definition it_deref :: "TupleIdSequence \<Rightarrow> nat \<Rightarrow> int result" where
  "it_deref s current_position =
     and_then (check CheckFailed (current_position < num_bits (internal_bitvector s))) (\<lambda>_.
       Inr (to_int32 current_position))"

definition it_inc :: "TupleIdSequence \<Rightarrow> nat \<Rightarrow> nat result" where
  "it_inc s current_position =
     (let search_pos = (current_position + 1) mod 2 ^ 64 in
      if search_pos < num_bits (internal_bitvector s)
      then firstOne (internal_bitvector s) search_pos
      else Inr (num_bits (internal_bitvector s)))"

definition it_dec :: "TupleIdSequence \<Rightarrow> nat \<Rightarrow> nat result" where
  "it_dec s current_position =
     and_then (lastOne (internal_bitvector s) current_position) (\<lambda>p.
       Inr (if p = num_bits (internal_bitvector s) then kSizeTMax else p))"

text \<open>The loop \<^verbatim>\<open>for (it = begin(); it != end(); ++it)\<close> of the clients, with a body that may fail.  The bound
  is the number of iterations; \<open>tis_length s\<close> of them always suffice.\<close>

fun iterate_from :: "TupleIdSequence \<Rightarrow> ('a \<Rightarrow> int \<Rightarrow> 'a result) \<Rightarrow> nat \<Rightarrow> nat \<Rightarrow> 'a \<Rightarrow> 'a result" where
  "iterate_from s body fuel pos acc =
     (if pos = it_end s then Inr acc
      else case fuel of
        0 \<Rightarrow> Inl OutOfFuel
      | Suc fuel' \<Rightarrow>
          and_then (it_deref s pos) (\<lambda>t. and_then (body acc t) (\<lambda>acc'.
          and_then (it_inc s pos) (\<lambda>pos'. iterate_from s body fuel' pos' acc'))))"

declare iterate_from.simps [simp del]

definition iterate_ids :: "TupleIdSequence \<Rightarrow> ('a \<Rightarrow> int \<Rightarrow> 'a result) \<Rightarrow> 'a \<Rightarrow> 'a result" where
  "iterate_ids s body acc = and_then (it_begin s) (\<lambda>pos. iterate_from s body (tis_length s) pos acc)"

section \<open>The set of ids\<close>

text \<open>The sequence has the given number of slots and contains exactly the given ids.\<close>

definition holds :: "TupleIdSequence \<Rightarrow> nat \<Rightarrow> nat set \<Rightarrow> bool" where
  "holds s n A \<longleftrightarrow> bv_inv (internal_bitvector s) \<and> \<not> enable_short_version (internal_bitvector s)
     \<and> num_bits (internal_bitvector s) = n \<and> n < 2 ^ 31 \<and> bits (internal_bitvector s) = (\<lambda>i. i \<in> A)"

lemma holdsD:
  assumes "holds s n A"
  shows "bv_inv (internal_bitvector s)" "\<not> enable_short_version (internal_bitvector s)"
    "num_bits (internal_bitvector s) = n" "n < 2 ^ 31" "bits (internal_bitvector s) = (\<lambda>i. i \<in> A)" "A \<subseteq> {..<n}"
    "tis_length s = n" "it_end s = n"
proof -
  show "bv_inv (internal_bitvector s)" "\<not> enable_short_version (internal_bitvector s)"
    "num_bits (internal_bitvector s) = n" "n < 2 ^ 31" and b: "bits (internal_bitvector s) = (\<lambda>i. i \<in> A)"
    using assms by (auto simp: holds_def)
  then show "tis_length s = n" "it_end s = n" by (simp_all add: tis_length_def it_end_def)
  show "A \<subseteq> {..<n}"
  proof
    fix i assume "i \<in> A"
    then show "i \<in> {..<n}" using bv_inv_beyond [OF \<open>bv_inv _\<close>, of i] \<open>num_bits _ = n\<close> b
      by (auto simp: not_less [symmetric])
  qed
qed

lemma holds_finite: "holds s n A \<Longrightarrow> finite A"
  by (rule finite_subset [OF holdsD(6)]) simp_all

lemma holds_unique: "holds s n A \<Longrightarrow> holds s m B \<Longrightarrow> n = m \<and> A = B"
proof -
  assume a: "holds s n A" "holds s m B"
  have "(i \<in> A) = (i \<in> B)" for i using holdsD(5) [OF a(1)] holdsD(5) [OF a(2)] by metis
  then show ?thesis using holdsD(3) [OF a(1)] holdsD(3) [OF a(2)] by blast
qed

lemma to_size_t_int [simp]: "n < 2 ^ 64 \<Longrightarrow> to_size_t (int n) = n"
proof -
  assume "n < 2 ^ 64"
  then have "int n mod 2 ^ 64 = int n" by (intro mod_pos_pos_trivial) simp_all
  then show ?thesis by (simp add: to_size_t_def)
qed

lemma to_int32_small [simp]: "n < 2 ^ 31 \<Longrightarrow> to_int32 n = int n"
  by (simp add: to_int32_def)

text \<open>An operation on the bit vector that stores the given bits.\<close>

lemma on_bits_holds:
  assumes "holds s n A" and "\<exists>v'. r = Inr v' \<and> stored (internal_bitvector s) v' f" and "\<And>i. f i = (i \<in> B)"
  shows "\<exists>s'. on_bits s r = Inr s' \<and> holds s' n B"
proof -
  obtain v' where v': "r = Inr v'" "bv_inv v'" "v' = (internal_bitvector s)\<lparr>data_array := data_array v'\<rparr>" "bits v' = f"
    using assms(2) by (auto simp: stored_def)
  have "num_bits v' = n" "\<not> enable_short_version v'"
    using v'(3) holdsD(2,3) [OF assms(1)] by (metis BitVector.select_convs(1,4) BitVector.surjective BitVector.update_convs(5))+
  then show ?thesis using v' holdsD(4) [OF assms(1)] assms(3) by (auto simp: on_bits_def holds_def fun_eq_iff)
qed

text \<open>The contents of the allocated memory do not matter: every memory of the right size gives the same
  empty sequence.\<close>

definition make_sequence :: "nat \<Rightarrow> TupleIdSequence" where
  "make_sequence n = new_TupleIdSequence (Words (replicate (n div 64 + (if n mod 64 \<noteq> 0 then 1 else 0)) 0)) (int n)"

lemma new_TupleIdSequence_eq:
  assumes "storage_fits False n m" and "n < 2 ^ 31"
  shows "new_TupleIdSequence m (int n) = make_sequence n"
  using assms by (cases m) (auto simp: storage_fits_def make_sequence_def new_TupleIdSequence_def BitVector_owned_def clear_def)

lemma make_sequence_holds: "n < 2 ^ 31 \<Longrightarrow> holds (make_sequence n) n {}"
proof -
  assume n: "n < 2 ^ 31"
  let ?m = "Words (replicate (n div 64 + (if n mod 64 \<noteq> 0 then 1 else 0)) 0)"
  have "bv_inv (BitVector_owned False ?m n True)" by (rule BitVector_owned_inv) (simp add: storage_fits_def)
  moreover have "\<not> words_bit (replicate k 0) i" for k i by (auto simp: words_bit_def)
  ultimately show ?thesis using n
    by (simp add: holds_def make_sequence_def new_TupleIdSequence_def BitVector_owned_def clear_def bits_def Let_def fun_eq_iff)
qed

lemma tis_set_holds:
  assumes "holds s n A" and "i < n"
  shows "\<exists>s'. tis_set s (int i) b = Inr s' \<and> holds s' n (if b then insert i A else A - {i})"
proof -
  note H = holdsD [OF assms(1)]
  have "\<exists>s'. on_bits s (setBit (internal_bitvector s) i b) = Inr s' \<and> holds s' n (if b then insert i A else A - {i})"
    using on_bits_holds [OF assms(1) setBit_spec [OF H(1)]] assms(2) H(3,5) by auto
  then show ?thesis using assms(2) H(4,7) by (simp add: tis_set_def)
qed

lemma tis_set_on_holds:
  assumes "holds s n A" and "i < n"
  shows "\<exists>s'. tis_set_on s (int i) = Inr s' \<and> holds s' n (insert i A)"
proof -
  note H = holdsD [OF assms(1)]
  have "\<not> short_version (internal_bitvector s)" using H(1,2) by (auto simp: bv_inv_def)
  then have "\<exists>s'. on_bits s (setBitOn (internal_bitvector s) i) = Inr s' \<and> holds s' n (insert i A)"
    using on_bits_holds [OF assms(1) setBitOn_spec [OF H(1)]] assms(2) H(3,5) by auto
  then show ?thesis using assms(2) H(4,7) by (simp add: tis_set_on_def)
qed

lemma tis_get_holds: "holds s n A \<Longrightarrow> i < n \<Longrightarrow> tis_get s (int i) = Inr (i \<in> A)"
  using holdsD [of s n A] getBit_spec [of "internal_bitvector s" i] by (simp add: tis_get_def)

text \<open>Setting a range; the last word must not be overrun (\<open>setBitRange_correct\<close>).\<close>

definition range_overruns :: "nat \<Rightarrow> nat \<Rightarrow> nat \<Rightarrow> bool" where
  "range_overruns n first k \<longleftrightarrow> 0 < k \<and> first + k = n \<and> n mod 64 = 0 \<and> \<not> (first mod 64 \<noteq> 0 \<and> k + first mod 64 \<le> 64)"

lemma setRange_holds:
  assumes "holds s n A" and "first + k \<le> n"
  shows "if range_overruns n first k then setRange s (int first) (int k) b = Inl OutOfRange
    else \<exists>s'. setRange s (int first) (int k) b = Inr s'
      \<and> holds s' n (if b then A \<union> {first..<first + k} else A - {first..<first + k})"
proof (cases "k = 0")
  case True
  then show ?thesis using assms(1) by (simp add: setRange_def range_overruns_def)
next
  case False
  note H = holdsD [OF assms(1)]
  let ?v = "internal_bitvector s"
  have small: "first + k < 2 ^ 64" "first < 2 ^ 64" "k < 2 ^ 64" using assms(2) H(4) by simp_all
  have ns: "\<not> short_version ?v" using H(1,2) by (auto simp: bv_inv_def)
  have f: "first < num_bits ?v \<or> first = 0 \<and> num_bits ?v = 0" "first + k \<le> num_bits ?v" using assms(2) False H(3) by auto
  have o: "overruns ?v first k = range_overruns n first k"
    using False ns H(3) by (auto simp: overruns_def range_overruns_def)
  have u: "setRange s (int first) (int k) b = on_bits s (setBitRange ?v first k b)"
    using False small by (simp add: setRange_def)
  show ?thesis
  proof (cases "range_overruns n first k")
    case True
    then show ?thesis using setBitRange_overrun [OF H(1) small(1) f(1)] o by (simp add: u on_bits_def)
  next
    case no: False
    have "\<exists>s'. on_bits s (setBitRange ?v first k b) = Inr s'
        \<and> holds s' n (if b then A \<union> {first..<first + k} else A - {first..<first + k})"
      using no o H(5) by (intro on_bits_holds [OF assms(1) setBitRange_spec [OF H(1) small(1) f]]) auto
    with no show ?thesis by (simp add: u)
  qed
qed

lemma tis_empty_holds: "holds s n A \<Longrightarrow> tis_empty s = Inr (A = {})"
  using holdsD [of s n A] any_spec [of "internal_bitvector s"] by (auto simp: tis_empty_def)

lemma numTuples_holds: "holds s n A \<Longrightarrow> numTuples s = Inr (card A)"
  using holdsD [of s n A] onesCount_spec [of "internal_bitvector s"] by (simp add: numTuples_def)

lemma tis_invert_holds: "holds s n A \<Longrightarrow> \<exists>s'. tis_invert s = Inr s' \<and> holds s' n ({..<n} - A)"
proof -
  assume h: "holds s n A"
  note H = holdsD [OF h]
  show ?thesis unfolding tis_invert_def using H(3,5)
    by (intro on_bits_holds [OF h flipBits_spec [OF H(1)]]) auto
qed

lemma combine_holds:
  assumes s: "holds s n A" and t: "holds t n B"
  shows "\<exists>s'. tis_intersectWith s t = Inr s' \<and> holds s' n (A \<inter> B)"
    and "\<exists>s'. tis_unionWith s t = Inr s' \<and> holds s' n (A \<union> B)"
    and "\<exists>s'. tis_assignFrom s t = Inr s' \<and> holds s' n B"
    and "\<exists>s'. intersectWithComplement s t = Inr s' \<and> holds s' n (A - B)"
proof -
  note H = holdsD [OF s] and K = holdsD [OF t]
  have e: "num_bits (internal_bitvector t) = num_bits (internal_bitvector s)"
    "enable_short_version (internal_bitvector t) = enable_short_version (internal_bitvector s)" using H K by simp_all
  show "\<exists>s'. tis_intersectWith s t = Inr s' \<and> holds s' n (A \<inter> B)" unfolding tis_intersectWith_def
    using H(5) K(5) by (intro on_bits_holds [OF s intersectWith_spec [OF H(1) K(1) e]]) auto
  show "\<exists>s'. tis_unionWith s t = Inr s' \<and> holds s' n (A \<union> B)" unfolding tis_unionWith_def
    using H(5) K(5) by (intro on_bits_holds [OF s unionWith_spec [OF H(1) K(1) e]]) auto
  show "\<exists>s'. tis_assignFrom s t = Inr s' \<and> holds s' n B" unfolding tis_assignFrom_def
    using K(5) by (intro on_bits_holds [OF s assignFrom_spec [OF H(1) K(1) e]]) auto
  have "\<exists>s'. on_bits s (unsetFrom (internal_bitvector s) (internal_bitvector t)) = Inr s' \<and> holds s' n (A - B)"
    using H(5) K(5) by (intro on_bits_holds [OF s unsetFrom_spec [OF H(1) K(1) H(2) K(2)]]) auto
  then show "\<exists>s'. intersectWithComplement s t = Inr s' \<and> holds s' n (A - B)"
    using H(7) K(7) by (simp add: intersectWithComplement_def)
qed

section \<open>Iteration\<close>

lemma first_from_step: "p < n \<Longrightarrow> first_from P p n = (if P p then p else first_from P (Suc p) n)"
  by (simp add: first_from_def upt_conv_Cons)

lemma first_from_end [simp]: "first_from P n n = n"
  by (simp add: first_from_def)

lemma first_from_filter:
  "p \<le> n \<Longrightarrow> filter P [p..<n] = (if first_from P p n < n then first_from P p n # filter P [Suc (first_from P p n)..<n] else [])"
proof (induction "n - p" arbitrary: p)
  case (Suc k)
  then have p: "p < n" by simp
  show ?case using Suc.hyps(1) [of "Suc p"] Suc.hyps(2) p by (auto simp: upt_conv_Cons first_from_step)
qed simp

lemma first_from_le: "p \<le> n \<Longrightarrow> p \<le> first_from P p n \<and> first_from P p n \<le> n"
proof (induction "n - p" arbitrary: p)
  case (Suc k)
  then have p: "p < n" by simp
  then have "Suc p \<le> first_from P (Suc p) n \<and> first_from P (Suc p) n \<le> n"
    using Suc.hyps(1) [of "Suc p"] Suc.hyps(2) by simp
  then show ?case using p by (auto simp: first_from_step)
qed simp

lemma sorted_ids: "A \<subseteq> {..<n} \<Longrightarrow> sorted_list_of_set A = filter (\<lambda>i. i \<in> A) [0..<n]"
  by (rule sorted_distinct_set_unique) (auto simp: finite_subset sorted_wrt_filter)

lemma it_begin_holds: "holds s n A \<Longrightarrow> it_begin s = Inr (first_from (\<lambda>i. i \<in> A) 0 n)"
proof (cases "n = 0")
  case True
  assume "holds s n A"
  then show ?thesis using True holdsD(3) [of s n A] by (simp add: it_begin_def firstOne_def)
next
  case False
  assume "holds s n A"
  then show ?thesis using False holdsD [of s n A] firstOne_spec [of "internal_bitvector s" 0] by (simp add: it_begin_def)
qed

lemma it_inc_holds:
  assumes "holds s n A" and "p \<le> n"
  shows "it_inc s p = Inr (if p = n then n else first_from (\<lambda>i. i \<in> A) (Suc p) n)"
proof -
  note H = holdsD [OF assms(1)]
  have m: "(p + 1) mod 2 ^ 64 = Suc p" using assms(2) H(4) by simp
  consider "Suc p < n" | "Suc p = n" | "p = n" using assms(2) by linarith
  then show ?thesis
  proof cases
    case 1
    then show ?thesis using firstOne_spec [OF H(1), of "Suc p"] m H(3,5) by (simp add: it_inc_def Let_def)
  next
    case 2
    then show ?thesis using m H(3) by (auto simp: it_inc_def Let_def)
  next
    case 3
    then show ?thesis using m H(3) by (simp add: it_inc_def Let_def)
  qed
qed

lemma iterate_from_holds:
  assumes "holds s n A" and "p \<le> n" and "n - p \<le> fuel"
  shows "iterate_from s body fuel (first_from (\<lambda>i. i \<in> A) p n) acc
    = fold_res (\<lambda>a i. body a (int i)) acc (filter (\<lambda>i. i \<in> A) [p..<n])"
  using assms(2,3)
proof (induction fuel arbitrary: p acc)
  case 0
  then show ?case using holdsD(8) [OF assms(1)] by (simp add: iterate_from.simps)
next
  case (Suc fuel)
  note H = holdsD [OF assms(1)]
  let ?r = "first_from (\<lambda>i. i \<in> A) p n"
  show ?case
  proof (cases "?r < n")
    case True
    have r: "p \<le> ?r" using first_from_le Suc.prems(1) by blast
    have "it_deref s ?r = Inr (int ?r)" using True H(3,4) by (simp add: it_deref_def)
    moreover have "it_inc s ?r = Inr (first_from (\<lambda>i. i \<in> A) (Suc ?r) n)" using it_inc_holds [OF assms(1), of ?r] True by simp
    moreover have "iterate_from s body fuel (first_from (\<lambda>i. i \<in> A) (Suc ?r) n) acc'
        = fold_res (\<lambda>a i. body a (int i)) acc' (filter (\<lambda>i. i \<in> A) [Suc ?r..<n])" for acc'
      using True r Suc.prems by (intro Suc.IH) simp_all
    moreover have "filter (\<lambda>i. i \<in> A) [p..<n] = ?r # filter (\<lambda>i. i \<in> A) [Suc ?r..<n]"
      using first_from_filter [OF Suc.prems(1), of "\<lambda>i. i \<in> A"] True by simp
    ultimately show ?thesis using True H(8) by (simp add: iterate_from.simps)
  next
    case False
    then have "?r = n" using first_from_le [OF Suc.prems(1), of "\<lambda>i. i \<in> A"] by simp
    then show ?thesis using first_from_filter [OF Suc.prems(1), of "\<lambda>i. i \<in> A"] H(8) by (simp add: iterate_from.simps)
  qed
qed

lemma iterate_ids_holds:
  assumes "holds s n A"
  shows "iterate_ids s body acc = fold_res (\<lambda>a i. body a (int i)) acc (sorted_list_of_set A)"
  using iterate_from_holds [OF assms, of 0 n body acc] it_begin_holds [OF assms] holdsD(6,7) [OF assms]
  by (simp add: iterate_ids_def sorted_ids)

lemma it_dec_holds:
  assumes "holds s n A" and "p \<le> n"
  shows "it_dec s p = Inr (if A \<inter> {..<p} = {} then it_before_begin else Max (A \<inter> {..<p}))"
proof -
  note H = holdsD [OF assms(1)]
  have l: "lastOne (internal_bitvector s) p = Inr (last_before (\<lambda>i. i \<in> A) p n)"
    using lastOne_spec [OF H(1), of p] assms(2) H(3,4,5) by (simp add: kSizeTMax_def)
  show ?thesis
  proof (cases "A \<inter> {..<p} = {}")
    case True
    then have "find (\<lambda>i. i \<in> A) (rev [0..<p]) = None" by (auto simp: find_None_iff)
    then show ?thesis using True l H(3) by (simp add: it_dec_def last_before_def it_before_begin_def)
  next
    case False
    let ?m = "Max (A \<inter> {..<p})"
    have m: "?m \<in> A \<inter> {..<p}" by (rule Max_in) (use False in auto)
    have "last_before (\<lambda>i. i \<in> A) p n = ?m"
    proof (rule last_before_eq)
      fix j assume j: "?m < j" "j < p"
      show "j \<notin> A"
      proof
        assume "j \<in> A"
        then have "j \<le> ?m" using j(2) by (intro Max_ge) auto
        then show False using j(1) by simp
      qed
    qed (use m in auto)
    moreover have "?m \<noteq> n" using m assms(2) by auto
    ultimately show ?thesis using False l H(3) by (simp add: it_dec_def)
  qed
qed

lemma it_inc_before_begin: "it_inc s it_before_begin = it_begin s"
proof -
  have "(it_before_begin + 1) mod 2 ^ 64 = 0" by (simp add: it_before_begin_def kSizeTMax_def)
  then show ?thesis by (auto simp: it_inc_def it_begin_def firstOne_def)
qed

section \<open>The interface of the scans\<close>

text \<open>What the comparators use of a sequence: writing one id at a time, and visiting the ids of a filter.\<close>

locale tuple_id_set =
  fixes rep :: "'s \<Rightarrow> nat \<Rightarrow> nat set \<Rightarrow> bool"
    and put :: "'s \<Rightarrow> int \<Rightarrow> bool \<Rightarrow> 's result"
    and visit :: "'s \<Rightarrow> ('s \<Rightarrow> int \<Rightarrow> 's result) \<Rightarrow> 's \<Rightarrow> 's result"
  assumes put_law: "rep s n A \<Longrightarrow> i < n \<Longrightarrow> \<exists>s'. put s (int i) b = Inr s' \<and> rep s' n (if b then insert i A else A - {i})"
    and visit_law: "rep s n A \<Longrightarrow> visit s body acc = fold_res (\<lambda>a i. body a (int i)) acc (sorted_list_of_set A)"
    and bounded: "rep s n A \<Longrightarrow> A \<subseteq> {..<n}"
begin

text \<open>A loop that writes the result of a test for each of the given ids, which may leave out ids that fail.\<close>

lemma select_loop:
  assumes "rep s n A" and "distinct (map f xs)" and "f ` set xs \<inter> A = {}" and "\<And>x. x \<in> set xs \<Longrightarrow> f x < n"
    and "\<And>x r. x \<in> set xs \<Longrightarrow> body r x = (if keep x then put r (int (f x)) (P x) else Inr r)"
    and "\<And>x. x \<in> set xs \<Longrightarrow> P x \<Longrightarrow> keep x"
  shows "\<exists>s'. fold_res body s xs = Inr s' \<and> rep s' n (A \<union> f ` {x \<in> set xs. P x})"
  using assms
proof (induction xs arbitrary: s A)
  case Nil
  then show ?case by simp
next
  case (Cons x xs)
  let ?B = "if P x then insert (f x) A else A"
  have d: "A - {f x} = A" using Cons.prems(3) by auto
  have b: "body s x = (if keep x then put s (int (f x)) (P x) else Inr s)" using Cons.prems(5) [of x s] by simp
  have "\<exists>t. body s x = Inr t \<and> rep t n ?B"
  proof (cases "keep x")
    case True
    have "f x < n" using Cons.prems(4) [of x] by simp
    then show ?thesis using put_law [OF Cons.prems(1), of "f x" "P x"] b True by (cases "P x") (simp_all add: d)
  next
    case False
    then have "\<not> P x" using Cons.prems(6) [of x] by auto
    then show ?thesis using b False Cons.prems(1) by simp
  qed
  then obtain t where t: "body s x = Inr t" "rep t n ?B" by blast
  have "\<exists>s'. fold_res body t xs = Inr s' \<and> rep s' n (?B \<union> f ` {x \<in> set xs. P x})"
  proof (rule Cons.IH [OF t(2)])
    show "f ` set xs \<inter> ?B = {}" using Cons.prems(2,3) by auto
  qed (use Cons.prems in simp_all)
  then obtain s' where s': "fold_res body t xs = Inr s'" "rep s' n (?B \<union> f ` {x \<in> set xs. P x})" by blast
  have "?B \<union> f ` {x \<in> set xs. P x} = A \<union> f ` {y \<in> set (x # xs). P y}" by auto
  with s' t(1) show ?case by auto
qed

text \<open>The selection of the ids of a filter that pass a test.\<close>

lemma filter_loop:
  assumes "rep s n {}" and "rep t n F" and "\<And>i r. i \<in> F \<Longrightarrow> body r (int i) = put r (int i) (P i)"
  shows "\<exists>s'. visit t body s = Inr s' \<and> rep s' n {i \<in> F. P i}"
proof -
  have F: "finite F" "F \<subseteq> {..<n}" using bounded [OF assms(2)] finite_subset by auto
  have "\<exists>s'. fold_res (\<lambda>a i. body a (int i)) s (sorted_list_of_set F) = Inr s'
      \<and> rep s' n ({} \<union> id ` {i \<in> set (sorted_list_of_set F). P i})"
    by (rule select_loop [OF assms(1), where keep = "\<lambda>_. True"]) (use F assms(3) in auto)
  then show ?thesis using visit_law [OF assms(2)] F(1) by simp
qed

end

interpretation tis: tuple_id_set holds tis_set iterate_ids
  by unfold_locales (erule tis_set_holds iterate_ids_holds holdsD(6), assumption?)+

section \<open>Properties\<close>

text \<open>C21. A sequence of tuple ids is a set: on sequences of the same number of slots every operation succeeds
  and is the operation on the sets of ids, up to the overrun of \<^verbatim>\<open>setBitRange\<close> when a range reaches the
  last slot of a number of slots that is a multiple of 64; an id outside of the slots fails the check.\<close>

theorem sequence_operations_correct:
  assumes s: "holds s n A" and t: "holds t n B" and "first + k \<le> n" and i: "i < 2 ^ 64"
  shows "tis_empty s = Inr (A = {}) \<and> numTuples s = Inr (card A)
    \<and> tis_get s (int i) = (if i < n then Inr (i \<in> A) else Inl CheckFailed)
    \<and> (if i < n then \<exists>s'. tis_set s (int i) b = Inr s' \<and> holds s' n (if b then insert i A else A - {i})
       else tis_set s (int i) b = Inl CheckFailed)
    \<and> (if range_overruns n first k then setRange s (int first) (int k) b = Inl OutOfRange
       else \<exists>s'. setRange s (int first) (int k) b = Inr s'
         \<and> holds s' n (if b then A \<union> {first..<first + k} else A - {first..<first + k}))
    \<and> (\<exists>s'. tis_invert s = Inr s' \<and> holds s' n ({..<n} - A))
    \<and> (\<exists>s'. tis_intersectWith s t = Inr s' \<and> holds s' n (A \<inter> B))
    \<and> (\<exists>s'. tis_unionWith s t = Inr s' \<and> holds s' n (A \<union> B))
    \<and> (\<exists>s'. intersectWithComplement s t = Inr s' \<and> holds s' n (A - B))
    \<and> (\<exists>s'. tis_assignFrom s t = Inr s' \<and> holds s' n B)"
proof (intro conjI)
  note H = holdsD [OF s]
  show "tis_empty s = Inr (A = {})" by (rule tis_empty_holds [OF s])
  show "numTuples s = Inr (card A)" by (rule numTuples_holds [OF s])
  show "tis_get s (int i) = (if i < n then Inr (i \<in> A) else Inl CheckFailed)"
    using tis_get_holds [OF s, of i] H(7) i by (simp add: tis_get_def)
  show "if i < n then \<exists>s'. tis_set s (int i) b = Inr s' \<and> holds s' n (if b then insert i A else A - {i})
       else tis_set s (int i) b = Inl CheckFailed"
    using tis_set_holds [OF s, of i b] H(7) i by (simp add: tis_set_def)
qed (use setRange_holds [OF s assms(3)] tis_invert_holds [OF s] combine_holds [OF s t] in \<open>simp_all only:\<close>)

text \<open>C22. Iterating over a sequence visits exactly its ids, in increasing order, each once, within as many
  iterations as there are slots; \<^verbatim>\<open>begin\<close> is the first increment of \<^verbatim>\<open>before_begin\<close>, and a decrement goes to
  the largest smaller id, or before the begin.\<close>

theorem iteration_correct:
  assumes "holds s n A"
  shows "iterate_ids s body acc = fold_res (\<lambda>a i. body a (int i)) acc (sorted_list_of_set A)
    \<and> it_inc s it_before_begin = it_begin s
    \<and> (p \<le> n \<longrightarrow> it_dec s p = Inr (if A \<inter> {..<p} = {} then it_before_begin else Max (A \<inter> {..<p})))"
  by (intro conjI impI iterate_ids_holds [OF assms] it_dec_holds [OF assms] it_inc_before_begin)

section \<open>Witnesses\<close>

theorem sequence_operations_correct_witness:
  "holds (make_sequence 128) 128 {} \<and> numTuples (make_sequence 128) = Inr 0
   \<and> setRange (make_sequence 128) 0 128 True = Inl OutOfRange"
  using make_sequence_holds [of 128]
    sequence_operations_correct [OF make_sequence_holds [of 128] make_sequence_holds [of 128], of 0 128 0 True, simplified]
  by (simp add: range_overruns_def)

theorem iteration_correct_witness:
  "\<exists>s. holds s 70 {3, 69} \<and> iterate_ids s (\<lambda>l t. Inr (l @ [t])) [] = Inr [3, 69] \<and> it_dec s 69 = Inr 3"
proof -
  obtain s1 where "holds s1 70 {69}" using tis_set_holds [OF make_sequence_holds [of 70], of 69 True] by auto
  then obtain s where s: "holds s 70 {3, 69}" using tis_set_holds [of s1 70 "{69}" 3 True] by auto
  have "{3, 69} \<inter> {..<69} = {3 :: nat}" by auto
  then show ?thesis using s iteration_correct [OF s, of "\<lambda>l t. Inr (l @ [t])" "[]" 69] by auto
qed

end
