(* ===== verification/ValueAccessors.thy ===== *)
theory ValueAccessors
  imports TupleIdSequences
begin

text \<open>
  Value accessors (\<^verbatim>\<open>storage/ValueAccessor.hpp\<close>): the cursors through which expressions read the tuples
  of a block.  Three classes are modelled: the accessor of a packed sub-block, and the adapters that
  restrict another accessor to a set or to a list of tuple ids.  The layout of the block is behind the
  record \<open>Helper\<close>, as in the code: it gives the value of an attribute of a tuple, \<^term>\<open>None\<close> for
  NULL.  The loop \<^verbatim>\<open>while (accessor->next())\<close> is shown to visit the tuples of the accessor in order.
\<close>

record 'v Helper =
  numPackedTuples :: nat
  getAttributeValue :: "int \<Rightarrow> nat \<Rightarrow> 'v option"

text \<open>The last argument of each constructor is the position of the cursor: \<^verbatim>\<open>current_tuple_\<close> of a packed
  accessor, and \<^verbatim>\<open>current_position_\<close> of the adapters.\<close>

datatype 'v ValueAccessor =
    PackedAccessor "'v Helper" int
  | SequenceAdapter "'v Helper" TupleIdSequence nat
  | OrderedAdapter "'v Helper" "int list" nat

definition new_PackedAccessor :: "'v Helper \<Rightarrow> 'v ValueAccessor" where
  "new_PackedAccessor helper = PackedAccessor helper (- 1)"

definition new_SequenceAdapter :: "'v Helper \<Rightarrow> TupleIdSequence \<Rightarrow> 'v ValueAccessor" where
  "new_SequenceAdapter helper id_sequence = SequenceAdapter helper id_sequence it_before_begin"

definition new_OrderedAdapter :: "'v Helper \<Rightarrow> int list \<Rightarrow> 'v ValueAccessor" where
  "new_OrderedAdapter helper id_sequence = OrderedAdapter helper id_sequence kSizeTMax"

fun beginIteration :: "'v ValueAccessor \<Rightarrow> 'v ValueAccessor" where
  "beginIteration (PackedAccessor h _) = PackedAccessor h (- 1)"
| "beginIteration (SequenceAdapter h s _) = SequenceAdapter h s it_before_begin"
| "beginIteration (OrderedAdapter h ids _) = OrderedAdapter h ids kSizeTMax"

fun iterationFinished :: "'v ValueAccessor \<Rightarrow> bool result" where
  "iterationFinished (PackedAccessor h t) = Inr (int (numPackedTuples h) \<le> t + 1)"
| "iterationFinished (SequenceAdapter h s p) = and_then (it_inc s p) (\<lambda>q. Inr (p = it_end s \<or> q = it_end s))"
| "iterationFinished (OrderedAdapter h ids p) = Inr (length ids \<le> (p + 1) mod 2 ^ 64)"

fun next_tuple :: "'v ValueAccessor \<Rightarrow> (bool \<times> 'v ValueAccessor) result" where
  "next_tuple (PackedAccessor h t) = Inr (t + 1 < int (numPackedTuples h), PackedAccessor h (t + 1))"
| "next_tuple (SequenceAdapter h s p) = and_then (it_inc s p) (\<lambda>q. Inr (q \<noteq> it_end s, SequenceAdapter h s q))"
| "next_tuple (OrderedAdapter h ids p) =
     (let q = (p + 1) mod 2 ^ 64 in Inr (q \<noteq> length ids, OrderedAdapter h ids q))"

fun previous_tuple :: "'v ValueAccessor \<Rightarrow> 'v ValueAccessor result" where
  "previous_tuple (PackedAccessor h t) = Inr (PackedAccessor h (t - 1))"
| "previous_tuple (SequenceAdapter h s p) = and_then (it_dec s p) (\<lambda>q. Inr (SequenceAdapter h s q))"
| "previous_tuple (OrderedAdapter h ids p) = Inr (OrderedAdapter h ids ((p + 2 ^ 64 - 1) mod 2 ^ 64))"

fun getCurrentPosition :: "'v ValueAccessor \<Rightarrow> int result" where
  "getCurrentPosition (PackedAccessor h t) = Inr t"
| "getCurrentPosition (SequenceAdapter h s p) = it_deref s p"
| "getCurrentPosition (OrderedAdapter h ids p) = vec_at ids p"

fun getEndPosition :: "'v ValueAccessor \<Rightarrow> int" where
  "getEndPosition (PackedAccessor h t) = int (numPackedTuples h)"
| "getEndPosition (SequenceAdapter h s p) = to_int32 (tis_length s)"
| "getEndPosition (OrderedAdapter h ids p) = (if ids \<noteq> [] then fold max ids (hd ids) else 0) + 1"

fun getNumTuples :: "'v ValueAccessor \<Rightarrow> int result" where
  "getNumTuples (PackedAccessor h t) = Inr (int (numPackedTuples h))"
| "getNumTuples (SequenceAdapter h s p) = and_then (numTuples s) (\<lambda>n. Inr (to_int32 n))"
| "getNumTuples (OrderedAdapter h ids p) = Inr (to_int32 (length ids))"

text \<open>Reading a value at a given tuple and at the cursor.  With \<^verbatim>\<open>check_null\<close> false the code does not look at
  the null bitmap; what it reads at a NULL is not a value of the attribute.\<close>

definition read_value :: "bool \<Rightarrow> 'v option \<Rightarrow> 'v option result" where
  "read_value check_null x = (if x = None \<and> \<not> check_null then Inl UndefinedBehaviour else Inr x)"

fun getUntypedValueAtAbsolutePosition :: "bool \<Rightarrow> 'v ValueAccessor \<Rightarrow> nat \<Rightarrow> int \<Rightarrow> 'v option result" where
  "getUntypedValueAtAbsolutePosition check_null (PackedAccessor h t) attr_id tid =
     read_value check_null (getAttributeValue h tid attr_id)"
| "getUntypedValueAtAbsolutePosition check_null (SequenceAdapter h s p) attr_id tid =
     read_value check_null (getAttributeValue h tid attr_id)"
| "getUntypedValueAtAbsolutePosition check_null (OrderedAdapter h ids p) attr_id tid = Inl FatalLog"

fun getUntypedValue :: "bool \<Rightarrow> 'v ValueAccessor \<Rightarrow> nat \<Rightarrow> 'v option result" where
  "getUntypedValue check_null (PackedAccessor h t) attr_id = read_value check_null (getAttributeValue h t attr_id)"
| "getUntypedValue check_null (SequenceAdapter h s p) attr_id =
     and_then (it_deref s p) (\<lambda>tid. read_value check_null (getAttributeValue h tid attr_id))"
| "getUntypedValue check_null (OrderedAdapter h ids p) attr_id =
     and_then (vec_at ids p) (\<lambda>tid. read_value check_null (getAttributeValue h tid attr_id))"

fun getTypedValueAtAbsolutePosition :: "'v ValueAccessor \<Rightarrow> nat \<Rightarrow> int \<Rightarrow> 'v option result" where
  "getTypedValueAtAbsolutePosition (PackedAccessor h t) attr_id tid = Inr (getAttributeValue h tid attr_id)"
| "getTypedValueAtAbsolutePosition (SequenceAdapter h s p) attr_id tid = Inr (getAttributeValue h tid attr_id)"
| "getTypedValueAtAbsolutePosition (OrderedAdapter h ids p) attr_id tid = Inl FatalLog"

text \<open>An adapter of an adapter restricts the accessor below, not the adapter.\<close>

fun createSharedTupleIdSequenceAdapter :: "'v ValueAccessor \<Rightarrow> TupleIdSequence \<Rightarrow> 'v ValueAccessor" where
  "createSharedTupleIdSequenceAdapter (PackedAccessor h t) id_sequence = new_SequenceAdapter h id_sequence"
| "createSharedTupleIdSequenceAdapter (SequenceAdapter h s p) id_sequence = new_SequenceAdapter h id_sequence"
| "createSharedTupleIdSequenceAdapter (OrderedAdapter h ids p) id_sequence = new_SequenceAdapter h id_sequence"

fun createSharedOrderedTupleIdSequenceAdapter :: "'v ValueAccessor \<Rightarrow> int list \<Rightarrow> 'v ValueAccessor" where
  "createSharedOrderedTupleIdSequenceAdapter (PackedAccessor h t) ids' = new_OrderedAdapter h ids'"
| "createSharedOrderedTupleIdSequenceAdapter (SequenceAdapter h s p) ids' = new_OrderedAdapter h ids'"
| "createSharedOrderedTupleIdSequenceAdapter (OrderedAdapter h ids p) ids' = new_OrderedAdapter h ids'"

fun getTupleIdSequence :: "'v ValueAccessor \<Rightarrow> TupleIdSequence option result" where
  "getTupleIdSequence (PackedAccessor h t) = Inr None"
| "getTupleIdSequence (SequenceAdapter h s p) = Inr (Some s)"
| "getTupleIdSequence (OrderedAdapter h ids p) = Inl FatalLog"

text \<open>The loop \<^verbatim>\<open>while (accessor->next())\<close>; the bound is the number of tuples visited.\<close>

fun while_next :: "nat \<Rightarrow> ('a \<Rightarrow> 'v ValueAccessor \<Rightarrow> 'a result) \<Rightarrow> 'v ValueAccessor \<Rightarrow> 'a \<Rightarrow> ('v ValueAccessor \<times> 'a) result" where
  "while_next fuel body a acc =
     and_then (next_tuple a) (\<lambda>(more, a').
       if \<not> more then Inr (a', acc)
       else case fuel of
         0 \<Rightarrow> Inl OutOfFuel
       | Suc fuel' \<Rightarrow> and_then (body acc a') (\<lambda>acc'. while_next fuel' body a' acc'))"

declare while_next.simps [simp del]

fun tuple_bound :: "'v ValueAccessor \<Rightarrow> nat" where
  "tuple_bound (PackedAccessor h t) = numPackedTuples h"
| "tuple_bound (SequenceAdapter h s p) = tis_length s"
| "tuple_bound (OrderedAdapter h ids p) = length ids"

definition for_each_tuple :: "('a \<Rightarrow> 'v ValueAccessor \<Rightarrow> 'a result) \<Rightarrow> 'v ValueAccessor \<Rightarrow> 'a \<Rightarrow> 'a result" where
  "for_each_tuple body a acc =
     and_then (while_next (tuple_bound a) body (beginIteration a) acc) (\<lambda>(a', acc'). Inr acc')"

section \<open>The tuples of an accessor\<close>

text \<open>The accessor is over fewer tuples than an \<^verbatim>\<open>int\<close> can count, and the set of an adapter is given.\<close>

fun accessor_ids :: "'v ValueAccessor \<Rightarrow> int list \<Rightarrow> bool" where
  "accessor_ids (PackedAccessor h t) l \<longleftrightarrow> numPackedTuples h < 2 ^ 31 \<and> l = map int [0..<numPackedTuples h]"
| "accessor_ids (SequenceAdapter h s p) l \<longleftrightarrow> (\<exists>n A. holds s n A \<and> l = map int (sorted_list_of_set A))"
| "accessor_ids (OrderedAdapter h ids p) l \<longleftrightarrow> length ids < 2 ^ 31 \<and> l = ids"

text \<open>The cursor at the \<open>k\<close>-th tuple.\<close>

fun cursor_at :: "'v ValueAccessor \<Rightarrow> nat \<Rightarrow> int \<Rightarrow> 'v ValueAccessor" where
  "cursor_at (PackedAccessor h t) k tid = PackedAccessor h tid"
| "cursor_at (SequenceAdapter h s p) k tid = SequenceAdapter h s (nat tid)"
| "cursor_at (OrderedAdapter h ids p) k tid = OrderedAdapter h ids k"

text \<open>The cursor moves through the given states, and then off the end.\<close>

fun moves :: "'v ValueAccessor \<Rightarrow> 'v ValueAccessor list \<Rightarrow> 'v ValueAccessor \<Rightarrow> bool" where
  "moves a [] e \<longleftrightarrow> next_tuple a = Inr (False, e)"
| "moves a (c # cs) e \<longleftrightarrow> next_tuple a = Inr (True, c) \<and> moves c cs e"

lemma while_next_moves:
  "moves a cs e \<Longrightarrow> length cs \<le> fuel \<Longrightarrow>
   while_next fuel body a acc = and_then (fold_res body acc cs) (\<lambda>acc'. Inr (e, acc'))"
proof (induction cs arbitrary: a acc fuel)
  case Nil
  then show ?case by (simp add: while_next.simps)
next
  case (Cons c cs)
  obtain f where f: "fuel = Suc f" using Cons.prems(2) by (cases fuel) auto
  have "while_next f body c = (\<lambda>acc'. and_then (fold_res body acc' cs) (\<lambda>acc''. Inr (e, acc'')))"
    using Cons.IH Cons.prems f by (intro ext) simp
  then show ?case using Cons.prems(1) f by (simp add: while_next.simps [of "Suc f"] and_then_assoc)
qed

lemma packed_moves:
  "k \<le> numPackedTuples h \<Longrightarrow>
   moves (PackedAccessor h (int k - 1)) (map (\<lambda>i. PackedAccessor h (int i)) [k..<numPackedTuples h]) (PackedAccessor h (int (numPackedTuples h)))"
proof (induction "numPackedTuples h - k" arbitrary: k)
  case (Suc m)
  then have k: "k < numPackedTuples h" by simp
  have "moves (PackedAccessor h (int (Suc k) - 1)) (map (\<lambda>i. PackedAccessor h (int i)) [Suc k..<numPackedTuples h])
      (PackedAccessor h (int (numPackedTuples h)))"
    using Suc.hyps(1) [of "Suc k"] Suc.hyps(2) k by simp
  then show ?case using k by (simp add: upt_conv_Cons)
qed simp

lemma sequence_moves:
  assumes "holds s n A" and "q \<le> n" and "it_inc s p = Inr (first_from (\<lambda>i. i \<in> A) q n)"
  shows "moves (SequenceAdapter h s p) (map (SequenceAdapter h s) (filter (\<lambda>i. i \<in> A) [q..<n])) (SequenceAdapter h s n)"
  using assms(2,3)
proof (induction "n - q" arbitrary: p q rule: less_induct)
  case less
  let ?r = "first_from (\<lambda>i. i \<in> A) q n"
  have r: "q \<le> ?r" "?r \<le> n" using first_from_le [OF less.prems(1)] by blast+
  have e: "it_end s = n" using holdsD(8) [OF assms(1)] .
  show ?case
  proof (cases "?r < n")
    case True
    have "it_inc s ?r = Inr (first_from (\<lambda>i. i \<in> A) (Suc ?r) n)" using it_inc_holds [OF assms(1), of ?r] True by simp
    then have "moves (SequenceAdapter h s ?r) (map (SequenceAdapter h s) (filter (\<lambda>i. i \<in> A) [Suc ?r..<n])) (SequenceAdapter h s n)"
      using True r by (intro less.hyps) simp_all
    then show ?thesis using first_from_filter [OF less.prems(1), of "\<lambda>i. i \<in> A"] True less.prems(2) e by simp
  next
    case False
    then have "?r = n" using r by simp
    then show ?thesis using first_from_filter [OF less.prems(1), of "\<lambda>i. i \<in> A"] less.prems(2) e by simp
  qed
qed

lemma ordered_moves:
  assumes "length ids < 2 ^ 31"
  shows "k \<le> length ids \<Longrightarrow> (p + 1) mod 2 ^ 64 = k \<Longrightarrow>
    moves (OrderedAdapter h ids p) (map (OrderedAdapter h ids) [k..<length ids]) (OrderedAdapter h ids (length ids))"
proof (induction "length ids - k" arbitrary: k p)
  case (Suc m)
  then have k: "k < length ids" by simp
  then have "(k + 1) mod 2 ^ 64 = Suc k" using assms by simp
  then have "moves (OrderedAdapter h ids k) (map (OrderedAdapter h ids) [Suc k..<length ids]) (OrderedAdapter h ids (length ids))"
    using Suc.hyps(1) [of "Suc k" k] Suc.hyps(2) k by simp
  then show ?case using k Suc.prems(2) by (simp add: upt_conv_Cons)
qed simp

text \<open>The states of the cursor during an iteration.\<close>

definition cursors :: "'v ValueAccessor \<Rightarrow> int list \<Rightarrow> 'v ValueAccessor list" where
  "cursors a l = map (\<lambda>k. cursor_at a k (l ! k)) [0..<length l]"

lemma accessor_moves:
  assumes "accessor_ids a l"
  shows "\<exists>e. moves (beginIteration a) (cursors a l) e \<and> iterationFinished e = Inr True"
proof (cases a)
  case (PackedAccessor h t)
  have "cursors a l = map (\<lambda>i. PackedAccessor h (int i)) [0..<numPackedTuples h]"
    using assms PackedAccessor by (simp add: cursors_def)
  then show ?thesis using packed_moves [of 0 h] PackedAccessor by (auto intro!: exI)
next
  case (SequenceAdapter h s p)
  then obtain n A where s: "holds s n A" and l: "l = map int (sorted_list_of_set A)" using assms by auto
  have ids: "sorted_list_of_set A = filter (\<lambda>i. i \<in> A) [0..<n]" using sorted_ids holdsD(6) [OF s] by blast
  have "cursors a l = map (SequenceAdapter h s) (sorted_list_of_set A)"
    using SequenceAdapter l by (auto simp: cursors_def intro: nth_equalityI)
  moreover have "moves (SequenceAdapter h s it_before_begin) (map (SequenceAdapter h s) (sorted_list_of_set A)) (SequenceAdapter h s n)"
    unfolding ids using sequence_moves [OF s, of 0 it_before_begin h] it_begin_holds [OF s] it_inc_before_begin [of s] by simp
  moreover have "iterationFinished (SequenceAdapter h s n) = Inr True"
    using it_inc_holds [OF s, of n] holdsD(8) [OF s] by simp
  ultimately show ?thesis using SequenceAdapter by auto
next
  case (OrderedAdapter h ids p)
  then have l: "l = ids" "length ids < 2 ^ 31" using assms by auto
  have "cursors a l = map (OrderedAdapter h ids) [0..<length ids]" using OrderedAdapter l by (simp add: cursors_def)
  moreover have "moves (OrderedAdapter h ids kSizeTMax) (map (OrderedAdapter h ids) [0..<length ids]) (OrderedAdapter h ids (length ids))"
    by (rule ordered_moves) (use l in \<open>simp_all add: kSizeTMax_def\<close>)
  moreover have "iterationFinished (OrderedAdapter h ids (length ids)) = Inr True" using l by simp
  ultimately show ?thesis using OrderedAdapter by auto
qed

fun helper_of :: "'v ValueAccessor \<Rightarrow> 'v Helper" where
  "helper_of (PackedAccessor h t) = h"
| "helper_of (SequenceAdapter h s p) = h"
| "helper_of (OrderedAdapter h ids p) = h"

lemma accessor_ids_length:
  assumes "accessor_ids a l"
  shows "length l \<le> tuple_bound a" "getNumTuples a = Inr (int (length l))"
proof -
  show "length l \<le> tuple_bound a"
  proof (cases a)
    case (SequenceAdapter h s p)
    then obtain n A where s: "holds s n A" and l: "l = map int (sorted_list_of_set A)" using assms by auto
    have "card A \<le> card {..<n}" by (rule card_mono) (use holdsD(6) [OF s] in auto)
    then show ?thesis using SequenceAdapter l holdsD(7) [OF s] by simp
  qed (use assms in auto)
  show "getNumTuples a = Inr (int (length l))"
  proof (cases a)
    case (SequenceAdapter h s p)
    then obtain n A where s: "holds s n A" and l: "l = map int (sorted_list_of_set A)" using assms by auto
    have "card A \<le> card {..<n}" by (rule card_mono) (use holdsD(6) [OF s] in auto)
    then show ?thesis using SequenceAdapter l numTuples_holds [OF s] holdsD(4) [OF s] by simp
  qed (use assms in auto)
qed

lemma for_each_cursor:
  assumes "accessor_ids a l"
  shows "for_each_tuple body a acc = fold_res body acc (cursors a l)"
proof -
  obtain e where "moves (beginIteration a) (cursors a l) e" using accessor_moves [OF assms] by blast
  then have "while_next (tuple_bound a) body (beginIteration a) acc = and_then (fold_res body acc (cursors a l)) (\<lambda>acc'. Inr (e, acc'))"
    using accessor_ids_length(1) [OF assms] by (intro while_next_moves) (simp_all add: cursors_def)
  then show ?thesis by (cases "fold_res body acc (cursors a l)") (simp_all add: for_each_tuple_def)
qed

lemma cursor_reads:
  assumes "accessor_ids a l" and "k < length l"
  shows "getCurrentPosition (cursor_at a k (l ! k)) = Inr (l ! k)"
    and "getUntypedValue b (cursor_at a k (l ! k)) attr = read_value b (getAttributeValue (helper_of a) (l ! k) attr)"
proof -
  have "getCurrentPosition (cursor_at a k (l ! k)) = Inr (l ! k)
    \<and> getUntypedValue b (cursor_at a k (l ! k)) attr = read_value b (getAttributeValue (helper_of a) (l ! k) attr)"
  proof (cases a)
    case (SequenceAdapter h s p)
    then obtain n A where s: "holds s n A" and l: "l = map int (sorted_list_of_set A)" using assms(1) by auto
    have "sorted_list_of_set A ! k \<in> A" using assms(2) l holds_finite [OF s] nth_mem [of k "sorted_list_of_set A"] by simp
    then have "sorted_list_of_set A ! k < n" using holdsD(6) [OF s] by auto
    then have "it_deref s (nat (l ! k)) = Inr (l ! k)" using assms(2) l holdsD(3,4) [OF s] by (simp add: it_deref_def)
    then show ?thesis using SequenceAdapter by simp
  qed (use assms in auto)
  then show "getCurrentPosition (cursor_at a k (l ! k)) = Inr (l ! k)"
    "getUntypedValue b (cursor_at a k (l ! k)) attr = read_value b (getAttributeValue (helper_of a) (l ! k) attr)" by blast+
qed

text \<open>A body that depends on the tuple at the cursor only.\<close>

lemma for_each_id:
  assumes a: "accessor_ids a l"
    and body: "\<And>acc k. k < length l \<Longrightarrow> body acc (cursor_at a k (l ! k)) = g acc (l ! k)"
  shows "for_each_tuple body a acc = fold_res g acc l"
proof -
  have "fold_res body acc (map (\<lambda>k. cursor_at a k (l ! k)) ks) = fold_res g acc (map ((!) l) ks)"
    if "\<forall>k \<in> set ks. k < length l" for ks acc
    using that body by (induction ks arbitrary: acc) (auto intro: and_then_cong)
  from this [of "[0..<length l]" acc] show ?thesis using for_each_cursor [OF a, of body acc] by (simp add: cursors_def map_nth)
qed

section \<open>Properties\<close>

text \<open>C23. Iterating over any of the three accessors visits exactly its tuples, in order, with the cursor at
  the tuple whose value is read; the number of tuples is their number.  A body that uses the position
  and the value of an attribute therefore computes the fold over the ids.\<close>

theorem accessor_iteration_correct:
  assumes "accessor_ids a l"
  shows "getNumTuples a = Inr (int (length l))
    \<and> for_each_tuple (\<lambda>acc c. and_then (getCurrentPosition c) (\<lambda>t. and_then (getUntypedValue check_null c attr) (\<lambda>v. body acc t v))) a acc
      = fold_res (\<lambda>acc t. and_then (read_value check_null (getAttributeValue (helper_of a) t attr)) (\<lambda>v. body acc t v)) acc l"
  using accessor_ids_length(2) [OF assms]
  by (intro conjI for_each_id [OF assms]) (simp_all add: cursor_reads [OF assms])

section \<open>Witnesses\<close>

definition example_helper :: "int Helper" where
  "example_helper = \<lparr>numPackedTuples = 3, getAttributeValue = (\<lambda>t k. if t = 1 then None else Some (10 * t))\<rparr>"

theorem accessor_iteration_correct_witness:
  "accessor_ids (new_OrderedAdapter example_helper [2, 0]) [2, 0] \<and>
   for_each_tuple (\<lambda>acc c. and_then (getCurrentPosition c) (\<lambda>t. and_then (getUntypedValue True c 0) (\<lambda>v. Inr (acc @ [(t, v)]))))
     (new_OrderedAdapter example_helper [2, 0]) [] = Inr [(2, Some 20), (0, Some 0)]"
proof -
  have a: "accessor_ids (new_OrderedAdapter example_helper [2, 0]) [2, 0]" by (simp add: new_OrderedAdapter_def)
  show ?thesis using a accessor_iteration_correct [OF a, of True 0 "\<lambda>acc t v. Inr (acc @ [(t, v)])" "[]"]
    by (simp add: read_value_def new_OrderedAdapter_def example_helper_def)
qed

end
