(* ===== verification/Comparators.thy ===== *)
theory Comparators
  imports ValueAccessors
begin

text \<open>
  The comparators of literals (\<^verbatim>\<open>LiteralUncheckedComparator\<close>): the vectorised comparisons of columns, of
  attributes read through an accessor, and of static values, and the accumulation of a minimum or a
  maximum.  A comparator is its functor and the nullability of its two arguments, the template arguments
  of the class; a value is \<^term>\<open>None\<close> if it is NULL.  \<open>short_circuit\<close> is the compile-time option
  \<^verbatim>\<open>QUICKSTEP_ENABLE_VECTOR_PREDICATE_SHORT_CIRCUIT\<close>.  The access through a column accessor reads the same
  cells as the access through the value accessor and is not distinguished from it.  Every routine is
  shown to select exactly the tuples for which the comparison of the two values holds.
\<close>

section \<open>Single comparisons\<close>

record 'v Comparator =
  comparison_functor :: "'v \<Rightarrow> 'v \<Rightarrow> bool"
  left_nullable :: bool
  right_nullable :: bool

definition apply_functor :: "cpp_error \<Rightarrow> 'v Comparator \<Rightarrow> 'v option \<Rightarrow> 'v option \<Rightarrow> bool result" where
  "apply_functor e c left right =
     (case (left, right) of (Some x, Some y) \<Rightarrow> Inr (comparison_functor c x y) | _ \<Rightarrow> Inl e)"

definition compareTypedValues :: "'v Comparator \<Rightarrow> 'v option \<Rightarrow> 'v option \<Rightarrow> bool result" where
  "compareTypedValues c left right =
     (if left_nullable c \<and> left = None \<or> right_nullable c \<and> right = None then Inr False
      else apply_functor CheckFailed c left right)"

definition compareDataPtrs :: "'v Comparator \<Rightarrow> 'v option \<Rightarrow> 'v option \<Rightarrow> bool result" where
  "compareDataPtrs c left right =
     (if left_nullable c \<and> left = None \<or> right_nullable c \<and> right = None then Inr False
      else apply_functor NullPointer c left right)"

definition compareDataPtrsHelper :: "'v Comparator \<Rightarrow> bool \<Rightarrow> 'v option \<Rightarrow> 'v option \<Rightarrow> bool result" where
  "compareDataPtrsHelper c arguments_in_order left right =
     (if arguments_in_order then apply_functor NullPointer c left right else apply_functor NullPointer c right left)"

section \<open>Columns\<close>

type_synonym 'v column = "'v option list"

text \<open>\<^verbatim>\<open>NativeColumnVector::getUntypedValue\<close>.\<close>

definition cv_value :: "bool \<Rightarrow> 'v column \<Rightarrow> nat \<Rightarrow> 'v option result" where
  "cv_value check_null cv pos =
     and_then (check CheckFailed (pos < length cv)) (\<lambda>_. read_value check_null (cv ! pos))"

definition column_checks :: "nat \<Rightarrow> TupleIdSequence option \<Rightarrow> TupleIdSequence option \<Rightarrow> unit result" where
  "column_checks n filter_ids existence_bitmap =
     and_then (case existence_bitmap of None \<Rightarrow> Inr () | Some e \<Rightarrow> and_then (numTuples e) (\<lambda>k. check CheckFailed (k = n))) (\<lambda>_.
       case filter_ids of
         None \<Rightarrow> Inr ()
       | Some f \<Rightarrow> check CheckFailed (tis_length f = (case existence_bitmap of None \<Rightarrow> n | Some e \<Rightarrow> tis_length e)))"

definition new_result :: "nat \<Rightarrow> TupleIdSequence option \<Rightarrow> TupleIdSequence" where
  "new_result n existence_bitmap = make_sequence (case existence_bitmap of None \<Rightarrow> n | Some e \<Rightarrow> tis_length e)"

text \<open>The loop over a column whose positions are the ids of the existence bitmap, with its two checks of
  the iterator.\<close>

definition existence_step ::
    "TupleIdSequence \<Rightarrow> ('a \<Rightarrow> nat \<Rightarrow> int \<Rightarrow> 'a result) \<Rightarrow> 'a \<times> nat \<Rightarrow> nat \<Rightarrow> ('a \<times> nat) result" where
  "existence_step e body = (\<lambda>(acc, existence_it) cv_pos.
     and_then (check CheckFailed (existence_it \<noteq> it_end e)) (\<lambda>_.
     and_then (it_deref e existence_it) (\<lambda>t.
     and_then (body acc cv_pos t) (\<lambda>acc'.
     and_then (it_inc e existence_it) (\<lambda>existence_it'. Inr (acc', existence_it'))))))"

definition existence_loop ::
    "TupleIdSequence \<Rightarrow> ('a \<Rightarrow> nat \<Rightarrow> int \<Rightarrow> 'a result) \<Rightarrow> nat \<Rightarrow> 'a \<Rightarrow> 'a result" where
  "existence_loop e body n acc =
     and_then (it_begin e) (\<lambda>existence_it.
     and_then (fold_res (existence_step e body) (acc, existence_it) [0..<n]) (\<lambda>(acc', existence_it').
     and_then (check CheckFailed (existence_it' = it_end e)) (\<lambda>_. Inr acc')))"

definition intersect_filter :: "bool \<Rightarrow> TupleIdSequence option \<Rightarrow> TupleIdSequence \<Rightarrow> TupleIdSequence result" where
  "intersect_filter short_circuit filter_ids res =
     (case filter_ids of None \<Rightarrow> Inr res | Some f \<Rightarrow> if \<not> short_circuit then tis_intersectWith res f else Inr res)"

definition compareColumnVectors ::
    "bool \<Rightarrow> 'v Comparator \<Rightarrow> 'v column \<Rightarrow> 'v column \<Rightarrow> TupleIdSequence option \<Rightarrow> TupleIdSequence option
       \<Rightarrow> TupleIdSequence result" where
  "compareColumnVectors short_circuit c left right filter_ids existence_bitmap =
     and_then (check CheckFailed (length left = length right)) (\<lambda>_.
     and_then (column_checks (length left) filter_ids existence_bitmap) (\<lambda>_.
       (let result = new_result (length left) existence_bitmap;
            test = (\<lambda>pos. and_then (cv_value (left_nullable c) left pos) (\<lambda>l.
              and_then (cv_value (right_nullable c) right pos) (\<lambda>r. compareDataPtrs c l r))) in
        case (if short_circuit then filter_ids else None) of
          Some f \<Rightarrow>
            (case existence_bitmap of
               Some e \<Rightarrow> existence_loop e (\<lambda>res cv_pos t.
                 and_then (tis_get f t) (\<lambda>on.
                 and_then (if on then test cv_pos else Inr False) (\<lambda>b. tis_set res t b))) (length left) result
             | None \<Rightarrow> iterate_ids f (\<lambda>res t. and_then (test (to_size_t t)) (\<lambda>b. tis_set res t b)) result)
        | None \<Rightarrow>
            and_then
              (case existence_bitmap of
                 Some e \<Rightarrow> existence_loop e (\<lambda>res cv_pos t. and_then (test cv_pos) (\<lambda>b. tis_set res t b)) (length left) result
               | None \<Rightarrow> fold_res (\<lambda>res pos. and_then (test pos) (\<lambda>b. tis_set res (int pos) b)) result [0..<length left])
              (intersect_filter short_circuit filter_ids))))"

text \<open>The comparison of a value that the loop has read with another one, NULL values aside.\<close>

definition compare_nullable :: "'v Comparator \<Rightarrow> bool \<Rightarrow> bool \<Rightarrow> 'v option \<Rightarrow> bool \<Rightarrow> 'v option \<Rightarrow> bool result" where
  "compare_nullable c in_order nullable v other_nullable w =
     (if nullable \<and> v = None \<or> other_nullable \<and> w = None then Inr False else compareDataPtrsHelper c in_order v w)"

definition compareColumnVectorAndStaticValueHelper ::
    "bool \<Rightarrow> 'v Comparator \<Rightarrow> bool \<Rightarrow> 'v column \<Rightarrow> 'v option \<Rightarrow> TupleIdSequence option \<Rightarrow> TupleIdSequence option
       \<Rightarrow> TupleIdSequence result" where
  "compareColumnVectorAndStaticValueHelper short_circuit c column_vector_on_left cv static_value filter_ids existence_bitmap =
     (let cv_nullable = (if column_vector_on_left then left_nullable c else right_nullable c);
          static_value_nullable = (if column_vector_on_left then right_nullable c else left_nullable c) in
      and_then (column_checks (length cv) filter_ids existence_bitmap) (\<lambda>_.
        (let result = new_result (length cv) existence_bitmap in
         if static_value_nullable \<and> static_value = None then Inr result
         else and_then (check CheckFailed (static_value \<noteq> None)) (\<lambda>_.
           (let test = (\<lambda>pos. and_then (cv_value cv_nullable cv pos) (\<lambda>v.
                  compare_nullable c column_vector_on_left cv_nullable v False static_value)) in
            case (if short_circuit then filter_ids else None) of
              Some f \<Rightarrow>
                (case existence_bitmap of
                   Some e \<Rightarrow> existence_loop e (\<lambda>res cv_pos t.
                     and_then (tis_get f t) (\<lambda>on.
                       if on then and_then (test cv_pos) (\<lambda>b. tis_set res t b) else Inr res)) (length cv) result
                 | None \<Rightarrow> iterate_ids f (\<lambda>res t. and_then (test (to_size_t t)) (\<lambda>b. tis_set res t b)) result)
            | None \<Rightarrow>
                and_then
                  (case existence_bitmap of
                     Some e \<Rightarrow> existence_loop e (\<lambda>res cv_pos t. and_then (test cv_pos) (\<lambda>b. tis_set res t b)) (length cv) result
                   | None \<Rightarrow> fold_res (\<lambda>res pos. and_then (test pos) (\<lambda>b. tis_set res (int pos) b)) result [0..<length cv])
                  (intersect_filter short_circuit filter_ids))))))"

section \<open>Attributes read through an accessor\<close>

text \<open>\<^verbatim>\<open>InvokeOnValueAccessorMaybeTupleIdSequenceAdapter\<close> accepts no ordered adapter.\<close>

fun maybe_adapter :: "'v ValueAccessor \<Rightarrow> unit result" where
  "maybe_adapter (OrderedAdapter h ids p) = Inl CheckFailed"
| "maybe_adapter _ = Inr ()"

definition compareSingleValueAccessor ::
    "bool \<Rightarrow> 'v Comparator \<Rightarrow> 'v ValueAccessor \<Rightarrow> nat \<Rightarrow> nat \<Rightarrow> TupleIdSequence option \<Rightarrow> TupleIdSequence result" where
  "compareSingleValueAccessor short_circuit c accessor left_id right_id filter_ids =
     and_then (maybe_adapter accessor) (\<lambda>_.
       (let result = make_sequence (to_size_t (getEndPosition accessor));
            test = (\<lambda>l r. compare_nullable c True (left_nullable c) l (right_nullable c) r) in
        case (if short_circuit then filter_ids else None) of
          Some f \<Rightarrow>
            and_then (check CheckFailed (tis_length f = tis_length result)) (\<lambda>_.
              iterate_ids f (\<lambda>res t.
                and_then (getUntypedValueAtAbsolutePosition (left_nullable c) accessor left_id t) (\<lambda>l.
                and_then (getUntypedValueAtAbsolutePosition (right_nullable c) accessor right_id t) (\<lambda>r.
                and_then (test l r) (\<lambda>b. tis_set res t b)))) result)
        | None \<Rightarrow>
            and_then (for_each_tuple (\<lambda>res a.
                and_then (getUntypedValue (left_nullable c) a left_id) (\<lambda>l.
                and_then (getUntypedValue (right_nullable c) a right_id) (\<lambda>r.
                and_then (getCurrentPosition a) (\<lambda>t.
                and_then (test l r) (\<lambda>b. tis_set res t b))))) accessor result)
              (intersect_filter short_circuit filter_ids)))"

definition compareValueAccessorAndStaticValueHelper ::
    "bool \<Rightarrow> 'v Comparator \<Rightarrow> bool \<Rightarrow> 'v ValueAccessor \<Rightarrow> nat \<Rightarrow> 'v option \<Rightarrow> TupleIdSequence option
       \<Rightarrow> TupleIdSequence result" where
  "compareValueAccessorAndStaticValueHelper short_circuit c value_accessor_on_left accessor attr_id static_value filter_ids =
     and_then (maybe_adapter accessor) (\<lambda>_.
       (let va_nullable = (if value_accessor_on_left then left_nullable c else right_nullable c);
            static_value_nullable = (if value_accessor_on_left then right_nullable c else left_nullable c);
            result = make_sequence (to_size_t (getEndPosition accessor)) in
        if static_value_nullable \<and> static_value = None then Inr result
        else and_then (check CheckFailed (static_value \<noteq> None)) (\<lambda>_.
          (let test = (\<lambda>v. compare_nullable c value_accessor_on_left va_nullable v False static_value) in
           case (if short_circuit then filter_ids else None) of
             Some f \<Rightarrow>
               and_then (check CheckFailed (tis_length f = tis_length result)) (\<lambda>_.
                 iterate_ids f (\<lambda>res t.
                   and_then (getUntypedValueAtAbsolutePosition va_nullable accessor attr_id t) (\<lambda>v.
                   and_then (test v) (\<lambda>b. tis_set res t b))) result)
           | None \<Rightarrow>
               and_then (for_each_tuple (\<lambda>res a.
                   and_then (getUntypedValue va_nullable a attr_id) (\<lambda>v.
                   and_then (getCurrentPosition a) (\<lambda>t.
                   and_then (test v) (\<lambda>b. tis_set res t b)))) accessor result)
                 (intersect_filter short_circuit filter_ids)))))"

definition compareColumnVectorAndValueAccessorHelper ::
    "bool \<Rightarrow> 'v Comparator \<Rightarrow> bool \<Rightarrow> 'v column \<Rightarrow> 'v ValueAccessor \<Rightarrow> nat \<Rightarrow> TupleIdSequence option
       \<Rightarrow> TupleIdSequence option \<Rightarrow> TupleIdSequence result" where
  "compareColumnVectorAndValueAccessorHelper short_circuit c column_vector_on_left cv accessor attr_id filter_ids existence_bitmap =
     (let cv_nullable = (if column_vector_on_left then left_nullable c else right_nullable c);
          va_nullable = (if column_vector_on_left then right_nullable c else left_nullable c) in
      and_then (column_checks (length cv) filter_ids existence_bitmap) (\<lambda>_.
      and_then (maybe_adapter accessor) (\<lambda>_.
      and_then (getNumTuples accessor) (\<lambda>k.
      and_then (check CheckFailed (length cv = to_size_t k)) (\<lambda>_.
        (let result = new_result (length cv) existence_bitmap;
             test = (\<lambda>v w. compare_nullable c column_vector_on_left cv_nullable v va_nullable w);
             test_at = (\<lambda>pos t. and_then (cv_value cv_nullable cv pos) (\<lambda>v.
               and_then (getUntypedValueAtAbsolutePosition va_nullable accessor attr_id t) (\<lambda>w. test v w))) in
         case (if short_circuit then filter_ids else None) of
           Some f \<Rightarrow>
             and_then (check CheckFailed (tis_length f = tis_length result)) (\<lambda>_.
               case existence_bitmap of
                 Some e \<Rightarrow> existence_loop e (\<lambda>res cv_pos t.
                   and_then (tis_get f t) (\<lambda>on.
                     if on then and_then (test_at cv_pos t) (\<lambda>b. tis_set res t b) else Inr res)) (length cv) result
               | None \<Rightarrow> iterate_ids f (\<lambda>res t. and_then (test_at (to_size_t t) t) (\<lambda>b. tis_set res t b)) result)
         | None \<Rightarrow>
             and_then
               (case existence_bitmap of
                  Some e \<Rightarrow> existence_loop e (\<lambda>res cv_pos t. and_then (test_at cv_pos t) (\<lambda>b. tis_set res t b)) (length cv) result
                | None \<Rightarrow>
                    and_then (for_each_tuple (\<lambda>(res, cv_pos) a.
                        and_then (cv_value cv_nullable cv cv_pos) (\<lambda>v.
                        and_then (getUntypedValue va_nullable a attr_id) (\<lambda>w.
                        and_then (test v w) (\<lambda>b.
                        and_then (tis_set res (int cv_pos) b) (\<lambda>res'. Inr (res', cv_pos + 1))))))
                      accessor (result, 0)) (\<lambda>(res, cv_pos). Inr res))
               (intersect_filter short_circuit filter_ids)))))))"

section \<open>Values\<close>

text \<open>The comparison of two values: it does not hold if one of them is NULL.\<close>

definition matches :: "'v Comparator \<Rightarrow> 'v option \<Rightarrow> 'v option \<Rightarrow> bool" where
  "matches c l r = (case (l, r) of (Some x, Some y) \<Rightarrow> comparison_functor c x y | _ \<Rightarrow> False)"

text \<open>NULL occurs only where the type is nullable.\<close>

definition null_ok :: "bool \<Rightarrow> 'v option \<Rightarrow> bool" where
  "null_ok nullable x \<longleftrightarrow> (x = None \<longrightarrow> nullable)"

lemma read_value_ok [simp]: "null_ok b x \<Longrightarrow> read_value b x = Inr x"
  by (auto simp: read_value_def null_ok_def)

lemma cv_value_ok: "pos < length cv \<Longrightarrow> null_ok b (cv ! pos) \<Longrightarrow> cv_value b cv pos = Inr (cv ! pos)"
  by (simp add: cv_value_def)

lemma compare_ok:
  assumes "null_ok (left_nullable c) l" and "null_ok (right_nullable c) r"
  shows "compareTypedValues c l r = Inr (matches c l r)" "compareDataPtrs c l r = Inr (matches c l r)"
  using assms by (auto simp: compareTypedValues_def compareDataPtrs_def matches_def null_ok_def apply_functor_def split: option.splits)

lemma compare_nullable_ok:
  assumes "null_ok a v" and "null_ok b w"
  shows "compare_nullable c in_order a v b w = Inr (if in_order then matches c v w else matches c w v)"
  using assms
  by (auto simp: compare_nullable_def compareDataPtrsHelper_def matches_def null_ok_def apply_functor_def split: option.splits)

section \<open>Loops\<close>

lemma existence_fold:
  assumes "holds e n E"
  shows "q \<le> n \<Longrightarrow> fold_res (existence_step e body) (acc, first_from (\<lambda>i. i \<in> E) q n) [j..<j + length (filter (\<lambda>i. i \<in> E) [q..<n])]
    = and_then (fold_res (\<lambda>acc (pos, t). body acc pos (int t)) acc
        (zip [j..<j + length (filter (\<lambda>i. i \<in> E) [q..<n])] (filter (\<lambda>i. i \<in> E) [q..<n]))) (\<lambda>acc'. Inr (acc', n))"
proof (induction "n - q" arbitrary: q j acc rule: less_induct)
  case less
  let ?r = "first_from (\<lambda>i. i \<in> E) q n"
  have r: "q \<le> ?r" "?r \<le> n" using first_from_le [OF less.prems] by blast+
  note H = holdsD [OF assms]
  show ?case
  proof (cases "?r < n")
    case True
    let ?fs = "filter (\<lambda>i. i \<in> E) [Suc ?r..<n]"
    have f: "filter (\<lambda>i. i \<in> E) [q..<n] = ?r # ?fs" using first_from_filter [OF less.prems, of "\<lambda>i. i \<in> E"] True by simp
    have "[j..<j + Suc m] = j # [Suc j..<Suc j + m]" for m using upt_conv_Cons [of j "j + Suc m"] by simp
    then have u: "[j..<j + length (?r # ?fs)] = j # [Suc j..<Suc j + length ?fs]" by (simp only: length_Cons)
    have "it_deref e ?r = Inr (int ?r)" using True H(3,4) by (simp add: it_deref_def)
    moreover have "it_inc e ?r = Inr (first_from (\<lambda>i. i \<in> E) (Suc ?r) n)" using it_inc_holds [OF assms, of ?r] True by simp
    ultimately have step: "existence_step e body (acc, ?r) j
        = and_then (body acc j (int ?r)) (\<lambda>acc'. Inr (acc', first_from (\<lambda>i. i \<in> E) (Suc ?r) n))"
      using True H(8) by (simp add: existence_step_def)
    have IH: "fold_res (existence_step e body) (acc', first_from (\<lambda>i. i \<in> E) (Suc ?r) n) [Suc j..<Suc j + length ?fs]
        = and_then (fold_res (\<lambda>acc (pos, t). body acc pos (int t)) acc' (zip [Suc j..<Suc j + length ?fs] ?fs)) (\<lambda>acc'. Inr (acc', n))" for acc'
      using True r by (intro less.hyps) simp_all
    show ?thesis unfolding f u zip_Cons_Cons fold_res.simps step and_then_assoc
      by (simp only: and_then.simps IH case_prod_conv)
  next
    case False
    then have "?r = n" using r by simp
    moreover have "filter (\<lambda>i. i \<in> E) [q..<n] = []" using first_from_filter [OF less.prems, of "\<lambda>i. i \<in> E"] False by simp
    ultimately show ?thesis by simp
  qed
qed

lemma existence_loop_holds:
  assumes "holds e n E" and "k = card E"
  shows "existence_loop e body k acc = fold_res (\<lambda>acc (pos, t). body acc pos (int t)) acc (zip [0..<k] (sorted_list_of_set E))"
proof -
  have ids: "sorted_list_of_set E = filter (\<lambda>i. i \<in> E) [0..<n]" using sorted_ids holdsD(6) [OF assms(1)] by blast
  have k: "k = length (filter (\<lambda>i. i \<in> E) [0..<n])" using assms(2) unfolding ids [symmetric] by simp
  show ?thesis unfolding ids existence_loop_def it_begin_holds [OF assms(1)]
    using existence_fold [OF assms(1), of 0 body acc 0] holdsD(8) [OF assms(1)] unfolding k
    by (cases "fold_res (\<lambda>acc (pos, t). body acc pos (int t)) acc
        (zip [0..<length (filter (\<lambda>i. i \<in> E) [0..<n])] (filter (\<lambda>i. i \<in> E) [0..<n]))") simp_all
qed

text \<open>A column whose position \<open>j\<close> belongs to the tuple \<open>ids ! j\<close>, among \<open>n\<close> slots.\<close>

definition column_domain :: "TupleIdSequence option \<Rightarrow> nat \<Rightarrow> nat list \<Rightarrow> bool" where
  "column_domain existence n ids \<longleftrightarrow> n < 2 ^ 31 \<and>
     (case existence of
        None \<Rightarrow> ids = [0..<n]
      | Some e \<Rightarrow> holds e n (set ids) \<and> ids = sorted_list_of_set (set ids))"

definition id_filter :: "TupleIdSequence option \<Rightarrow> nat \<Rightarrow> nat set \<Rightarrow> bool" where
  "id_filter f n F \<longleftrightarrow> (case f of None \<Rightarrow> F = {..<n} | Some s \<Rightarrow> holds s n F)"

lemma column_domainD:
  assumes "column_domain ex n ids"
  shows "distinct ids" "set ids \<subseteq> {..<n}" "n < 2 ^ 31" "holds (new_result (length ids) ex) n {}"
    "tis_length (new_result (length ids) ex) = n"
    "id_filter fl n F \<Longrightarrow> column_checks (length ids) fl ex = Inr ()"
proof -
  show n: "n < 2 ^ 31" and "distinct ids" "set ids \<subseteq> {..<n}"
    using assms by (cases ex; auto simp: column_domain_def dest: holdsD(6); metis distinct_sorted_list_of_set)+
  have len: "(case ex of None \<Rightarrow> length ids | Some e \<Rightarrow> tis_length e) = n"
    using assms by (cases ex) (auto simp: column_domain_def dest: holdsD(7))
  show h: "holds (new_result (length ids) ex) n {}" using make_sequence_holds [OF n] len by (simp add: new_result_def)
  show "tis_length (new_result (length ids) ex) = n" using holdsD(7) [OF h] .
  have "(case ex of None \<Rightarrow> Inr () | Some e \<Rightarrow> and_then (numTuples e) (\<lambda>k. check CheckFailed (k = length ids))) = Inr ()"
    using assms numTuples_holds \<open>distinct ids\<close> by (cases ex) (auto simp: column_domain_def distinct_card)
  then show "id_filter fl n F \<Longrightarrow> column_checks (length ids) fl ex = Inr ()"
    using len by (cases fl) (auto simp: column_checks_def id_filter_def dest: holdsD(7))
qed

lemma column_domain_nth:
  assumes "column_domain ex n ids" and "j < length ids"
  shows "ids ! j < n" and "id_filter (Some f) n F \<Longrightarrow> tis_get f (int (ids ! j)) = Inr (ids ! j \<in> F)"
proof -
  show lt: "ids ! j < n" using nth_mem [OF assms(2)] column_domainD(2) [OF assms(1)] by blast
  show "id_filter (Some f) n F \<Longrightarrow> tis_get f (int (ids ! j)) = Inr (ids ! j \<in> F)"
    using tis_get_holds [of f n F "ids ! j"] lt by (simp add: id_filter_def)
qed

text \<open>The ids of a column that pass a test on their position.\<close>

definition passing :: "nat list \<Rightarrow> (nat \<Rightarrow> bool) \<Rightarrow> nat set" where
  "passing ids P = {i. \<exists>j < length ids. ids ! j = i \<and> P j}"

lemma passing_upt [simp]: "passing [0..<n] P = {i. i < n \<and> P i}"
  by (auto simp: passing_def)

lemma passing_zip: "snd ` {x \<in> set (zip [0..<length ids] ids). P (fst x)} = passing ids P"
  by (force simp: passing_def in_set_zip image_iff)

lemma existence_select:
  assumes "column_domain (Some e) n ids" and "holds R n {}"
    and "\<And>res j. j < length ids \<Longrightarrow> body res j (int (ids ! j)) = (if keep j then tis_set res (int (ids ! j)) (P j) else Inr res)"
    and "\<And>j. j < length ids \<Longrightarrow> P j \<Longrightarrow> keep j"
  shows "\<exists>res. existence_loop e body (length ids) R = Inr res \<and> holds res n (passing ids P)"
proof -
  have e: "holds e n (set ids)" "sorted_list_of_set (set ids) = ids" using assms(1) by (auto simp: column_domain_def)
  note D = column_domainD [OF assms(1)]
  have lt: "ids ! j < n" if "j < length ids" for j using column_domain_nth(1) [OF assms(1)] that by blast
  have "\<exists>res. fold_res (\<lambda>acc (pos, t). body acc pos (int t)) R (zip [0..<length ids] ids) = Inr res
      \<and> holds res n ({} \<union> snd ` {x \<in> set (zip [0..<length ids] ids). P (fst x)})"
    by (rule tis.select_loop [OF assms(2), where keep = "\<lambda>x. keep (fst x)"])
      (use assms(3,4) D(1) lt in \<open>auto simp: in_set_zip\<close>)
  then show ?thesis using existence_loop_holds [OF e(1), of "length ids" body R] D(1) e(2) passing_zip [of ids P]
    by (simp add: distinct_card)
qed

lemma intersect_filter_holds:
  assumes "id_filter fl n F" and "holds res n B" and "B \<subseteq> {..<n}" and "fl \<noteq> None \<Longrightarrow> \<not> sc"
  shows "\<exists>res'. intersect_filter sc fl res = Inr res' \<and> holds res' n (B \<inter> F)"
proof (cases fl)
  case None
  then have "B \<inter> F = B" using assms(1,3) by (auto simp: id_filter_def)
  then show ?thesis using None assms(2) by (simp add: intersect_filter_def)
next
  case (Some f)
  then show ?thesis using assms combine_holds(1) [OF assms(2), of f F] by (simp add: intersect_filter_def id_filter_def)
qed

text \<open>The scan of a column, with the four combinations of a filter and an existence bitmap that the routines
  distinguish; \<open>guarded\<close> is the body that looks at the filter first.\<close>

lemma scan_columns:
  assumes dom: "column_domain ex n ids" and fl: "id_filter fl n F"
    and T: "\<And>j. j < length ids \<Longrightarrow> T j (int (ids ! j)) = Inr (P j)"
    and G: "\<And>f res j. fl = Some f \<Longrightarrow> j < length ids \<Longrightarrow>
      guarded f res j (int (ids ! j)) = (if keep j then tis_set res (int (ids ! j)) (ids ! j \<in> F \<and> P j) else Inr res)"
    and K: "\<And>j. j < length ids \<Longrightarrow> ids ! j \<in> F \<Longrightarrow> keep j"
    and plain: "ex = None \<Longrightarrow> \<exists>res. pl = Inr res \<and> holds res n (passing ids P)"
  shows "\<exists>res. (case (if sc then fl else None) of
      Some f \<Rightarrow> (case ex of
          Some e \<Rightarrow> existence_loop e (guarded f) (length ids) (new_result (length ids) ex)
        | None \<Rightarrow> iterate_ids f (\<lambda>res t. and_then (T (to_size_t t) t) (\<lambda>b. tis_set res t b)) (new_result (length ids) ex))
    | None \<Rightarrow> and_then (case ex of
          Some e \<Rightarrow> existence_loop e (\<lambda>res pos t. and_then (T pos t) (\<lambda>b. tis_set res t b)) (length ids) (new_result (length ids) ex)
        | None \<Rightarrow> pl) (intersect_filter sc fl)) = Inr res
    \<and> holds res n (passing ids P \<inter> F)"
proof -
  note D = column_domainD [OF dom]
  show ?thesis
  proof (cases "if sc then fl else None")
    case None
    have all: "\<exists>res. (case ex of
          Some e \<Rightarrow> existence_loop e (\<lambda>res pos t. and_then (T pos t) (\<lambda>b. tis_set res t b)) (length ids) (new_result (length ids) ex)
        | None \<Rightarrow> pl) = Inr res \<and> holds res n (passing ids P)"
    proof (cases ex)
      case (Some e)
      have "\<exists>res. existence_loop e (\<lambda>res pos t. and_then (T pos t) (\<lambda>b. tis_set res t b)) (length ids) (new_result (length ids) ex) = Inr res
          \<and> holds res n (passing ids P)"
        by (rule existence_select [where keep = "\<lambda>_. True"]) (use dom Some T D(4) in auto)
      with Some show ?thesis by simp
    qed (use plain in simp)
    then obtain res where res: "(case ex of
          Some e \<Rightarrow> existence_loop e (\<lambda>res pos t. and_then (T pos t) (\<lambda>b. tis_set res t b)) (length ids) (new_result (length ids) ex)
        | None \<Rightarrow> pl) = Inr res" "holds res n (passing ids P)" by blast
    have "\<exists>res'. intersect_filter sc fl res = Inr res' \<and> holds res' n (passing ids P \<inter> F)"
      using None by (intro intersect_filter_holds [OF fl res(2) holdsD(6) [OF res(2)]]) (auto split: if_splits)
    then show ?thesis using None res(1) by simp
  next
    case (Some f)
    then have f: "fl = Some f" "holds f n F" using fl by (auto simp: id_filter_def split: if_splits)
    show ?thesis
    proof (cases ex)
      case e: (Some e)
      have "\<exists>res. existence_loop e (guarded f) (length ids) (new_result (length ids) ex) = Inr res
          \<and> holds res n (passing ids (\<lambda>j. ids ! j \<in> F \<and> P j))"
        by (rule existence_select [where keep = keep]) (use dom e G f(1) K D(4) in auto)
      moreover have "passing ids (\<lambda>j. ids ! j \<in> F \<and> P j) = passing ids P \<inter> F" by (auto simp: passing_def)
      ultimately show ?thesis using Some e by simp
    next
      case none: None
      then have ids: "ids = [0..<n]" using dom by (simp add: column_domain_def)
      have "\<exists>res. iterate_ids f (\<lambda>res t. and_then (T (to_size_t t) t) (\<lambda>b. tis_set res t b)) (new_result (length ids) ex) = Inr res
          \<and> holds res n {i \<in> F. P i}"
      proof (rule tis.filter_loop [OF D(4) f(2)])
        fix i res assume "i \<in> F"
        then have "i < n" using holdsD(6) [OF f(2)] by auto
        then show "and_then (T (to_size_t (int i)) (int i)) (\<lambda>b. tis_set res (int i) b) = tis_set res (int i) (P i)"
          using T [of i] D(3) ids by simp
      qed
      moreover have "{i \<in> F. P i} = passing ids P \<inter> F" using holdsD(6) [OF f(2)] by (auto simp: ids)
      ultimately show ?thesis using Some none by simp
    qed
  qed
qed

text \<open>The loop over a packed column.\<close>

lemma plain_loop:
  assumes "column_domain None n ids" and "\<And>j. j < length ids \<Longrightarrow> T j = Inr (P j)"
  shows "\<exists>res. fold_res (\<lambda>res pos. and_then (T pos) (\<lambda>b. tis_set res (int pos) b)) (new_result (length ids) None) [0..<length ids] = Inr res
    \<and> holds res n (passing ids P)"
proof -
  note D = column_domainD [OF assms(1)]
  have ids: "ids = [0..<n]" using assms(1) by (simp add: column_domain_def)
  have "\<exists>res. fold_res (\<lambda>res pos. and_then (T pos) (\<lambda>b. tis_set res (int pos) b)) (new_result (length ids) None) [0..<length ids] = Inr res
      \<and> holds res n ({} \<union> id ` {x \<in> set [0..<length ids]. P x})"
    by (rule tis.select_loop [OF D(4), where keep = "\<lambda>_. True"]) (use assms(2) ids in auto)
  then show ?thesis by (simp add: ids)
qed

lemma compareColumnVectors_spec:
  assumes dom: "column_domain ex n ids" and fl: "id_filter fl n F"
    and len: "length left = length ids" "length right = length ids"
    and nulls: "\<And>j. j < length ids \<Longrightarrow> null_ok (left_nullable c) (left ! j) \<and> null_ok (right_nullable c) (right ! j)"
  shows "\<exists>res. compareColumnVectors sc c left right fl ex = Inr res
    \<and> holds res n (passing ids (\<lambda>j. matches c (left ! j) (right ! j)) \<inter> F)"
proof -
  note D = column_domainD [OF dom]
  let ?T = "\<lambda>pos. and_then (cv_value (left_nullable c) left pos) (\<lambda>l. and_then (cv_value (right_nullable c) right pos) (\<lambda>r. compareDataPtrs c l r))"
  have T: "?T j = Inr (matches c (left ! j) (right ! j))" if "j < length ids" for j
    using that nulls [OF that] len by (simp add: cv_value_ok compare_ok)
  have get: "tis_get f (int (ids ! j)) = Inr (ids ! j \<in> F)" if "fl = Some f" "j < length ids" for f j
    using column_domain_nth(2) [OF dom that(2)] fl that(1) by simp
  have "\<exists>res. fold_res (\<lambda>res pos. and_then (?T pos) (\<lambda>b. tis_set res (int pos) b)) (new_result (length ids) ex) [0..<length ids] = Inr res
      \<and> holds res n (passing ids (\<lambda>j. matches c (left ! j) (right ! j)))" if "ex = None"
    unfolding that by (rule plain_loop) (use dom that T in simp_all)
  note plain = this
  show ?thesis unfolding compareColumnVectors_def Let_def
    apply (simp only: len D(6) [OF fl] check_True and_then.simps simp_thms)
    by (rule scan_columns [OF dom fl, where T = "\<lambda>pos t. ?T pos" and keep = "\<lambda>_. True"]) (use T plain get in auto)
qed

lemma compareColumnVectorAndStaticValueHelper_spec:
  assumes dom: "column_domain ex n ids" and fl: "id_filter fl n F" and len: "length cv = length ids"
    and cvs: "\<And>j. j < length ids \<Longrightarrow> null_ok (if on_left then left_nullable c else right_nullable c) (cv ! j)"
    and sv: "null_ok (if on_left then right_nullable c else left_nullable c) v"
  shows "\<exists>res. compareColumnVectorAndStaticValueHelper sc c on_left cv v fl ex = Inr res
    \<and> holds res n (passing ids (\<lambda>j. if on_left then matches c (cv ! j) v else matches c v (cv ! j)) \<inter> F)"
proof -
  note D = column_domainD [OF dom]
  let ?n = "if on_left then left_nullable c else right_nullable c" and ?s = "if on_left then right_nullable c else left_nullable c"
  let ?P = "\<lambda>j. if on_left then matches c (cv ! j) v else matches c v (cv ! j)"
  show ?thesis
  proof (cases "v = None")
    case True
    then have s: "?s" using sv by (simp add: null_ok_def)
    have "passing ids ?P \<inter> F = {}" using True by (auto simp: passing_def matches_def split: option.splits)
    moreover have "compareColumnVectorAndStaticValueHelper sc c on_left cv v fl ex = Inr (new_result (length ids) ex)"
      using s True by (cases on_left) (simp_all add: compareColumnVectorAndStaticValueHelper_def len D(6) [OF fl])
    ultimately show ?thesis using D(4) by (intro exI [of _ "new_result (length ids) ex"]) simp
  next
    case False
    let ?T = "\<lambda>pos. and_then (cv_value ?n cv pos) (\<lambda>x. compare_nullable c on_left ?n x False v)"
    have T: "?T j = Inr (?P j)" if "j < length ids" for j
      using that cvs [OF that] len False by (simp add: cv_value_ok compare_nullable_ok null_ok_def [of False])
    have get: "tis_get f (int (ids ! j)) = Inr (ids ! j \<in> F)" if "fl = Some f" "j < length ids" for f j
      using column_domain_nth(2) [OF dom that(2)] fl that(1) by simp
    have plain: "\<exists>res. fold_res (\<lambda>res pos. and_then (?T pos) (\<lambda>b. tis_set res (int pos) b)) (new_result (length ids) ex) [0..<length ids] = Inr res
        \<and> holds res n (passing ids ?P)" if "ex = None"
      unfolding that by (rule plain_loop) (use dom that T in simp_all)
    show ?thesis unfolding compareColumnVectorAndStaticValueHelper_def Let_def
      apply (simp only: len D(6) [OF fl] False check_True and_then.simps simp_thms if_False)
      by (rule scan_columns [OF dom fl, where T = "\<lambda>pos t. ?T pos" and keep = "\<lambda>j. ids ! j \<in> F"]) (use T plain get in auto)
  qed
qed

text \<open>The tuples of an accessor that is not an ordered adapter, among \<open>n\<close> slots.\<close>

definition accessor_domain :: "'v ValueAccessor \<Rightarrow> nat \<Rightarrow> nat list \<Rightarrow> bool" where
  "accessor_domain a n ids \<longleftrightarrow> n < 2 ^ 31 \<and> accessor_ids a (map int ids) \<and> maybe_adapter a = Inr () \<and> getEndPosition a = int n"

abbreviation value_at :: "'v ValueAccessor \<Rightarrow> nat \<Rightarrow> nat \<Rightarrow> 'v option" where
  "value_at a i attr \<equiv> getAttributeValue (helper_of a) (int i) attr"

lemma accessor_domainD:
  assumes "accessor_domain a n ids"
  shows "distinct ids" "set ids \<subseteq> {..<n}" "n < 2 ^ 31" "maybe_adapter a = Inr ()"
    "holds (make_sequence (to_size_t (getEndPosition a))) n {}" "sorted_list_of_set (set ids) = ids"
    "getUntypedValueAtAbsolutePosition b a attr (int i) = read_value b (value_at a i attr)"
    "getTypedValueAtAbsolutePosition a attr (int i) = Inr (value_at a i attr)"
proof -
  have inj: "map int xs = map int ys \<Longrightarrow> xs = ys" for xs ys by (simp add: inj_map_eq_map)
  have A: "n < 2 ^ 31" "getEndPosition a = int n" using assms by (auto simp: accessor_domain_def)
  then have "to_size_t (getEndPosition a) = n" by simp
  then show "holds (make_sequence (to_size_t (getEndPosition a))) n {}" using make_sequence_holds [OF A(1)] by simp
  show "n < 2 ^ 31" "maybe_adapter a = Inr ()" using assms by (auto simp: accessor_domain_def)
  have "distinct ids \<and> set ids \<subseteq> {..<n} \<and> sorted_list_of_set (set ids) = ids"
  proof (cases a)
    case (PackedAccessor h t)
    then have "ids = [0..<n]" using assms inj [of ids "[0..<n]"] by (auto simp: accessor_domain_def)
    then show ?thesis by (auto simp: sorted_list_of_set_sort_remdups sorted_sort_id)
  next
    case (SequenceAdapter h s p)
    then obtain m A where s: "holds s m A" "ids = sorted_list_of_set A" using assms inj by (auto simp: accessor_domain_def)
    then have "m = n" using assms SequenceAdapter holdsD(4,7) [OF s(1)] by (simp add: accessor_domain_def)
    then show ?thesis using s holds_finite [OF s(1)] holdsD(6) [OF s(1)] by simp
  qed (use assms in \<open>simp add: accessor_domain_def\<close>)
  then show "distinct ids" "set ids \<subseteq> {..<n}" "sorted_list_of_set (set ids) = ids" by blast+
  show "getUntypedValueAtAbsolutePosition b a attr (int i) = read_value b (value_at a i attr)"
    "getTypedValueAtAbsolutePosition a attr (int i) = Inr (value_at a i attr)"
    using assms by (cases a; simp add: accessor_domain_def)+
qed

text \<open>A filter on the tuples of an accessor.\<close>

definition tuple_filter :: "TupleIdSequence option \<Rightarrow> nat \<Rightarrow> nat list \<Rightarrow> nat set \<Rightarrow> bool" where
  "tuple_filter f n ids F \<longleftrightarrow> (case f of None \<Rightarrow> F = set ids | Some s \<Rightarrow> holds s n F \<and> F \<subseteq> set ids)"

lemma scan_accessor:
  assumes dom: "accessor_domain a n ids" and fl: "tuple_filter fl n ids F"
    and fb: "\<And>i res. i \<in> set ids \<Longrightarrow> fb res (int i) = tis_set res (int i) (P i)"
    and cb: "\<And>k res. k < length ids \<Longrightarrow> cb res (cursor_at a k (int (ids ! k))) = tis_set res (int (ids ! k)) (P (ids ! k))"
    and R: "R = make_sequence (to_size_t (getEndPosition a))"
  shows "\<exists>res. (case (if sc then fl else None) of
      Some f \<Rightarrow> and_then (check CheckFailed (tis_length f = tis_length R)) (\<lambda>_. iterate_ids f fb R)
    | None \<Rightarrow> and_then (for_each_tuple cb a R) (intersect_filter sc fl)) = Inr res \<and> holds res n {i \<in> F. P i}"
proof -
  note D = accessor_domainD [OF dom]
  have RH: "holds R n {}" "tis_length R = n" using D(5) holdsD(7) R by blast+
  show ?thesis
  proof (cases "if sc then fl else None")
    case (Some f)
    then have f: "holds f n F" "F \<subseteq> set ids" using fl by (auto simp: tuple_filter_def split: if_splits)
    have "\<exists>res. iterate_ids f fb R = Inr res \<and> holds res n {i \<in> F. P i}"
      by (rule tis.filter_loop [OF RH(1) f(1)]) (use fb f(2) in auto)
    then show ?thesis using Some holdsD(7) [OF f(1)] RH(2) by simp
  next
    case None
    have ids: "accessor_ids a (map int ids)" using dom by (simp add: accessor_domain_def)
    have "for_each_tuple cb a R = fold_res (\<lambda>res t. tis_set res t (P (nat t))) R (map int ids)"
      by (rule for_each_id [OF ids]) (use cb in simp)
    also have "\<dots> = fold_res (\<lambda>res i. tis_set res (int i) (P i)) R ids"
    proof -
      have "fold_res (\<lambda>res t. tis_set res t (P (nat t))) r (map int xs) = fold_res (\<lambda>res i. tis_set res (int i) (P i)) r xs" for r xs
        by (induction xs arbitrary: r) (auto intro: and_then_cong)
      then show ?thesis .
    qed
    finally have fe: "for_each_tuple cb a R = fold_res (\<lambda>res i. tis_set res (int i) (P i)) R ids" .
    have "\<exists>res. fold_res (\<lambda>res i. tis_set res (int i) (P i)) R ids = Inr res \<and> holds res n ({} \<union> id ` {i \<in> set ids. P i})"
      by (rule tis.select_loop [OF RH(1), where keep = "\<lambda>_. True"]) (use D(1,2) in auto)
    then obtain res where res: "for_each_tuple cb a R = Inr res" "holds res n {i \<in> set ids. P i}" using fe by auto
    have sub: "F \<subseteq> set ids" using fl by (auto simp: tuple_filter_def split: option.splits)
    have "\<exists>res'. intersect_filter sc fl res = Inr res' \<and> holds res' n ({i \<in> set ids. P i} \<inter> F)"
    proof (cases fl)
      case None
      then have "{i \<in> set ids. P i} \<inter> F = {i \<in> set ids. P i}" using fl by (auto simp: tuple_filter_def)
      then show ?thesis using None res(2) by (simp add: intersect_filter_def)
    next
      case (Some f)
      then show ?thesis using \<open>(if sc then fl else None) = None\<close> fl res(2) holdsD(6) [OF res(2)]
        by (intro intersect_filter_holds) (auto simp: id_filter_def tuple_filter_def split: if_splits)
    qed
    moreover have "{i \<in> set ids. P i} \<inter> F = {i \<in> F. P i}" using sub by auto
    ultimately show ?thesis using None res(1) by simp
  qed
qed

lemma compareSingleValueAccessor_spec:
  assumes dom: "accessor_domain a n ids" and fl: "tuple_filter fl n ids F"
    and nulls: "\<And>i. i \<in> set ids \<Longrightarrow> null_ok (left_nullable c) (value_at a i l) \<and> null_ok (right_nullable c) (value_at a i r)"
  shows "\<exists>res. compareSingleValueAccessor sc c a l r fl = Inr res
    \<and> holds res n {i \<in> F. matches c (value_at a i l) (value_at a i r)}"
proof -
  note D = accessor_domainD [OF dom]
  have ids: "accessor_ids a (map int ids)" using dom by (simp add: accessor_domain_def)
  have cur: "getCurrentPosition (cursor_at a k (int (ids ! k))) = Inr (int (ids ! k))"
    "getUntypedValue b (cursor_at a k (int (ids ! k))) attr = read_value b (value_at a (ids ! k) attr)" if "k < length ids" for k b attr
    using cursor_reads [OF ids, of k] that by simp_all
  show ?thesis unfolding compareSingleValueAccessor_def Let_def D(4) and_then.simps
    by (rule scan_accessor [OF dom fl]) (use nulls D(7) cur in \<open>auto simp: compare_nullable_ok\<close>)
qed

lemma compareValueAccessorAndStaticValueHelper_spec:
  assumes dom: "accessor_domain a n ids" and fl: "tuple_filter fl n ids F"
    and nulls: "\<And>i. i \<in> set ids \<Longrightarrow> null_ok (if on_left then left_nullable c else right_nullable c) (value_at a i attr)"
    and sv: "null_ok (if on_left then right_nullable c else left_nullable c) v"
  shows "\<exists>res. compareValueAccessorAndStaticValueHelper sc c on_left a attr v fl = Inr res
    \<and> holds res n {i \<in> F. if on_left then matches c (value_at a i attr) v else matches c v (value_at a i attr)}"
proof -
  note D = accessor_domainD [OF dom]
  let ?R = "make_sequence (to_size_t (getEndPosition a))"
  show ?thesis
  proof (cases "v = None")
    case True
    then have "compareValueAccessorAndStaticValueHelper sc c on_left a attr v fl = Inr ?R"
      using sv by (cases on_left) (simp_all add: compareValueAccessorAndStaticValueHelper_def D(4) null_ok_def)
    moreover have "{i \<in> F. if on_left then matches c (value_at a i attr) v else matches c v (value_at a i attr)} = {}"
      using True by (auto simp: matches_def split: option.splits)
    ultimately show ?thesis using D(5) by (intro exI [of _ ?R] conjI) (simp_all only:)
  next
    case False
    have ids: "accessor_ids a (map int ids)" using dom by (simp add: accessor_domain_def)
    have cur: "getCurrentPosition (cursor_at a k (int (ids ! k))) = Inr (int (ids ! k))"
      "getUntypedValue b (cursor_at a k (int (ids ! k))) attr = read_value b (value_at a (ids ! k) attr)" if "k < length ids" for k b
      using cursor_reads [OF ids, of k] that by simp_all
    have v: "null_ok False v" using False by (simp add: null_ok_def)
    show ?thesis unfolding compareValueAccessorAndStaticValueHelper_def Let_def D(4) and_then.simps
      apply (simp only: False check_True and_then.simps simp_thms if_False)
      by (rule scan_accessor [OF dom fl]) (use nulls D(7) cur v in \<open>auto simp: compare_nullable_ok\<close>)
  qed
qed

text \<open>The loop over the tuples of an accessor that counts the positions of a column.\<close>

lemma counting_loop:
  assumes "accessor_ids a l" and "\<And>res k. k < length l \<Longrightarrow> body (res, k) (cursor_at a k (l ! k)) = and_then (g res k) (\<lambda>res'. Inr (res', k + 1))"
  shows "for_each_tuple body a (res, 0) = and_then (fold_res g res [0..<length l]) (\<lambda>res'. Inr (res', length l))"
proof -
  have "fold_res body (res, j) (map (\<lambda>k. cursor_at a k (l ! k)) [j..<length l])
      = and_then (fold_res g res [j..<length l]) (\<lambda>res'. Inr (res', length l))" if "j \<le> length l" for j res
    using that
  proof (induction "length l - j" arbitrary: j res)
    case (Suc m)
    then have j: "j < length l" by simp
    have IH: "fold_res body (r, Suc j) (map (\<lambda>k. cursor_at a k (l ! k)) [Suc j..<length l])
        = and_then (fold_res g r [Suc j..<length l]) (\<lambda>res'. Inr (res', length l))" for r
      using Suc.hyps(1) [of "Suc j" r] Suc.hyps(2) j by simp
    show ?case using assms(2) [OF j, of res] j IH by (simp add: upt_conv_Cons and_then_assoc)
  qed simp
  then show ?thesis using for_each_cursor [OF assms(1), of body "(res, 0)"] by (simp add: cursors_def)
qed

lemma compareColumnVectorAndValueAccessorHelper_spec:
  assumes dom: "column_domain ex n ids" and fl: "id_filter fl n F" and len: "length cv = length ids"
    and acc: "accessor_ids a (map int ids)" "maybe_adapter a = Inr ()"
    and cvs: "\<And>j. j < length ids \<Longrightarrow> null_ok (if on_left then left_nullable c else right_nullable c) (cv ! j)"
    and nulls: "\<And>i. i \<in> set ids \<Longrightarrow> null_ok (if on_left then right_nullable c else left_nullable c) (value_at a i attr)"
  shows "\<exists>res. compareColumnVectorAndValueAccessorHelper sc c on_left cv a attr fl ex = Inr res
    \<and> holds res n (passing ids (\<lambda>j. if on_left then matches c (cv ! j) (value_at a (ids ! j) attr)
        else matches c (value_at a (ids ! j) attr) (cv ! j)) \<inter> F)"
proof -
  note D = column_domainD [OF dom]
  let ?n = "if on_left then left_nullable c else right_nullable c" and ?m = "if on_left then right_nullable c else left_nullable c"
  define P where "P = (\<lambda>j. if on_left then matches c (cv ! j) (value_at a (ids ! j) attr) else matches c (value_at a (ids ! j) attr) (cv ! j))"
  let ?C = "\<lambda>v w. compare_nullable c on_left ?n v ?m w"
  let ?T = "\<lambda>pos t. and_then (cv_value ?n cv pos) (\<lambda>v. and_then (getUntypedValueAtAbsolutePosition ?m a attr t) (\<lambda>w. ?C v w))"
  have abs: "getUntypedValueAtAbsolutePosition b a attr (int i) = read_value b (value_at a i attr)" for b i
    using acc(2) by (cases a) simp_all
  have cur: "getUntypedValue b (cursor_at a k (int (ids ! k))) attr = read_value b (value_at a (ids ! k) attr)" if "k < length ids" for k b
    using cursor_reads(2) [OF acc(1), of k] that by simp
  have C: "?C (cv ! j) (value_at a (ids ! j) attr) = Inr (P j)" "cv_value ?n cv j = Inr (cv ! j)"
    "read_value ?m (value_at a (ids ! j) attr) = Inr (value_at a (ids ! j) attr)" if "j < length ids" for j
    using cvs [OF that] nulls [OF nth_mem [OF that]] that len by (simp_all add: compare_nullable_ok cv_value_ok P_def)
  have T: "?T j (int (ids ! j)) = Inr (P j)" if "j < length ids" for j
    using C [OF that] by (simp add: abs)
  have "length ids \<le> n" using card_mono [of "{..<n}" "set ids"] D(1,2) by (simp add: distinct_card)
  then have num: "getNumTuples a = Inr (int (length ids))" "to_size_t (int (length ids)) = length ids"
    using accessor_ids_length(2) [OF acc(1)] D(3) by simp_all
  have get: "tis_get f (int (ids ! j)) = Inr (ids ! j \<in> F)" if "fl = Some f" "j < length ids" for f j
    using column_domain_nth(2) [OF dom that(2)] fl that(1) by simp
  let ?L = "for_each_tuple (\<lambda>(res, cv_pos) a. and_then (cv_value ?n cv cv_pos) (\<lambda>v. and_then (getUntypedValue ?m a attr) (\<lambda>w.
      and_then (?C v w) (\<lambda>b. and_then (tis_set res (int cv_pos) b) (\<lambda>res'. Inr (res', cv_pos + 1)))))) a (new_result (length ids) ex, 0)"
  have plain: "\<exists>res. and_then ?L (\<lambda>(res, cv_pos). Inr res) = Inr res \<and> holds res n (passing ids P)" if "ex = None"
  proof -
    have "?L = and_then (fold_res (\<lambda>res pos. and_then (Inr (P pos)) (\<lambda>b. tis_set res (int pos) b)) (new_result (length ids) ex)
        [0..<length (map int ids)]) (\<lambda>res'. Inr (res', length (map int ids)))"
      by (rule counting_loop [OF acc(1)]) (use C cur in simp)
    moreover have "\<exists>res. fold_res (\<lambda>res pos. and_then (Inr (P pos)) (\<lambda>b. tis_set res (int pos) b)) (new_result (length ids) None)
        [0..<length ids] = Inr res \<and> holds res n (passing ids P)"
      by (rule plain_loop) (use dom that in simp_all)
    ultimately show ?thesis using that by auto
  qed
  have flen: "tis_length f = tis_length (new_result (length ids) ex)" if "fl = Some f" for f
    using fl that D(5) holdsD(7) [of f n F] by (simp add: id_filter_def)
  have drop: "(case (if sc then fl else None) of
        Some f \<Rightarrow> and_then (check CheckFailed (tis_length f = tis_length (new_result (length ids) ex))) (\<lambda>_. X f) | None \<Rightarrow> Y)
      = (case (if sc then fl else None) of Some f \<Rightarrow> X f | None \<Rightarrow> Y)" for X and Y :: "TupleIdSequence result"
    using flen by (cases fl) auto
  show ?thesis unfolding compareColumnVectorAndValueAccessorHelper_def Let_def P_def [symmetric]
    apply (simp only: len D(6) [OF fl] acc(2) num check_True and_then.simps simp_thms drop)
    by (rule scan_columns [OF dom fl, where T = ?T and keep = "\<lambda>j. ids ! j \<in> F"]) (use T plain get in auto)
qed

section \<open>Accumulation\<close>

text \<open>Accumulating the value that precedes all others: a minimum or a maximum, depending on the functor.\<close>

definition accumulateColumnVector :: "'v Comparator \<Rightarrow> 'v option \<Rightarrow> 'v column \<Rightarrow> 'v option result" where
  "accumulateColumnVector c current cv =
     fold_res (\<lambda>current_literal pos.
       and_then (cv_value (left_nullable c) cv pos) (\<lambda>v.
         if left_nullable c \<and> v = None then Inr current_literal
         else if current_literal = None then Inr v
         else and_then (compareDataPtrsHelper c True v current_literal) (\<lambda>b. Inr (if b then v else current_literal))))
       current [0..<length cv]"

text \<open>The search for the first value that is not NULL; the last value read is returned with the accessor.\<close>

fun find_first :: "nat \<Rightarrow> 'v Comparator \<Rightarrow> nat \<Rightarrow> 'v ValueAccessor \<Rightarrow> 'v option \<Rightarrow> ('v ValueAccessor \<times> 'v option) result" where
  "find_first fuel c attr_id a va_value =
     and_then (next_tuple a) (\<lambda>(more, a').
       if \<not> more then Inr (a', va_value)
       else case fuel of
         0 \<Rightarrow> Inl OutOfFuel
       | Suc fuel' \<Rightarrow> and_then (getUntypedValue (left_nullable c) a' attr_id) (\<lambda>v.
           if \<not> left_nullable c \<or> v \<noteq> None then Inr (a', v) else find_first fuel' c attr_id a' v))"

declare find_first.simps [simp del]

definition accumulate_body :: "'v Comparator \<Rightarrow> nat \<Rightarrow> 'v option \<Rightarrow> 'v ValueAccessor \<Rightarrow> 'v option result" where
  "accumulate_body c attr_id current_literal a =
     and_then (getUntypedValue (left_nullable c) a attr_id) (\<lambda>v.
       if left_nullable c \<and> v = None then Inr current_literal
       else and_then (compareDataPtrsHelper c True v current_literal) (\<lambda>b. Inr (if b then v else current_literal)))"

definition accumulateValueAccessor :: "'v Comparator \<Rightarrow> 'v option \<Rightarrow> 'v ValueAccessor \<Rightarrow> nat \<Rightarrow> 'v option result" where
  "accumulateValueAccessor c current accessor attr_id =
     and_then (maybe_adapter accessor) (\<lambda>_.
     and_then (if current = None then find_first (tuple_bound accessor) c attr_id (beginIteration accessor) None
               else Inr (beginIteration accessor, current)) (\<lambda>(a, current_literal).
     and_then (iterationFinished a) (\<lambda>finished.
       if finished then Inr current_literal
       else and_then (check CheckFailed (current_literal \<noteq> None)) (\<lambda>_.
         and_then (while_next (tuple_bound accessor) (accumulate_body c attr_id) a current_literal) (\<lambda>(a', v). Inr v)))))"

text \<open>The reference: a fold over the values that are not NULL.\<close>

definition accumulate_ref :: "('v \<Rightarrow> 'v \<Rightarrow> bool) \<Rightarrow> 'v option \<Rightarrow> 'v option list \<Rightarrow> 'v option" where
  "accumulate_ref f current vs =
     fold (\<lambda>v cur. case v of None \<Rightarrow> cur | Some x \<Rightarrow> (case cur of None \<Rightarrow> v | Some y \<Rightarrow> if f x y then v else cur)) vs current"

lemma accumulate_ref_simps [simp]:
  "accumulate_ref f cur [] = cur" "accumulate_ref f cur (None # vs) = accumulate_ref f cur vs"
  "accumulate_ref f None (Some x # vs) = accumulate_ref f (Some x) vs"
  "accumulate_ref f (Some y) (Some x # vs) = accumulate_ref f (Some (if f x y then x else y)) vs"
  by (simp_all add: accumulate_ref_def)

lemma accumulate_ref_min:
  fixes vs :: "'a::linorder option list"
  shows "accumulate_ref (<) cur vs = (let X = {x. Some x \<in> set (cur # vs)} in if X = {} then None else Some (Min X))"
proof (induction vs arbitrary: cur)
  case Nil
  show ?case by (cases cur) (simp_all add: Let_def)
next
  case (Cons v vs)
  show ?case
  proof (cases v)
    case None
    then show ?thesis by (simp add: Cons.IH)
  next
    case (Some x)
    show ?thesis
    proof (cases cur)
      case None
      then show ?thesis using Some by (simp add: Cons.IH)
    next
      case y: (Some y)
      let ?X = "{z. Some z \<in> set vs}"
      have fin: "finite ?X" by (rule finite_subset [of _ "the ` set vs"]) (auto intro: rev_image_eqI)
      have "{z. Some z \<in> set (Some (if x < y then x else y) # vs)} = insert (if x < y then x else y) ?X"
        "{z. Some z \<in> set (Some y # Some x # vs)} = insert y (insert x ?X)" by auto
      moreover have "Min (insert (if x < y then x else y) ?X) = Min (insert y (insert x ?X))"
        using fin by (cases "?X = {}") (auto simp: min_def)
      ultimately show ?thesis unfolding Some y accumulate_ref_simps Cons.IH Let_def by simp
    qed
  qed
qed

lemma accumulateColumnVector_ref:
  assumes "\<And>v. v \<in> set cv \<Longrightarrow> null_ok (left_nullable c) v"
  shows "accumulateColumnVector c current cv = Inr (accumulate_ref (comparison_functor c) current cv)"
proof -
  let ?body = "\<lambda>cur pos. and_then (cv_value (left_nullable c) cv pos) (\<lambda>v. if left_nullable c \<and> v = None then Inr cur
      else if cur = None then Inr v else and_then (compareDataPtrsHelper c True v cur) (\<lambda>b. Inr (if b then v else cur)))"
  have "fold_res ?body cur [j..<length cv] = Inr (accumulate_ref (comparison_functor c) cur (drop j cv))" if "j \<le> length cv" for j cur
    using that
  proof (induction "length cv - j" arbitrary: j cur)
    case (Suc m)
    then have j: "j < length cv" by simp
    have ok: "null_ok (left_nullable c) (cv ! j)" using assms nth_mem [OF j] by blast
    have IH: "fold_res ?body cur' [Suc j..<length cv] = Inr (accumulate_ref (comparison_functor c) cur' (drop (Suc j) cv))" for cur'
      using Suc.hyps(1) [of "Suc j" cur'] Suc.hyps(2) j by simp
    show ?case unfolding upt_conv_Cons [OF j] Cons_nth_drop_Suc [OF j, symmetric] fold_res.simps
      using ok j IH by (cases "cv ! j"; cases cur) (auto simp: cv_value_ok null_ok_def compareDataPtrsHelper_def apply_functor_def)
  qed simp
  from this [of 0 current] show ?thesis by (simp add: accumulateColumnVector_def)
qed

lemma cursor_same [simp]:
  "accessor_ids (cursor_at a k t) l = accessor_ids a l" "maybe_adapter (cursor_at a k t) = maybe_adapter a"
  "accessor_ids (beginIteration a) l = accessor_ids a l" "maybe_adapter (beginIteration a) = maybe_adapter a"
  by (cases a; simp)+

lemma finished_iff:
  assumes "accessor_ids a l" and "maybe_adapter a = Inr ()" and "next_tuple a = Inr (m, a')"
  shows "iterationFinished a = Inr (\<not> m)"
proof (cases a)
  case (SequenceAdapter h s p)
  then obtain n A where s: "holds s n A" using assms(1) by auto
  have "it_inc s n = Inr n" using it_inc_holds [OF s, of n] by simp
  then show ?thesis using SequenceAdapter assms(3) holdsD(8) [OF s] by (auto simp: res_simps)
qed (use assms in auto)

text \<open>The values at the states of the cursor.\<close>

definition cursor_values :: "'v Comparator \<Rightarrow> nat \<Rightarrow> ('v ValueAccessor \<Rightarrow> 'v option) \<Rightarrow> 'v ValueAccessor list \<Rightarrow> bool" where
  "cursor_values c attr val cs \<longleftrightarrow> (\<forall>x \<in> set cs. getUntypedValue (left_nullable c) x attr = Inr (val x) \<and> null_ok (left_nullable c) (val x))"

lemma find_first_moves:
  "moves a cs e \<Longrightarrow> length cs \<le> fuel \<Longrightarrow> cursor_values c attr val cs \<Longrightarrow>
   find_first fuel c attr a None = Inr (case dropWhile (\<lambda>x. val x = None) cs of [] \<Rightarrow> (e, None) | x # _ \<Rightarrow> (x, val x))"
proof (induction cs arbitrary: a fuel)
  case Nil
  then show ?case by (simp add: find_first.simps)
next
  case (Cons x cs)
  obtain f where f: "fuel = Suc f" using Cons.prems(2) by (cases fuel) auto
  have v: "getUntypedValue (left_nullable c) x attr = Inr (val x)" "null_ok (left_nullable c) (val x)" "cursor_values c attr val cs"
    using Cons.prems(3) by (auto simp: cursor_values_def)
  show ?case
  proof (cases "val x = None")
    case True
    then show ?thesis using Cons.IH [of x f] Cons.prems f v by (simp add: find_first.simps [of "Suc f"] null_ok_def)
  next
    case False
    then show ?thesis using Cons.prems f v by (auto simp: find_first.simps [of "Suc f"])
  qed
qed

lemma accumulate_fold:
  "cursor_values c attr val cs \<Longrightarrow>
   fold_res (accumulate_body c attr) (Some y) cs = Inr (accumulate_ref (comparison_functor c) (Some y) (map val cs))"
proof (induction cs arbitrary: y)
  case (Cons x cs)
  have v: "getUntypedValue (left_nullable c) x attr = Inr (val x)" "null_ok (left_nullable c) (val x)" "cursor_values c attr val cs"
    using Cons.prems by (auto simp: cursor_values_def)
  show ?case
  proof (cases "val x")
    case None
    then show ?thesis using Cons.IH [OF v(3)] v by (simp add: accumulate_body_def null_ok_def)
  next
    case (Some z)
    then show ?thesis using Cons.IH [OF v(3)] v
      by (simp add: accumulate_body_def compareDataPtrsHelper_def apply_functor_def)
  qed
qed simp

lemma accumulate_tail:
  assumes "moves a cs e" and "accessor_ids a l" and "maybe_adapter a = Inr ()" and "length cs \<le> fuel" and "cursor_values c attr val cs"
  shows "and_then (iterationFinished a) (\<lambda>finished. if finished then Inr (Some y)
      else and_then (check CheckFailed (Some y \<noteq> None)) (\<lambda>_.
        and_then (while_next fuel (accumulate_body c attr) a (Some y)) (\<lambda>(a', v). Inr v)))
    = Inr (accumulate_ref (comparison_functor c) (Some y) (map val cs))"
proof (cases cs)
  case Nil
  then have "iterationFinished a = Inr True" using finished_iff [OF assms(2,3), of False] assms(1) by simp
  then show ?thesis using Nil by simp
next
  case (Cons x xs)
  then have "iterationFinished a = Inr False" using finished_iff [OF assms(2,3), of True] assms(1) by simp
  moreover have "while_next fuel (accumulate_body c attr) a (Some y) = Inr (e, accumulate_ref (comparison_functor c) (Some y) (map val cs))"
    using while_next_moves [OF assms(1,4), of "accumulate_body c attr" "Some y"] accumulate_fold [OF assms(5), of y] by simp
  ultimately show ?thesis by simp
qed

lemma moves_suffix: "moves a (xs @ x # ys) e \<Longrightarrow> moves x ys e"
  by (induction xs arbitrary: a) auto

lemma accumulate_ref_nulls: "\<forall>v \<in> set us. v = None \<Longrightarrow> accumulate_ref f cur (us @ vs) = accumulate_ref f cur vs"
  by (induction us) auto

lemma accumulateValueAccessor_ref:
  fixes a :: "'a ValueAccessor"
  assumes dom: "accessor_domain a n ids" and nulls: "\<And>i. i \<in> set ids \<Longrightarrow> null_ok (left_nullable c) (value_at a i attr)"
  shows "accumulateValueAccessor c current a attr
    = Inr (accumulate_ref (comparison_functor c) current (map (\<lambda>i. value_at a i attr) ids))"
proof -
  have ids: "accessor_ids a (map int ids)" "maybe_adapter a = Inr ()" using dom by (auto simp: accessor_domain_def)
  let ?cs = "cursors a (map int ids)" and ?b = "tuple_bound a" and ?f = "comparison_functor c"
  define val :: "'a ValueAccessor \<Rightarrow> 'a option" where "val x = (case getUntypedValue True x attr of Inr v \<Rightarrow> v | Inl _ \<Rightarrow> None)" for x
  have val: "val (cursor_at a k (int (ids ! k))) = value_at a (ids ! k) attr" if "k < length ids" for k
    using cursor_reads(2) [OF ids(1), of k True attr] that by (simp add: val_def read_value_def)
  obtain e where e: "moves (beginIteration a) ?cs e" "iterationFinished e = Inr True" using accessor_moves [OF ids(1)] by blast
  have vals: "map val ?cs = map (\<lambda>i. value_at a i attr) ids" using val by (auto simp: cursors_def intro: nth_equalityI)
  have cv: "cursor_values c attr val ?cs"
    using cursor_reads(2) [OF ids(1)] val nulls by (auto simp: cursor_values_def cursors_def)
  have len: "length ?cs \<le> ?b" using accessor_ids_length(1) [OF ids(1)] by (simp add: cursors_def)
  show ?thesis
  proof (cases current)
    case (Some y)
    then show ?thesis using accumulate_tail [OF e(1) _ _ len cv, of "map int ids" y] ids vals
      by (simp add: accumulateValueAccessor_def)
  next
    case None
    note ff = find_first_moves [OF e(1) len cv]
    show ?thesis
    proof (cases "dropWhile (\<lambda>x. val x = None) ?cs")
      case Nil
      then have "\<forall>v \<in> set (map val ?cs). v = None" by (auto simp: dropWhile_eq_Nil_conv)
      then have "accumulate_ref ?f None (map val ?cs) = None" using accumulate_ref_nulls [of "map val ?cs" ?f None "[]"] by simp
      moreover have "find_first ?b c attr (beginIteration a) None = Inr (e, None)" unfolding ff Nil by simp
      ultimately show ?thesis using None e(2) ids vals by (simp add: accumulateValueAccessor_def)
    next
      case (Cons x ys)
      define xs where "xs = takeWhile (\<lambda>x. val x = None) ?cs"
      have split: "?cs = xs @ x # ys" using takeWhile_dropWhile_id [of "\<lambda>x. val x = None" ?cs] Cons by (simp add: xs_def)
      have none: "\<forall>v \<in> set (map val xs). v = None" by (auto simp: xs_def dest: set_takeWhileD)
      obtain y where y: "val x = Some y" using hd_dropWhile [of "\<lambda>x. val x = None" ?cs] Cons by auto
      have x: "accessor_ids x (map int ids)" "maybe_adapter x = Inr ()"
      proof -
        have "x \<in> set ?cs" using split by simp
        then show "accessor_ids x (map int ids)" "maybe_adapter x = Inr ()" using ids by (auto simp: cursors_def)
      qed
      have "cursor_values c attr val ys" using cv split by (simp add: cursor_values_def)
      moreover have "length ys \<le> ?b" using len split by simp
      ultimately have "and_then (iterationFinished x) (\<lambda>finished. if finished then Inr (Some y)
          else and_then (check CheckFailed (Some y \<noteq> None)) (\<lambda>_.
            and_then (while_next ?b (accumulate_body c attr) x (Some y)) (\<lambda>(a', v). Inr v)))
          = Inr (accumulate_ref ?f (Some y) (map val ys))"
        using moves_suffix e(1) x unfolding split by (intro accumulate_tail) auto
      moreover have "accumulate_ref ?f None (map val ?cs) = accumulate_ref ?f (Some y) (map val ys)"
        unfolding split using accumulate_ref_nulls [OF none, of ?f None "map val (x # ys)"] y by simp
      moreover have "find_first ?b c attr (beginIteration a) None = Inr (x, Some y)" unfolding ff Cons using y by simp
      ultimately show ?thesis using None ids vals by (simp add: accumulateValueAccessor_def)
    qed
  qed
qed

section \<open>Properties\<close>

abbreviation attribute_column :: "'v ValueAccessor \<Rightarrow> nat list \<Rightarrow> nat \<Rightarrow> 'v column" where
  "attribute_column a ids attr \<equiv> map (\<lambda>i. value_at a i attr) ids"

text \<open>The positions of a column that pass a test on their tuple, within a filter.\<close>

lemma passing_filter:
  assumes "column_domain ex n ids" and "tuple_filter fl n ids F" and "\<And>j. j < length ids \<Longrightarrow> P j = Q (ids ! j)"
  obtains G where "id_filter fl n G" "passing ids P \<inter> G = {i \<in> F. Q i}"
proof (cases fl)
  case None
  have "passing ids P \<inter> {..<n} = {i \<in> F. Q i}"
    using None assms column_domain_nth(1) [OF assms(1)] by (auto simp: passing_def tuple_filter_def in_set_conv_nth)
  then show ?thesis using None that [of "{..<n}"] by (simp add: id_filter_def)
next
  case (Some f)
  then have "holds f n F" "F \<subseteq> set ids" using assms(2) by (auto simp: tuple_filter_def)
  moreover have "passing ids P \<inter> F = {i \<in> F. Q i}"
    using \<open>F \<subseteq> set ids\<close> assms(3) by (auto simp: passing_def in_set_conv_nth subset_iff)
  ultimately show ?thesis using Some that [of F] by (simp add: id_filter_def)
qed

text \<open>C18. The vectorised comparisons of two attributes agree: whether the values are read from two columns,
  from one column and the accessor, or from the accessor only, with and without short-circuiting, with and
  without a filter and an existence bitmap, the result is the set of the tuples within the filter for which
  the comparison of the two values holds; it does not hold if one of them is NULL.\<close>

theorem comparisons_agree:
  assumes dom: "accessor_domain a n ids" and ex: "column_domain ex n ids" and fl: "tuple_filter fl n ids F"
    and nulls: "\<forall>i \<in> set ids. null_ok (left_nullable c) (value_at a i l) \<and> null_ok (right_nullable c) (value_at a i r)"
  defines "S \<equiv> {i \<in> F. matches c (value_at a i l) (value_at a i r)}"
  shows "(\<exists>res. compareColumnVectors sc c (attribute_column a ids l) (attribute_column a ids r) fl ex = Inr res \<and> holds res n S)
    \<and> (\<exists>res. compareColumnVectorAndValueAccessorHelper sc c True (attribute_column a ids l) a r fl ex = Inr res \<and> holds res n S)
    \<and> (\<exists>res. compareColumnVectorAndValueAccessorHelper sc c False (attribute_column a ids r) a l fl ex = Inr res \<and> holds res n S)
    \<and> (\<exists>res. compareSingleValueAccessor sc c a l r fl = Inr res \<and> holds res n S)"
proof (intro conjI)
  have acc: "accessor_ids a (map int ids)" "maybe_adapter a = Inr ()" using dom by (auto simp: accessor_domain_def)
  let ?L = "attribute_column a ids l" and ?R = "attribute_column a ids r"
  let ?P = "\<lambda>j. matches c (value_at a (ids ! j) l) (value_at a (ids ! j) r)"
  obtain G where G: "id_filter fl n G" "passing ids ?P \<inter> G = S"
    using passing_filter [OF ex fl, of ?P "\<lambda>i. matches c (value_at a i l) (value_at a i r)"] unfolding S_def by auto
  have P: "passing ids (\<lambda>j. matches c (?L ! j) (?R ! j)) = passing ids ?P"
    "passing ids (\<lambda>j. matches c (?L ! j) (value_at a (ids ! j) r)) = passing ids ?P"
    "passing ids (\<lambda>j. matches c (value_at a (ids ! j) l) (?R ! j)) = passing ids ?P"
    by (auto simp: passing_def)
  have N: "null_ok (left_nullable c) (?L ! j)" "null_ok (right_nullable c) (?R ! j)" if "j < length ids" for j
    using that nulls by simp_all
  show "\<exists>res. compareColumnVectors sc c ?L ?R fl ex = Inr res \<and> holds res n S"
    using compareColumnVectors_spec [OF ex G(1), of ?L ?R c sc] N by (simp only: P G(2) length_map simp_thms)
  show "\<exists>res. compareColumnVectorAndValueAccessorHelper sc c True ?L a r fl ex = Inr res \<and> holds res n S"
    using compareColumnVectorAndValueAccessorHelper_spec [OF ex G(1) _ acc, of ?L True c r sc] N nulls
    by (simp only: P G(2) length_map simp_thms if_True)
  show "\<exists>res. compareColumnVectorAndValueAccessorHelper sc c False ?R a l fl ex = Inr res \<and> holds res n S"
    using compareColumnVectorAndValueAccessorHelper_spec [OF ex G(1) _ acc, of ?R False c l sc] N nulls
    by (simp only: P G(2) length_map simp_thms if_False)
  show "\<exists>res. compareSingleValueAccessor sc c a l r fl = Inr res \<and> holds res n S"
    unfolding S_def using nulls by (intro compareSingleValueAccessor_spec [OF dom fl]) auto
qed

text \<open>C19. The comparisons with a static value agree in the same way: over a column and over the accessor, on
  either side of the comparison.\<close>

theorem static_comparisons_agree:
  assumes dom: "accessor_domain a n ids" and ex: "column_domain ex n ids" and fl: "tuple_filter fl n ids F"
    and nulls: "\<forall>i \<in> set ids. null_ok (if on_left then left_nullable c else right_nullable c) (value_at a i attr)"
    and sv: "null_ok (if on_left then right_nullable c else left_nullable c) v"
  defines "S \<equiv> {i \<in> F. if on_left then matches c (value_at a i attr) v else matches c v (value_at a i attr)}"
  shows "(\<exists>res. compareColumnVectorAndStaticValueHelper sc c on_left (attribute_column a ids attr) v fl ex = Inr res \<and> holds res n S)
    \<and> (\<exists>res. compareValueAccessorAndStaticValueHelper sc c on_left a attr v fl = Inr res \<and> holds res n S)"
proof (intro conjI)
  let ?C = "attribute_column a ids attr"
  let ?Q = "\<lambda>i. if on_left then matches c (value_at a i attr) v else matches c v (value_at a i attr)"
  let ?P = "\<lambda>j. if on_left then matches c (?C ! j) v else matches c v (?C ! j)"
  obtain G where G: "id_filter fl n G" "passing ids ?P \<inter> G = S"
    by (rule passing_filter [OF ex fl, of ?P ?Q, folded S_def]) simp_all
  have N: "null_ok (if on_left then left_nullable c else right_nullable c) (?C ! j)" if "j < length ids" for j
    using that nulls by simp
  show "\<exists>res. compareColumnVectorAndStaticValueHelper sc c on_left ?C v fl ex = Inr res \<and> holds res n S"
    using compareColumnVectorAndStaticValueHelper_spec [OF ex G(1) _ _ sv, of ?C sc] N by (simp only: G(2) length_map simp_thms)
  show "\<exists>res. compareValueAccessorAndStaticValueHelper sc c on_left a attr v fl = Inr res \<and> holds res n S"
    unfolding S_def using nulls by (intro compareValueAccessorAndStaticValueHelper_spec [OF dom fl _ sv]) blast
qed

text \<open>C20. Accumulating with the functor \<^verbatim>\<open>less\<close> computes the minimum of the current value and of the values that
  are not NULL, over a column and over an accessor alike; NULL stays NULL if there is none.\<close>

theorem accumulation_correct:
  fixes a :: "'v::linorder ValueAccessor" and current :: "'v option"
  assumes dom: "accessor_domain a n ids" and f: "comparison_functor c = (<)"
    and nulls: "\<forall>i \<in> set ids. null_ok (left_nullable c) (value_at a i attr)"
  defines "X \<equiv> {x. Some x = current \<or> (\<exists>i \<in> set ids. value_at a i attr = Some x)}"
  shows "accumulateValueAccessor c current a attr = Inr (if X = {} then None else Some (Min X))
    \<and> accumulateColumnVector c current (attribute_column a ids attr) = Inr (if X = {} then None else Some (Min X))"
proof -
  have "{x. Some x \<in> set (current # attribute_column a ids attr)} = X" by (force simp: X_def)
  then have ref: "accumulate_ref (<) current (attribute_column a ids attr) = (if X = {} then None else Some (Min X))"
    using accumulate_ref_min [of current "attribute_column a ids attr"] by (simp only: Let_def)
  have "accumulateColumnVector c current (attribute_column a ids attr) = Inr (accumulate_ref (comparison_functor c) current (attribute_column a ids attr))"
    using nulls by (intro accumulateColumnVector_ref) auto
  then show ?thesis using accumulateValueAccessor_ref [OF dom, of c attr current] nulls by (simp only: f ref simp_thms)
qed

section \<open>Witnesses\<close>

definition example_comparator :: "int Comparator" where
  "example_comparator = \<lparr>comparison_functor = (<), left_nullable = True, right_nullable = True\<rparr>"

lemma example_domain:
  "accessor_domain (new_PackedAccessor example_helper) 3 [0, 1, 2]" "column_domain None 3 [0, 1, 2]"
  by (simp_all add: accessor_domain_def column_domain_def new_PackedAccessor_def example_helper_def upt_conv_Cons)

theorem comparisons_agree_witness:
  "\<exists>res. compareSingleValueAccessor True example_comparator (new_PackedAccessor example_helper) 0 1 None = Inr res \<and> holds res 3 {}"
  using comparisons_agree [OF example_domain, of None "{0, 1, 2}" example_comparator 0 1 True]
  by (simp add: tuple_filter_def example_comparator_def null_ok_def matches_def example_helper_def new_PackedAccessor_def
      split: option.splits cong: conj_cong)

theorem static_comparisons_agree_witness:
  "\<exists>res. compareValueAccessorAndStaticValueHelper False example_comparator True (new_PackedAccessor example_helper) 0 (Some 15) None = Inr res
     \<and> holds res 3 {0}"
proof -
  have "{i :: nat. (i = 0 \<or> i = Suc 0 \<or> i = 2) \<and> matches example_comparator (value_at (new_PackedAccessor example_helper) i 0) (Some 15)} = {0}"
    by (auto simp: matches_def example_comparator_def example_helper_def new_PackedAccessor_def)
  then show ?thesis
    using static_comparisons_agree [OF example_domain, of None "{0, 1, 2}" True example_comparator 0 "Some 15" False]
    by (simp add: tuple_filter_def example_comparator_def null_ok_def)
qed

theorem accumulation_correct_witness:
  "accumulateValueAccessor example_comparator None (new_PackedAccessor example_helper) 0 = Inr (Some 0)"
proof -
  have "{x. Some x = (None :: int option) \<or> (\<exists>i \<in> set [0 :: nat, 1, 2]. value_at (new_PackedAccessor example_helper) i 0 = Some x)} = {0, 20}"
    by (auto simp: example_helper_def new_PackedAccessor_def)
  then show ?thesis using accumulation_correct [OF example_domain(1), of example_comparator 0 None]
    by (simp add: example_comparator_def null_ok_def)
qed

end
