(* ===== verification/Spec2Isabelle.thy ===== *)
theory Spec2Isabelle
  imports DeadLockDetectors ForemanRuns BitVectorShifts EvictionPolicies DisjointForests BloomFilters Comparators
begin

text \<open>
  A model of the parts of the Quickstep backend that decide what happens and in which order: the lock
  manager with its deadlock detector, the scheduler of queries and work orders, and the data structures
  they and the storage layer are built on.  Every definition translates a function, a method or a
  type under \<^verbatim>\<open>src/\<close> and keeps its name where possible; the debug build is modelled, so that every
  \<^verbatim>\<open>DCHECK\<close> and \<^verbatim>\<open>DEBUG_ASSERT\<close> is a branch.

  \<^bold>\<open>Conventions\<close> (\<^verbatim>\<open>Prelude\<close>).  A call that may fail returns a value of type \<open>'a result\<close>: the left
  injection of a \<open>cpp_error\<close> (a failed check, a fatal log entry, an index out of range, undefined
  behaviour, an exhausted bound), or the right injection of the value.  \<open>and_then\<close> sequences calls,
  \<open>check\<close> is an assertion, \<open>fold_res\<close> a loop over a list, \<open>vec_at\<close> and \<open>vec_set\<close> access a vector.
  Objects are records that are passed and returned; unordered maps are association lists or HOL maps,
  unordered sets are HOL sets.  Operations that hold a mutex for their whole duration are single
  steps.  Machine words are words where their width matters (bit vectors, hashes), and natural
  numbers where they count things that fit into memory.

  \<^bold>\<open>Transactions\<close> (\<^verbatim>\<open>src/transaction\<close>).
  \<^item> \<^verbatim>\<open>AccessModes\<close>: lock modes, the compatibility table and resource ids (\<^verbatim>\<open>AccessMode\<close>, \<^verbatim>\<open>ResourceId\<close>,
    \<^verbatim>\<open>Lock\<close>, \<^verbatim>\<open>LockRequest\<close>, \<^verbatim>\<open>Transaction\<close>).  The table is the multi-granularity rule; the
    parent of a resource id.  The locale \<open>compatibility\<close> states what the tables rely on.
  \<^item> \<^verbatim>\<open>LockTables\<close> and \<^verbatim>\<open>TransactionTables\<close>: the two tables of the lock manager.  Grants are always
    compatible; new requests queue up; \<^verbatim>\<open>deleteLock\<close> never promotes a waiting request.  The locale
    \<open>lock_store\<close> is what the lock manager relies on.
  \<^item> \<^verbatim>\<open>LockManagers\<close>: acquiring along the hierarchy, releasing, killing victims, and an iteration of the
    thread.  Reachable states keep both tables consistent, and there is no conflict across levels.
  \<^item> \<^verbatim>\<open>DirectedGraphs\<close>, \<^verbatim>\<open>StronglyConnected\<close>, \<^verbatim>\<open>CycleDetectors\<close>, \<^verbatim>\<open>DeadLockDetectors\<close>: the wait-for graph,
    Tarjan's algorithm with its explicit recursion, the choice of victims, and the detector thread.
    The algorithms terminate and are correct; the first detection breaks all deadlocks between
    different transactions, the second one fails.

  \<^bold>\<open>Scheduling\<close> (\<^verbatim>\<open>src/query_execution\<close>, \<^verbatim>\<open>src/utility/DAG.hpp\<close>).
  \<^item> \<^verbatim>\<open>Dags\<close>: the query plan with its links, cycle test, topological sorting and stage sequence.
  \<^item> \<^verbatim>\<open>WorkOrders\<close>: the containers of work orders per operator and NUMA node, and the selection policies
    (locale \<open>selection_policy\<close> with the FIFO and LIFO policies as interpretations).
  \<^item> \<^verbatim>\<open>ExecutionStates\<close>, \<^verbatim>\<open>QueryManagers\<close>: the execution state and the manager of one query, with every
    handler of messages.  Relational operators are a parameter, the record \<open>operator_interface\<close>.
  \<^item> \<^verbatim>\<open>QueryExecutions\<close>, \<^verbatim>\<open>QueryRuns\<close>: the invariant of the manager and its runs.  Work orders are executed
    only after the blocking dependencies; the status of a query is exact; the recursion ends.
  \<^item> \<^verbatim>\<open>WorkerDirectories\<close>, \<^verbatim>\<open>PolicyEnforcers\<close>, \<^verbatim>\<open>Foremen\<close>: the loads of the workers, the admission of queries
    and the routing of messages, and the event loop of the single-node foreman with the replies of
    the workers.  The messages received and sent are arguments and results; the bus is not modelled.
  \<^item> \<^verbatim>\<open>ForemanRuns\<close>: runs of the whole scheduler with the work orders in flight.  All counters agree with
    the work orders in flight, completions are always accepted, loads stay balanced, and a waiting
    query can starve.

  \<^bold>\<open>Bit vectors\<close> (\<^verbatim>\<open>src/utility\<close>).
  \<^item> \<^verbatim>\<open>BitManipulations\<close>, \<^verbatim>\<open>BitVectors\<close>, \<^verbatim>\<open>BitVectorScans\<close>, \<^verbatim>\<open>BitVectorShifts\<close>: the template \<^verbatim>\<open>BitVector\<close> with
    its short representations (a byte, two bytes, four bytes) and the one with 64-bit words.  The
    operations are refinements of those on sets of positions; the cases in which they are not are
    stated exactly.

  \<^bold>\<open>Catalog\<close> (\<^verbatim>\<open>src/catalog\<close>).
  \<^item> \<^verbatim>\<open>PartitionSchemes\<close>: hash, random and range partitioning, the blocks of the partitions and of a
    relation.  Hashing of values and the comparators of their types are parameters.

  \<^bold>\<open>Bounds.\<close>  Recursions that are not structural have a termination proof, or carry a bound that the
  theorems show to be large enough: the number of nodes for the depth-first searches and for the
  recursion of \<^verbatim>\<open>markOperatorFinished\<close>, the number of unfinished steps for the loops over plans.

  \<^bold>\<open>Not modelled.\<close>  The parser, the optimizer, relational operators, expressions and the byte layouts of
  storage blocks; conversion to and from protobuf messages; the distributed version, files, sockets
  and the message bus; threads and the interleaving within an operation that holds its mutex.
\<close>

end
